(* ===== verification/Prelude.thy ===== *)
theory Prelude
  imports Main "HOL-Library.Word" "HOL-Library.AList" "HOL-Library.Char_ord"
    "HOL-Library.List_Lexorder" "HOL-Library.Sublist"
begin

text \<open>
  The shared vocabulary of the development.

  \<^item> \<open>result\<close>: what a Go call can do besides returning a value: return an error
    (the text of the \<open>error\<close> value), panic, or never return;
  \<^item> \<open>gomap\<close>: a Go map, as an association list with distinct keys.  The list order
    stands for the (unspecified) iteration order of \<open>range\<close>; \<open>len\<close> is the length;
  \<^item> \<open>gotime\<close>: \<open>time.Time\<close>, in nanoseconds since the Unix epoch; \<open>zeroTime\<close> is
    the zero value of the type (1 January of year 1);
  \<^item> byte strings: a Go \<open>string\<close> or \<open>[]byte\<close> is a list of 8-bit characters, and
    \<open>be_bytes k n\<close> is the big-endian encoding of \<open>n\<close> in \<open>k\<close> bytes.

  The collections \<open>gomap\<close> and \<open>lru\<close> carry the rewrite rules that the component
  theories hand to \<open>simp\<close> and \<open>auto\<close>.
\<close>

named_theorems gomap "lookup, update and deletion in Go maps"
named_theorems lru "facts on least-recently-used lists"

section \<open>Results of calls\<close>

datatype 'a result = Ok 'a | Err string | Panic | Hang

fun bind_result :: "'a result \<Rightarrow> ('a \<Rightarrow> 'b result) \<Rightarrow> 'b result" where
  "bind_result (Ok x) f = f x"
| "bind_result (Err e) f = Err e"
| "bind_result Panic f = Panic"
| "bind_result Hang f = Hang"

lemma bind_result_eq_Ok [simp]:
  "bind_result r f = Ok y \<longleftrightarrow> (\<exists>x. r = Ok x \<and> f x = Ok y)"
  by (cases r) auto

lemma bind_result_eq_Panic [simp]:
  "bind_result r f = Panic \<longleftrightarrow> r = Panic \<or> (\<exists>x. r = Ok x \<and> f x = Panic)"
  by (cases r) auto

lemma bind_result_eq_Hang [simp]:
  "bind_result r f = Hang \<longleftrightarrow> r = Hang \<or> (\<exists>x. r = Ok x \<and> f x = Hang)"
  by (cases r) auto

text \<open>A call that returns, with a value or with an error.\<close>

fun returns :: "'a result \<Rightarrow> bool" where
  "returns (Ok x) = True"
| "returns (Err e) = True"
| "returns Panic = False"
| "returns Hang = False"

lemma returns_iff: "returns r \<longleftrightarrow> r \<noteq> Panic \<and> r \<noteq> Hang"
  by (cases r) auto

lemma returns_bind [simp]: "returns (bind_result r f) \<longleftrightarrow> returns r \<and> (\<forall>x. r = Ok x \<longrightarrow> returns (f x))"
  by (cases r) auto

section \<open>Types shared by the components\<close>

type_synonym hash = "256 word"
type_synonym int64 = "64 word"
type_synonym uint64 = "64 word"
type_synonym gotime = int
type_synonym ('k, 'v) gomap = "('k \<times> 'v) list"

definition zeroTime :: gotime where
  "zeroTime = - 62135596800 * 1000000000"

abbreviation IsZeroTime :: "gotime \<Rightarrow> bool" where
  "IsZeroTime t \<equiv> t = zeroTime"

text \<open>\<open>expired now t\<close> is the test \<open>!t.IsZero() && t.Before(now)\<close> of the caches.\<close>

definition expired :: "gotime \<Rightarrow> gotime \<Rightarrow> bool" where
  "expired now t \<longleftrightarrow> \<not> IsZeroTime t \<and> t < now"

lemma expired_zeroTime [simp]: "\<not> expired now zeroTime"
  by (simp add: expired_def)

section \<open>Go maps\<close>

definition gomap_ok :: "('k, 'v) gomap \<Rightarrow> bool" where
  "gomap_ok m \<longleftrightarrow> distinct (map fst m)"

lemma gomap_ok_Nil [simp]: "gomap_ok []"
  by (simp add: gomap_ok_def)

lemma gomap_ok_update [simp]: "gomap_ok m \<Longrightarrow> gomap_ok (AList.update k v m)"
  by (simp add: gomap_ok_def distinct_update)

lemma gomap_ok_delete [simp]: "gomap_ok m \<Longrightarrow> gomap_ok (AList.delete k m)"
  by (simp add: gomap_ok_def distinct_delete)

lemma map_of_update [gomap]:
  "map_of (AList.update k v m) k' = (if k' = k then Some v else map_of m k')"
  by (simp add: update_conv')

lemma map_of_delete [gomap]:
  "map_of (AList.delete k m) k' = (if k' = k then None else map_of m k')"
  by (simp add: delete_conv')

lemma gomap_in_set: "gomap_ok m \<Longrightarrow> (k, v) \<in> set m \<longleftrightarrow> map_of m k = Some v"
  by (auto simp: gomap_ok_def dest: map_of_SomeD)

lemma set_delete_gomap: "set (AList.delete k m) = {x \<in> set m. fst x \<noteq> k}"
  by (auto simp: AList.delete_eq)

lemma set_keys_delete [simp]: "fst ` set (AList.delete k m) = fst ` set m - {k}"
  by (auto simp: AList.delete_eq)

lemma delete_absent: "map_of m k = None \<Longrightarrow> AList.delete k m = m"
  by (simp add: delete_id map_of_eq_None_iff)

lemma dom_map_of_eq: "dom (map_of m) = fst ` set m"
  by (rule dom_map_of_conv_image_fst)

text \<open>
  A weight over the entries of a Go map (\<open>estimateAtomBytes\<close> in the caches): inserting
  a fresh key adds the entry's weight, deleting a key takes its entry's weight away.
\<close>

definition weight :: "('k \<Rightarrow> 'v \<Rightarrow> int) \<Rightarrow> ('k, 'v) gomap \<Rightarrow> int" where
  "weight f m = sum_list (map (\<lambda>(k, v). f k v) m)"

lemma weight_Nil [simp]: "weight f [] = 0"
  by (simp add: weight_def)

lemma weight_Cons [simp]: "weight f ((k, v) # m) = f k v + weight f m"
  by (simp add: weight_def)

lemma weight_update_fresh:
  "map_of m k = None \<Longrightarrow> weight f (AList.update k v m) = weight f m + f k v"
  by (induction m) (auto split: if_splits)

lemma weight_update:
  "gomap_ok m \<Longrightarrow> map_of m k = Some w \<Longrightarrow>
    weight f (AList.update k v m) = weight f m - f k w + f k v"
  by (induction m) (auto simp: gomap_ok_def split: if_splits)

lemma weight_delete:
  "gomap_ok m \<Longrightarrow> map_of m k = Some w \<Longrightarrow>
    weight f (AList.delete k m) = weight f m - f k w"
proof (induction m)
  case Nil
  then show ?case by simp
next
  case (Cons e m)
  obtain k' v' where e: "e = (k', v')" by (cases e)
  show ?case
  proof (cases "k' = k")
    case True
    with Cons.prems e have "w = v'" and "k \<notin> fst ` set m"
      by (auto simp: gomap_ok_def)
    then show ?thesis using e True by simp
  next
    case False
    with Cons e show ?thesis by (simp add: gomap_ok_def)
  qed
qed

lemma weight_nonneg:
  "(\<And>k v. 0 \<le> f k v) \<Longrightarrow> 0 \<le> weight f m"
  by (induction m) auto

lemma weight_pos:
  "(\<And>k v. 0 < f k v) \<Longrightarrow> m \<noteq> [] \<Longrightarrow> 0 < weight f m"
proof (induction m)
  case (Cons e m)
  obtain k v where e: "e = (k, v)" by (cases e)
  have "0 \<le> weight f m" using Cons.prems(1) by (intro weight_nonneg) (simp add: less_imp_le)
  moreover have "0 < f k v" by (rule Cons.prems(1))
  ultimately show ?case by (simp add: e)
qed simp

section \<open>Least-recently-used lists\<close>

text \<open>
  A \<open>container/list\<close> of distinct keys, the most recently used first.  The code keeps
  a second map from keys to list elements; an element is identified by the key it holds.
\<close>

definition moveToFront :: "'k \<Rightarrow> 'k list \<Rightarrow> 'k list" where
  "moveToFront k xs = (if k \<in> set xs then k # removeAll k xs else xs)"

definition removeElem :: "'k \<Rightarrow> 'k list \<Rightarrow> 'k list" where
  "removeElem k xs = removeAll k xs"

lemma set_moveToFront [simp, lru]: "set (moveToFront k xs) = set xs"
  by (auto simp: moveToFront_def)

lemma distinct_moveToFront [simp, lru]: "distinct xs \<Longrightarrow> distinct (moveToFront k xs)"
  by (simp add: moveToFront_def distinct_removeAll)

lemma set_removeElem [simp, lru]: "set (removeElem k xs) = set xs - {k}"
  by (simp add: removeElem_def)

lemma distinct_removeElem [simp, lru]: "distinct xs \<Longrightarrow> distinct (removeElem k xs)"
  by (simp add: removeElem_def distinct_removeAll)

lemma hd_moveToFront: "k \<in> set xs \<Longrightarrow> hd (moveToFront k xs) = k"
  by (simp add: moveToFront_def)

lemma removeElem_last:
  assumes "distinct xs" and "xs \<noteq> []"
  shows "removeElem (last xs) xs = butlast xs"
proof -
  from assms(2) have split: "xs = butlast xs @ [last xs]" by simp
  with assms(1) have "last xs \<notin> set (butlast xs)"
    by (metis distinct_append disjoint_iff list.set_intros(1))
  then show ?thesis
    by (subst split) (simp add: removeElem_def)
qed

section \<open>Counters\<close>

lemma word_less_succ: "(w :: 64 word) \<noteq> - 1 \<Longrightarrow> v \<le> w \<Longrightarrow> v < w + 1"
proof -
  assume w: "w \<noteq> - 1" and v: "v \<le> w"
  have "1 + w \<noteq> 0" using w by (metis add_eq_0_iff)
  then have "unat (w + 1) = Suc (unat w)" using unatSuc [of w] by (simp add: add.commute)
  with v show ?thesis by (simp add: word_less_nat_alt word_le_nat_alt)
qed

section \<open>Byte encodings\<close>

fun be_bytes :: "nat \<Rightarrow> nat \<Rightarrow> string" where
  "be_bytes 0 n = []"
| "be_bytes (Suc k) n = be_bytes k (n div 256) @ [char_of n]"

lemma length_be_bytes [simp]: "length (be_bytes k n) = k"
  by (induction k arbitrary: n) auto

lemma be_bytes_inj:
  "n < 256 ^ k \<Longrightarrow> m < 256 ^ k \<Longrightarrow> be_bytes k n = be_bytes k m \<Longrightarrow> n = m"
proof (induction k arbitrary: n m)
  case 0
  then show ?case by simp
next
  case (Suc k)
  from Suc.prems(3) have low: "(char_of n :: char) = char_of m"
    and high: "be_bytes k (n div 256) = be_bytes k (m div 256)"
    by auto
  from low have "(of_char (char_of n :: char) :: nat) = of_char (char_of m :: char)"
    by simp
  then have "n mod 256 = m mod 256" by simp
  moreover have "n div 256 = m div 256"
  proof (rule Suc.IH)
    show "n div 256 < 256 ^ k" "m div 256 < 256 ^ k"
      using Suc.prems(1,2) by (auto simp: less_mult_imp_div_less mult.commute)
  qed (rule high)
  ultimately show ?case by (metis div_mult_mod_eq)
qed

definition be64 :: "64 word \<Rightarrow> string" where
  "be64 w = be_bytes 8 (unat w)"

definition be32 :: "32 word \<Rightarrow> string" where
  "be32 w = be_bytes 4 (unat w)"

definition be16 :: "16 word \<Rightarrow> string" where
  "be16 w = be_bytes 2 (unat w)"

definition hashBytes :: "hash \<Rightarrow> string" where
  "hashBytes h = be_bytes 32 (unat h)"

lemma length_be64 [simp]: "length (be64 w) = 8"
  by (simp add: be64_def)

lemma length_hashBytes [simp]: "length (hashBytes h) = 32"
  by (simp add: hashBytes_def)

lemma be64_inj [simp]: "be64 a = be64 b \<longleftrightarrow> a = b"
proof
  assume "be64 a = be64 b"
  then have "be_bytes 8 (unat a) = be_bytes 8 (unat b)" by (simp add: be64_def)
  moreover have "unat a < 256 ^ 8" "unat b < 256 ^ 8"
    using unsigned_less [of a, where ?'a = nat] unsigned_less [of b, where ?'a = nat] by simp_all
  ultimately have "unat a = unat b" by (blast intro: be_bytes_inj)
  then show "a = b" by (simp add: word_unat_eq_iff)
qed simp

lemma hashBytes_inj [simp]: "hashBytes a = hashBytes b \<longleftrightarrow> a = b"
proof
  assume "hashBytes a = hashBytes b"
  then have "be_bytes 32 (unat a) = be_bytes 32 (unat b)" by (simp add: hashBytes_def)
  moreover have "unat a < 256 ^ 32" "unat b < 256 ^ 32"
    using unsigned_less [of a, where ?'a = nat] unsigned_less [of b, where ?'a = nat] by simp_all
  ultimately have "unat a = unat b" by (blast intro: be_bytes_inj)
  then show "a = b" by (simp add: word_unat_eq_iff)
qed simp

text \<open>Concatenations of fixed-width encodings determine their parts.\<close>

lemma concat_map_fixed_inj:
  assumes len: "\<And>x. length (f x) = w" and w: "0 < w" and inj: "\<And>x y. f x = f y \<Longrightarrow> x = y"
  shows "concat (map f xs) = concat (map f ys) \<Longrightarrow> xs = ys"
proof (induction xs arbitrary: ys)
  case Nil
  then show ?case using len w by (cases ys) (auto dest: arg_cong [where f = length])
next
  case (Cons x xs)
  show ?case
  proof (cases ys)
    case Nil
    with Cons.prems have "length (f x) = 0" by simp
    with len w show ?thesis by simp
  next
    case (Cons y ys')
    with Cons.prems have "f x @ concat (map f xs) = f y @ concat (map f ys')" by simp
    then have "f x = f y" and "concat (map f xs) = concat (map f ys')"
      using append_eq_append_conv [of "f x" "f y"] len by auto
    with Cons.IH inj Cons show ?thesis by blast
  qed
qed

end
