(* ===== verification/GoLib.thy ===== *)
theory GoLib
  imports Prelude
begin

text \<open>
  What the program uses of the Go language and its standard library: \<open>strings\<close>,
  \<open>strconv\<close>, \<open>encoding/binary\<close> and float64 scaling by a constant.

  The record \<open>ext\<close> holds the functions whose code is not part of the repository and is
  not modelled: the digests SHA3-256, xxHash64 and SHA-256, what the string functions do
  on strings that are not pure ASCII (the Unicode tables), the decimal printing and parsing
  of floating-point numbers, and the random nonces.  Every definition that needs one of
  them takes the record as its first argument.  \<open>goQuote\<close> and \<open>fmtDuration\<close> are the verbs
  \<open>%q\<close> for a string and \<open>%v\<close> for a \<open>time.Duration\<close>, which only occur in messages, and
  \<open>sortNaN\<close> is the order in which \<open>sort.Slice\<close> leaves scored members when a score is not
  a number, so that the comparison is not an order.  \<open>jsonFloat\<close> is the number that
  \<open>encoding/json\<close> writes for a float64 (\<open>None\<close> for NaN and the infinities), \<open>jsonTime\<close> and
  \<open>parseTime\<close> are RFC 3339 with nanoseconds, as \<open>time.Time\<close> marshals itself.
\<close>

record ext =
  sha3 :: "string \<Rightarrow> hash"
  xxh :: "string \<Rightarrow> uint64"
  sha256 :: "string \<Rightarrow> hash"
  uniUpper :: "string \<Rightarrow> string"
  uniTrim :: "string \<Rightarrow> string"
  uniFields :: "string \<Rightarrow> string list"
  fmtFloat6 :: "64 word \<Rightarrow> string"
  fmtFloatV :: "64 word \<Rightarrow> string"
  fmtFloatF :: "64 word \<Rightarrow> string"
  parseFloat :: "string \<Rightarrow> 64 word option"
  nonceAt :: "nat \<Rightarrow> 128 word"
  goQuote :: "string \<Rightarrow> string"
  fmtDuration :: "int \<Rightarrow> string"
  sortNaN :: "(string \<times> 64 word) list \<Rightarrow> (string \<times> 64 word) list"
  jsonFloat :: "64 word \<Rightarrow> string option"
  jsonTime :: "gotime \<Rightarrow> string"
  parseTime :: "string \<Rightarrow> gotime option"

section \<open>Characters\<close>

abbreviation code_of :: "char \<Rightarrow> nat" where
  "code_of c \<equiv> of_char c"

definition isASCII :: "string \<Rightarrow> bool" where
  "isASCII s \<longleftrightarrow> (\<forall>c \<in> set s. code_of c < 128)"

definition isDigit :: "char \<Rightarrow> bool" where
  "isDigit c \<longleftrightarrow> 48 \<le> code_of c \<and> code_of c \<le> 57"

definition isLetter :: "char \<Rightarrow> bool" where
  "isLetter c \<longleftrightarrow> (65 \<le> code_of c \<and> code_of c \<le> 90) \<or> (97 \<le> code_of c \<and> code_of c \<le> 122)"

definition isSpace :: "char \<Rightarrow> bool" where
  "isSpace c \<longleftrightarrow> code_of c = 32 \<or> (9 \<le> code_of c \<and> code_of c \<le> 13)"

definition upperChar :: "char \<Rightarrow> char" where
  "upperChar c = (if 97 \<le> code_of c \<and> code_of c \<le> 122 then char_of (code_of c - 32) else c)"

definition CR :: char where "CR = char_of (13::nat)"
definition LF :: char where "LF = char_of (10::nat)"

definition crlf :: string where "crlf = [CR, LF]"

section \<open>Package strings\<close>

definition ToUpper :: "ext \<Rightarrow> string \<Rightarrow> string" where
  "ToUpper E s = (if isASCII s then map upperChar s else uniUpper E s)"

definition trimLeftBy :: "(char \<Rightarrow> bool) \<Rightarrow> string \<Rightarrow> string" where
  "trimLeftBy p s = dropWhile p s"

definition trimRightBy :: "(char \<Rightarrow> bool) \<Rightarrow> string \<Rightarrow> string" where
  "trimRightBy p s = rev (dropWhile p (rev s))"

definition TrimSpace :: "ext \<Rightarrow> string \<Rightarrow> string" where
  "TrimSpace E s =
     (if isASCII s then trimRightBy isSpace (trimLeftBy isSpace s) else uniTrim E s)"

definition TrimRight :: "string \<Rightarrow> string \<Rightarrow> string" where
  "TrimRight s cutset = trimRightBy (\<lambda>c. c \<in> set cutset) s"

definition Trim :: "string \<Rightarrow> string \<Rightarrow> string" where
  "Trim s cutset = trimRightBy (\<lambda>c. c \<in> set cutset) (trimLeftBy (\<lambda>c. c \<in> set cutset) s)"

definition HasPrefix :: "string \<Rightarrow> string \<Rightarrow> bool" where
  "HasPrefix s p \<longleftrightarrow> take (length p) s = p"

definition HasSuffix :: "string \<Rightarrow> string \<Rightarrow> bool" where
  "HasSuffix s p \<longleftrightarrow> length p \<le> length s \<and> drop (length s - length p) s = p"

definition TrimPrefix :: "string \<Rightarrow> string \<Rightarrow> string" where
  "TrimPrefix s p = (if HasPrefix s p then drop (length p) s else s)"

definition TrimSuffix :: "string \<Rightarrow> string \<Rightarrow> string" where
  "TrimSuffix s p = (if HasSuffix s p then take (length s - length p) s else s)"

text \<open>\<open>Index\<close>: the position of the first occurrence, \<open>None\<close> for Go's -1.\<close>

fun Index :: "string \<Rightarrow> string \<Rightarrow> nat option" where
  "Index s p =
     (if HasPrefix s p then Some 0
      else case s of [] \<Rightarrow> None | _ # s' \<Rightarrow> map_option Suc (Index s' p))"

declare Index.simps [simp del]

definition Contains :: "string \<Rightarrow> string \<Rightarrow> bool" where
  "Contains s p \<longleftrightarrow> Index s p \<noteq> None"

fun LastIndexChar :: "char \<Rightarrow> string \<Rightarrow> nat option" where
  "LastIndexChar c [] = None"
| "LastIndexChar c (x # s) =
     (case LastIndexChar c s of Some i \<Rightarrow> Some (Suc i)
      | None \<Rightarrow> if x = c then Some 0 else None)"

text \<open>\<open>Split\<close> on a one-character separator.\<close>

fun splitOn :: "char \<Rightarrow> string \<Rightarrow> string list" where
  "splitOn c [] = [[]]"
| "splitOn c (x # s) =
     (if x = c then [] # splitOn c s
      else case splitOn c s of [] \<Rightarrow> [[x]] | w # ws \<Rightarrow> (x # w) # ws)"

fun fieldsBy :: "(char \<Rightarrow> bool) \<Rightarrow> string \<Rightarrow> string \<Rightarrow> string list" where
  "fieldsBy p acc [] = (if acc = [] then [] else [rev acc])"
| "fieldsBy p acc (x # s) =
     (if p x then (if acc = [] then fieldsBy p [] s else rev acc # fieldsBy p [] s)
      else fieldsBy p (x # acc) s)"

definition Fields :: "ext \<Rightarrow> string \<Rightarrow> string list" where
  "Fields E s = (if isASCII s then fieldsBy isSpace [] s else uniFields E s)"

definition sortStrings :: "string list \<Rightarrow> string list" where
  "sortStrings xs = sort xs"

fun joinWith :: "string \<Rightarrow> string list \<Rightarrow> string" where
  "joinWith sep [] = []"
| "joinWith sep [w] = w"
| "joinWith sep (w # ws) = w @ sep @ joinWith sep ws"

lemma splitOn_nonempty [simp]: "splitOn c s \<noteq> []"
  by (induction s) (auto split: list.splits)

lemma splitOn_no_sep: "c \<notin> set s \<Longrightarrow> splitOn c s = [s]"
  by (induction s) auto

lemma splitOn_append: "c \<notin> set s \<Longrightarrow> splitOn c (s @ c # t) = s # splitOn c t"
  by (induction s) auto

lemma join_splitOn: "joinWith [c] (splitOn c s) = s"
proof (induction s)
  case Nil
  then show ?case by simp
next
  case (Cons x s)
  obtain w ws where "splitOn c s = w # ws" using splitOn_nonempty [of c s] by (cases "splitOn c s") auto
  with Cons show ?case by (cases ws) auto
qed

lemma isASCII_append [simp]: "isASCII (s @ t) \<longleftrightarrow> isASCII s \<and> isASCII t"
  by (auto simp: isASCII_def)

lemma isASCII_join:
  assumes "list_all isASCII ws" and "isASCII sep"
  shows "isASCII (joinWith sep ws)"
  using assms(1)
proof (induction ws)
  case (Cons w ws)
  then show ?case using assms(2) by (cases ws) auto
qed (simp add: isASCII_def)

lemma HasPrefix_append [simp]: "HasPrefix (p @ s) p"
  by (simp add: HasPrefix_def)

lemma HasPrefix_iff: "HasPrefix s p \<longleftrightarrow> (\<exists>t. s = p @ t)"
  by (auto simp: HasPrefix_def) (metis append_take_drop_id)

lemma HasSuffix_iff: "HasSuffix s p \<longleftrightarrow> (\<exists>t. s = t @ p)"
proof
  assume "HasSuffix s p"
  then have "s = take (length s - length p) s @ p"
    by (metis HasSuffix_def append_take_drop_id)
  then show "\<exists>t. s = t @ p" ..
qed (auto simp: HasSuffix_def)

section \<open>Package strconv\<close>

definition digitChar :: "nat \<Rightarrow> char" where
  "digitChar d = char_of (48 + d)"

definition digitVal :: "char \<Rightarrow> nat" where
  "digitVal c = code_of c - 48"

fun showNat :: "nat \<Rightarrow> string" where
  "showNat n = (if n < 10 then [digitChar n] else showNat (n div 10) @ [digitChar (n mod 10)])"

declare showNat.simps [simp del]

definition FormatInt :: "int \<Rightarrow> string" where
  "FormatInt i = (if i < 0 then CHR ''-'' # showNat (nat (- i)) else showNat (nat i))"

fun digitsVal :: "nat \<Rightarrow> string \<Rightarrow> nat option" where
  "digitsVal acc [] = Some acc"
| "digitsVal acc (c # s) = (if isDigit c then digitsVal (10 * acc + digitVal c) s else None)"

definition parseUint :: "string \<Rightarrow> nat option" where
  "parseUint s = (if s = [] then None else digitsVal 0 s)"

text \<open>
  \<open>strconv.ParseInt(s, 10, 64)\<close>, and \<open>strconv.Atoi\<close> on a 64-bit platform: an
  optional sign, at least one digit, nothing else, and a value of the int64 range.
  \<open>None\<close> is either error, of syntax or of range.
\<close>

definition ParseInt :: "string \<Rightarrow> int option" where
  "ParseInt s =
     (case s of
        [] \<Rightarrow> None
      | c # r \<Rightarrow>
          (if c = CHR ''-'' then
             (case parseUint r of None \<Rightarrow> None
              | Some n \<Rightarrow> if n \<le> 2 ^ 63 then Some (- int n) else None)
           else
             (case parseUint (if c = CHR ''+'' then r else s) of None \<Rightarrow> None
              | Some n \<Rightarrow> if n < 2 ^ 63 then Some (int n) else None)))"

lemma isDigit_digitChar [simp]: "d < 10 \<Longrightarrow> isDigit (digitChar d)"
  by (simp add: isDigit_def digitChar_def)

lemma digitVal_digitChar [simp]: "d < 10 \<Longrightarrow> digitVal (digitChar d) = d"
  by (simp add: digitVal_def digitChar_def)

lemma digitsVal_append:
  "digitsVal acc (s @ t) = (case digitsVal acc s of None \<Rightarrow> None | Some m \<Rightarrow> digitsVal m t)"
  by (induction s arbitrary: acc) auto

lemma digitsVal_showNat: "digitsVal 0 (showNat n) = Some n"
proof (induction n rule: showNat.induct)
  case (1 n)
  show ?case
  proof (cases "n < 10")
    case True
    then show ?thesis by (simp add: showNat.simps [of n])
  next
    case False
    with 1 show ?thesis by (simp add: showNat.simps [of n] digitsVal_append)
  qed
qed

lemma showNat_digits: "\<forall>c \<in> set (showNat n). isDigit c"
proof (induction n rule: showNat.induct)
  case (1 n)
  then show ?case by (cases "n < 10") (auto simp: showNat.simps [of n])
qed

lemma showNat_nonempty [simp]: "showNat n \<noteq> []"
  by (simp add: showNat.simps [of n])

lemma parseUint_showNat [simp]: "parseUint (showNat n) = Some n"
  by (simp add: parseUint_def digitsVal_showNat)

lemma isDigit_not_sign: "isDigit c \<Longrightarrow> c \<noteq> CHR ''-'' \<and> c \<noteq> CHR ''+''"
  by (auto simp: isDigit_def)

lemma ParseInt_showNat:
  assumes "n < 2 ^ 63"
  shows "ParseInt (showNat n) = Some (int n)"
proof -
  obtain c r where s: "showNat n = c # r" by (cases "showNat n") auto
  then have "isDigit c" using showNat_digits [of n] by simp
  then have "c \<noteq> CHR ''-''" "c \<noteq> CHR ''+''" using isDigit_not_sign by auto
  moreover have "parseUint (c # r) = Some n" using parseUint_showNat [of n] s by simp
  ultimately show ?thesis using assms by (simp add: ParseInt_def s)
qed

lemma ParseInt_FormatInt:
  assumes "- (2 ^ 63) \<le> i" and "i < 2 ^ 63"
  shows "ParseInt (FormatInt i) = Some i"
proof (cases "i < 0")
  case True
  with assms show ?thesis
    by (simp add: FormatInt_def ParseInt_def nat_le_iff)
next
  case False
  with assms have "nat i < 2 ^ 63" by (simp add: nat_less_iff)
  with False show ?thesis by (simp add: FormatInt_def ParseInt_showNat)
qed

lemma ParseInt_range: "ParseInt s = Some i \<Longrightarrow> - (2 ^ 63) \<le> i \<and> i < 2 ^ 63"
  by (auto simp: ParseInt_def split: list.splits option.splits if_splits)

section \<open>bufio.Scanner\<close>

text \<open>
  The lines of a text, without the newline; the empty rest after a last newline is no line.
  A scanner with a buffer of \<open>n\<close> bytes stops at the first line that does not fit into it
  together with its newline; its \<open>Err()\<close> is then \<open>ErrTooLong\<close>.
\<close>

definition dropCR :: "string \<Rightarrow> string" where
  "dropCR s = (if s \<noteq> [] \<and> last s = CR then butlast s else s)"

definition scanLines :: "string \<Rightarrow> string list" where
  "scanLines s = (let ls = splitOn LF s in if last ls = [] then butlast ls else ls)"

definition scanTokens :: "nat \<Rightarrow> string \<Rightarrow> string list" where
  "scanTokens n s = map dropCR (takeWhile (\<lambda>raw. length raw < n) (scanLines s))"

definition scanTooLong :: "nat \<Rightarrow> string \<Rightarrow> bool" where
  "scanTooLong n s \<longleftrightarrow> list_ex (\<lambda>raw. n \<le> length raw) (scanLines s)"

lemma scanLines_append: "LF \<notin> set l \<Longrightarrow> scanLines (l @ LF # s) = l # scanLines s"
  by (cases "splitOn LF s") (auto simp: scanLines_def splitOn_append Let_def)

lemma scanLines_last: "LF \<notin> set l \<Longrightarrow> scanLines l = (if l = [] then [] else [l])"
  by (simp add: scanLines_def splitOn_no_sep)

lemma scanLines_lines:
  "list_all (\<lambda>l. LF \<notin> set l) ls \<Longrightarrow> scanLines (concat (map (\<lambda>l. l @ [LF]) ls) @ s) = ls @ scanLines s"
  by (induction ls) (auto simp: scanLines_append)

section \<open>Scaling an int64 by a float64 constant\<close>

text \<open>
  \<open>int64(float64(n) * c)\<close> for a non-negative \<open>n\<close> and a constant \<open>c\<close> whose float64 value
  is \<open>k / 2 ^ 53\<close>: the conversion and the product are each rounded to 53 significant bits,
  ties to even, and the result is truncated.  (No intermediate value is subnormal.)
\<close>

fun bitlen :: "nat \<Rightarrow> nat" where
  "bitlen n = (if n = 0 then 0 else Suc (bitlen (n div 2)))"

declare bitlen.simps [simp del]

definition round53 :: "nat \<Rightarrow> nat" where
  "round53 n =
     (let k = bitlen n - 53; q = n div 2 ^ k; r = n mod 2 ^ k in
      if k = 0 then n
      else if 2 * r < 2 ^ k \<or> (2 * r = 2 ^ k \<and> even q) then q * 2 ^ k
      else (q + 1) * 2 ^ k)"

definition f64scale :: "nat \<Rightarrow> nat \<Rightarrow> nat" where
  "f64scale k n = round53 (round53 n * k) div 2 ^ 53"

text \<open>The float64 values of the constants 0.90 and 0.80, times \<open>2 ^ 53\<close>.\<close>

definition f64_090 :: nat where "f64_090 = 8106479329266893"
definition f64_080 :: nat where "f64_080 = 7205759403792794"

lemmas f64_consts = f64_090_def f64_080_def

lemma bitlen_lower: "0 < n \<Longrightarrow> 2 ^ (bitlen n - 1) \<le> n"
proof (induction n rule: bitlen.induct)
  case (1 n)
  have b: "bitlen n = Suc (bitlen (n div 2))" using 1(2) by (subst bitlen.simps) simp
  show ?case
  proof (cases "n div 2 = 0")
    case True
    then show ?thesis using 1(2) b by (simp add: bitlen.simps [of 0])
  next
    case False
    then have "bitlen (n div 2) = Suc (bitlen (n div 2) - 1)"
      by (subst (1 2) bitlen.simps) simp
    moreover have "2 ^ (bitlen (n div 2) - 1) \<le> n div 2" using 1 False by simp
    ultimately show ?thesis using b
      by (metis Suc_diff_1 diff_Suc_1 div_le_dividend less_eq_div_iff_mult_less_eq mult.commute
          power_Suc zero_less_Suc zero_less_numeral)
  qed
qed

text \<open>Rounding up adds at most half a unit in the last of 53 places.\<close>

lemma round53_le: "round53 n * 2 ^ 53 \<le> n * (2 ^ 53 + 1)"
proof (cases "bitlen n - 53 = 0")
  case True
  then show ?thesis by (simp add: round53_def Let_def)
next
  case False
  define k where "k = bitlen n - 53"
  have k: "0 < k" "bitlen n - 1 = 52 + k" using False by (auto simp: k_def)
  have "n \<noteq> 0"
  proof
    assume "n = 0"
    then have "bitlen n = 0" by (simp add: bitlen.simps)
    with False show False by simp
  qed
  then have "2 ^ (52 + k) \<le> n" using bitlen_lower [of n] unfolding k(2) by simp
  then have n: "2 ^ 52 * 2 ^ k \<le> n" by (simp only: power_add)
  define q r where "q = n div 2 ^ k" and "r = n mod 2 ^ k"
  have qr: "n = q * 2 ^ k + r" by (simp only: q_def r_def div_mult_mod_eq)
  have "2 * round53 n \<le> 2 * n + 2 ^ k"
    using k by (simp add: round53_def Let_def k_def [symmetric] q_def [symmetric] r_def [symmetric])
      (simp add: qr algebra_simps)
  then have "2 * (round53 n * 2 ^ 53) \<le> 2 * n * 2 ^ 53 + 2 ^ k * 2 ^ 53"
    by (simp add: algebra_simps)
  also have "\<dots> \<le> 2 * (n * (2 ^ 53 + 1))" using n by simp
  finally show ?thesis by simp
qed

lemma f64scale_le: "k \<le> f64_090 \<Longrightarrow> f64scale k n \<le> n"
proof -
  assume k: "k \<le> f64_090"
  have "round53 (round53 n * k) * 2 ^ 53 * 2 ^ 53 \<le> round53 n * k * (2 ^ 53 + 1) * 2 ^ 53"
    by (rule mult_right_mono [OF round53_le]) simp
  also have "\<dots> = (round53 n * 2 ^ 53) * (k * (2 ^ 53 + 1))" by (simp add: algebra_simps)
  also have "\<dots> \<le> n * (2 ^ 53 + 1) * (f64_090 * (2 ^ 53 + 1))"
    by (rule mult_le_mono [OF round53_le mult_le_mono1 [OF k]])
  also have "\<dots> \<le> n * (2 ^ 53 * 2 ^ 53 * 2 ^ 53)" by (simp add: f64_090_def)
  finally have "round53 (round53 n * k) \<le> n * 2 ^ 53" by simp
  then show ?thesis unfolding f64scale_def by (simp add: div_le_mono [of _ "n * 2 ^ 53" "2 ^ 53", simplified])
qed

section \<open>Slices and hexadecimal\<close>

text \<open>\<open>s[a:b]\<close>, with the panic of a slice out of range.\<close>

definition goSlice :: "string \<Rightarrow> nat \<Rightarrow> nat \<Rightarrow> string result" where
  "goSlice s a b = (if a \<le> b \<and> b \<le> length s then Ok (take (b - a) (drop a s)) else Panic)"

definition hexDigit :: "nat \<Rightarrow> char" where
  "hexDigit d = (if d < 10 then char_of (48 + d) else char_of (87 + d))"

definition hexBytes :: "string \<Rightarrow> string" where
  "hexBytes s = concat (map (\<lambda>c. [hexDigit (code_of c div 16), hexDigit (code_of c mod 16)]) s)"

section \<open>A concrete environment\<close>

text \<open>
  One choice of the functions of \<^typ>\<open>ext\<close>, used where a statement is evaluated on a
  concrete input.  The digest of a string is the number its first 32 bytes write.
\<close>

definition leadBytes :: "string \<Rightarrow> nat" where
  "leadBytes s = foldl (\<lambda>h c. 256 * h + code_of c) 0 (take 32 s)"

definition ext0 :: ext where
  "ext0 = \<lparr>sha3 = (\<lambda>s. of_nat (leadBytes s)), xxh = (\<lambda>s. of_nat (leadBytes s)),
     sha256 = (\<lambda>s. of_nat (leadBytes s)), uniUpper = (\<lambda>s. s), uniTrim = (\<lambda>s. s),
     uniFields = (\<lambda>s. [s]), fmtFloat6 = (\<lambda>_. []), fmtFloatV = (\<lambda>_. []),
     fmtFloatF = (\<lambda>_. []), parseFloat = (\<lambda>s. case s of CHR ''-'' # r \<Rightarrow> map_option (\<lambda>n. - of_nat n) (parseUint r) | _ \<Rightarrow> map_option of_nat (parseUint s)), nonceAt = (\<lambda>_. 0),
     goQuote = (\<lambda>s. s), fmtDuration = (\<lambda>d. FormatInt d), sortNaN = (\<lambda>xs. xs),
     jsonFloat = (\<lambda>f. Some (showNat (unat f))), jsonTime = FormatInt,
     parseTime = (\<lambda>s. case s of CHR ''-'' # r \<Rightarrow> map_option (\<lambda>n. - int n) (parseUint r) | _ \<Rightarrow> map_option int (parseUint s))\<rparr>"

lemma foldl_be_bytes:
  "foldl (\<lambda>h c. 256 * h + code_of c) h (be_bytes k n) = 256 ^ k * h + n mod 256 ^ k"
proof (induction k arbitrary: n)
  case (Suc k)
  have "n mod (256 * 256 ^ k) = 256 * (n div 256 mod 256 ^ k) + n mod 256"
    by (rule mod_mult2_eq)
  with Suc show ?case by (simp add: algebra_simps)
qed simp

lemma take_be_bytes: "j \<le> k \<Longrightarrow> take j (be_bytes k n) = be_bytes j (n div 256 ^ (k - j))"
proof (induction k arbitrary: n)
  case (Suc k)
  show ?case
  proof (cases "j = Suc k")
    case False
    with Suc have "j \<le> k" by simp
    with Suc.IH show ?thesis by (simp add: Suc_diff_le div_mult2_eq)
  qed simp
qed simp

lemmas eval_digest = ext0_def leadBytes_def foldl_be_bytes take_be_bytes

end
