(* ===== verification/Core.thy ===== *)
theory Core
  imports GoLib
begin

text \<open>
  Package \<open>internal/core\<close>, file \<open>types.go\<close>: values, the expression algebra, atoms, and
  the byte encodings that the hashes are computed from.

  \<open>VNil\<close> is Go's nil interface value of type \<open>Value\<close> (a record field that is not there,
  a proof node that was never reduced).  A \<open>VFloat\<close> holds the bits of the float64, a
  \<open>Vector\<close> the bits of its 256 float32 components.  The header that interning attaches to
  an expression is not part of \<open>expr\<close>; theory \<open>Intern\<close> models it.
\<close>

section \<open>Values\<close>

datatype Value =
    VNil
  | VNull
  | VBool bool
  | VInt int64
  | VFloat "64 word"
  | VString string
  | VBytes string
  | VArray "Value list"
  | VRecord "(string \<times> Value) list"

lemma size_record_elem: "kv \<in> set m \<Longrightarrow> size (snd kv) < size (VRecord m)"
proof (induction m)
  case (Cons a m)
  then show ?case by (cases a) auto
qed simp

fun Type :: "Value \<Rightarrow> string" where
  "Type VNil = []"
| "Type VNull = ''null''"
| "Type (VBool b) = ''bool''"
| "Type (VInt i) = ''int''"
| "Type (VFloat f) = ''float''"
| "Type (VString s) = ''string''"
| "Type (VBytes s) = ''bytes''"
| "Type (VArray vs) = ''array''"
| "Type (VRecord m) = ''record''"

function Serialize :: "ext \<Rightarrow> Value \<Rightarrow> string" where
  "Serialize E VNil = []"
| "Serialize E VNull = [char_of (0::nat)]"
| "Serialize E (VBool b) = (if b then [char_of (1::nat)] else [char_of (2::nat)])"
| "Serialize E (VInt i) = be64 i"
| "Serialize E (VFloat f) = fmtFloat6 E f"
| "Serialize E (VString s) = s"
| "Serialize E (VBytes s) = s"
| "Serialize E (VArray vs) = concat (map (Serialize E) vs)"
| "Serialize E (VRecord m) =
     concat (map (\<lambda>kv. fst kv @ Serialize E (snd kv)) (sort_key fst m))"
  by pat_completeness auto
termination
proof (relation "measure (\<lambda>(E, v). size v)", goal_cases)
  case (2 E vs v)
  then show ?case by (induction vs) auto
next
  case (3 E m kv)
  then show ?case using size_record_elem [of kv m] by simp
qed simp

function FastHash :: "ext \<Rightarrow> Value \<Rightarrow> uint64" where
  "FastHash E VNil = 0"
| "FastHash E VNull = 0"
| "FastHash E (VBool b) = (if b then 1 else 2)"
| "FastHash E (VInt i) = i"
| "FastHash E (VFloat f) = f"
| "FastHash E (VString s) = xxh E s"
| "FastHash E (VBytes s) = xxh E s"
| "FastHash E (VArray vs) = xxh E (concat (map (\<lambda>v. be64 (FastHash E v)) vs))"
| "FastHash E (VRecord m) =
     xxh E (concat (map (\<lambda>kv. fst kv @ be64 (FastHash E (snd kv))) (sort_key fst m)))"
  by pat_completeness auto
termination
proof (relation "measure (\<lambda>(E, v). size v)", goal_cases)
  case (2 E vs v)
  then show ?case by (induction vs) auto
next
  case (3 E m kv)
  then show ?case using size_record_elem [of kv m] by simp
qed simp

text \<open>
  \<open>fmt.Sprint\<close> of a value: what \<open>formatValue\<close> and the echo guard print.  Arrays print
  as \<open>[a b]\<close>, records as \<open>map[k:v k:v]\<close> in key order, \<open>VBytes\<close> as its byte codes, the
  empty struct \<open>VNull\<close> as \<open>{}\<close>.
\<close>

function Sprint :: "ext \<Rightarrow> Value \<Rightarrow> string" where
  "Sprint E VNil = ''<nil>''"
| "Sprint E VNull = ''{}''"
| "Sprint E (VBool b) = (if b then ''true'' else ''false'')"
| "Sprint E (VInt i) = FormatInt (sint i)"
| "Sprint E (VFloat f) = fmtFloatV E f"
| "Sprint E (VString s) = s"
| "Sprint E (VBytes s) = ''['' @ joinWith '' '' (map (\<lambda>c. showNat (code_of c)) s) @ '']''"
| "Sprint E (VArray vs) = ''['' @ joinWith '' '' (map (Sprint E) vs) @ '']''"
| "Sprint E (VRecord m) =
     ''map['' @ joinWith '' '' (map (\<lambda>kv. fst kv @ '':'' @ Sprint E (snd kv)) (sort_key fst m)) @ '']''"
  by pat_completeness auto
termination
proof (relation "measure (\<lambda>(E, v). size v)", goal_cases)
  case (2 E vs v)
  then show ?case by (induction vs) auto
next
  case (3 E m kv)
  then show ?case using size_record_elem [of kv m] by simp
qed simp

section \<open>Expressions\<close>

type_synonym vec = "32 word list"

datatype expr =
    EConst Value
  | EFieldAccess string expr
  | EEmbed "16 word" vec
  | ECompose "hash list"
  | EApply expr expr
  | EResonate "vec list"

fun Level :: "expr \<Rightarrow> nat" where
  "Level (EConst v) = 0"
| "Level (EFieldAccess f e) = 1"
| "Level (EEmbed m v) = 1"
| "Level (ECompose hs) = 2"
| "Level (EApply f a) = 2"
| "Level (EResonate qs) = 3"

fun SerializeExpr :: "ext \<Rightarrow> expr \<Rightarrow> string" where
  "SerializeExpr E (EConst v) = char_of (0::nat) # Serialize E v"
| "SerializeExpr E (EFieldAccess f e) = char_of (1::nat) # f @ SerializeExpr E e"
| "SerializeExpr E (EEmbed m v) = char_of (2::nat) # be16 m @ concat (map be32 v)"
| "SerializeExpr E (ECompose hs) = char_of (3::nat) # concat (map hashBytes hs)"
| "SerializeExpr E (EApply f a) = char_of (4::nat) # SerializeExpr E f @ SerializeExpr E a"
| "SerializeExpr E (EResonate qs) =
     char_of (5::nat) # be32 (of_nat (length qs)) @ concat (map (\<lambda>q. concat (map be32 q)) qs)"

definition ExprHash :: "ext \<Rightarrow> expr \<Rightarrow> hash" where
  "ExprHash E e = sha3 E (SerializeExpr E e)"

definition HashValue :: "ext \<Rightarrow> Value \<Rightarrow> hash" where
  "HashValue E v = sha3 E (Serialize E v)"

definition HashBytes :: "ext \<Rightarrow> string \<Rightarrow> hash" where
  "HashBytes E s = sha3 E s"

text \<open>\<open>Hash.IsZero\<close> and \<open>Hash.FastHash\<close> (the first eight bytes, little-endian).\<close>

definition IsZero :: "hash \<Rightarrow> bool" where
  "IsZero h \<longleftrightarrow> h = 0"

fun leVal :: "string \<Rightarrow> nat" where
  "leVal [] = 0"
| "leVal (c # s) = code_of c + 256 * leVal s"

definition HashFast :: "hash \<Rightarrow> uint64" where
  "HashFast h = of_nat (leVal (take 8 (hashBytes h)))"

section \<open>Domains, modes and atoms\<close>

datatype domain = DomainUser | DomainOrder | DomainProduct | DomainSession | DomainConfig
  | DomainAnalytics | DomainSystem

datatype mode = ModeDeductive | ModeInductive | ModeAbductive | ModeIntuitive

fun Strictness :: "mode \<Rightarrow> nat" where
  "Strictness ModeDeductive = 0"
| "Strictness ModeInductive = 1"
| "Strictness ModeAbductive = 2"
| "Strictness ModeIntuitive = 3"

text \<open>The struct \<open>CausalAtom\<close>; its field \<open>Vector\<close> is never written or read and is left out.\<close>

record catom =
  aHash :: hash
  aExpr :: expr
  aCausalPast :: "hash list"
  aCausalDepth :: uint64
  aDomain :: domain
  aLogicalClock :: uint64
  aPhysicalTime :: gotime
  aNonce :: "128 word"
  aBranchID :: "128 word"
  aPath :: string
  aExpiresAt :: gotime

definition UnixNano :: "gotime \<Rightarrow> int64" where
  "UnixNano t = of_int t"

text \<open>The bytes that \<open>ComputeHash\<close> feeds to SHA3-256.\<close>

definition atomPreimage :: "ext \<Rightarrow> catom \<Rightarrow> string" where
  "atomPreimage E a =
     SerializeExpr E (aExpr a)
     @ be64 (aLogicalClock a)
     @ be64 (UnixNano (aPhysicalTime a))
     @ be64 (UnixNano (aExpiresAt a))
     @ be_bytes 16 (unat (aNonce a))
     @ be_bytes 16 (unat (aBranchID a))
     @ be32 (of_nat (length (aCausalPast a)))
     @ concat (map hashBytes (aCausalPast a))"

definition ComputeHash :: "ext \<Rightarrow> catom \<Rightarrow> hash" where
  "ComputeHash E a = sha3 E (atomPreimage E a)"

section \<open>Facts\<close>

lemma ECompose_Serialize_inj:
  "SerializeExpr E (ECompose hs) = SerializeExpr E (ECompose hs') \<longleftrightarrow> hs = hs'"
  using concat_map_fixed_inj [where f = hashBytes and w = 32] by auto

text \<open>
  For atoms with equally many parents the encoding is unambiguous: the expression bytes,
  the clock and the deadline can be read back.  (The caches store atoms without parents.)
\<close>

lemma atomPreimage_inj:
  assumes eq: "atomPreimage E a = atomPreimage E b"
    and len: "length (aCausalPast a) = length (aCausalPast b)"
  shows "SerializeExpr E (aExpr a) = SerializeExpr E (aExpr b)"
    and "aLogicalClock a = aLogicalClock b"
    and "UnixNano (aExpiresAt a) = UnixNano (aExpiresAt b)"
proof -
  let ?t = "\<lambda>a. be64 (UnixNano (aPhysicalTime a)) @ be64 (UnixNano (aExpiresAt a))
     @ be_bytes 16 (unat (aNonce a)) @ be_bytes 16 (unat (aBranchID a))
     @ be32 (of_nat (length (aCausalPast a))) @ concat (map hashBytes (aCausalPast a))"
  have past: "length (concat (map hashBytes hs)) = 32 * length hs" for hs :: "hash list"
    by (induction hs) auto
  have l: "length (be64 (aLogicalClock a) @ ?t a) = length (be64 (aLogicalClock b) @ ?t b)"
    using len by (simp add: past be32_def)
  from eq have eq': "SerializeExpr E (aExpr a) @ be64 (aLogicalClock a) @ ?t a
      = SerializeExpr E (aExpr b) @ be64 (aLogicalClock b) @ ?t b"
    by (simp add: atomPreimage_def)
  from append_eq_append_conv [THEN iffD1, OF disjI2, OF l eq']
  have e: "SerializeExpr E (aExpr a) = SerializeExpr E (aExpr b)"
    and r: "be64 (aLogicalClock a) @ ?t a = be64 (aLogicalClock b) @ ?t b"
    by blast+
  show "SerializeExpr E (aExpr a) = SerializeExpr E (aExpr b)" by (rule e)
  from r show "aLogicalClock a = aLogicalClock b" by auto
  from r show "UnixNano (aExpiresAt a) = UnixNano (aExpiresAt b)" by auto
qed

end
