(* ===== verification/Combinators.thy ===== *)
theory Combinators
  imports Core
begin

text \<open>
  The evaluation of field access and application in \<open>engine/incremental.go\<close>, and the
  binary Merkle root of \<open>engine/version_vector.go\<close>.

  \<open>applyCombinator\<close> is a fixed point in the option type: \<^const>\<open>None\<close> is a call that never
  returns.  The code has no error case here.
\<close>

definition extractField :: "string \<Rightarrow> Value \<Rightarrow> Value" where
  "extractField field v =
     (case v of
        VRecord rec \<Rightarrow> (case map_of rec field of Some val \<Rightarrow> val | None \<Rightarrow> VNull)
      | _ \<Rightarrow> VNull)"

text \<open>Reading a key of a Go map of values: the zero value is nil.\<close>

definition fieldOr :: "(string \<times> Value) list \<Rightarrow> string \<Rightarrow> Value" where
  "fieldOr m k = (case map_of m k of Some v \<Rightarrow> v | None \<Rightarrow> VNil)"

definition pairRec :: "Value \<Rightarrow> Value \<Rightarrow> Value" where
  "pairRec f a = VRecord [(''fn'', f), (''arg'', a)]"

definition kPartial :: "Value \<Rightarrow> Value" where
  "kPartial a = VRecord [(''fn'', VString ''K_partial''), (''arg1'', a)]"

definition sPartial1 :: "Value \<Rightarrow> Value" where
  "sPartial1 a = VRecord [(''fn'', VString ''S_partial1''), (''arg1'', a)]"

definition sPartial2 :: "Value \<Rightarrow> Value \<Rightarrow> Value" where
  "sPartial2 a b = VRecord [(''fn'', VString ''S_partial2''), (''arg1'', a), (''arg2'', b)]"

partial_function (option) applyCombinator :: "Value \<Rightarrow> Value \<Rightarrow> Value option" where
  "applyCombinator f a =
     (case f of
        VString s \<Rightarrow>
          if s = ''I'' then Some a
          else if s = ''K'' then Some (kPartial a)
          else if s = ''S'' then Some (sPartial1 a)
          else Some (pairRec f a)
      | VRecord v \<Rightarrow>
          (case fieldOr v ''fn'' of
             VString fn \<Rightarrow>
               if fn = ''K_partial'' then Some (fieldOr v ''arg1'')
               else if fn = ''S_partial1'' then Some (sPartial2 (fieldOr v ''arg1'') a)
               else if fn = ''S_partial2'' then
                 Option.bind (applyCombinator (fieldOr v ''arg1'') a) (\<lambda>ac.
                 Option.bind (applyCombinator (fieldOr v ''arg2'') a) (\<lambda>bc.
                 applyCombinator ac bc))
               else Some (pairRec f a)
           | _ \<Rightarrow> Some (pairRec f a))
      | _ \<Rightarrow> Some (pairRec f a))"

section \<open>The combinator laws\<close>

lemma apply_I: "applyCombinator (VString ''I'') x = Some x"
  by (subst applyCombinator.simps) simp

lemma apply_K: "applyCombinator (VString ''K'') x = Some (kPartial x)"
  by (subst applyCombinator.simps) simp

lemma apply_S: "applyCombinator (VString ''S'') x = Some (sPartial1 x)"
  by (subst applyCombinator.simps) simp

lemma apply_kPartial: "applyCombinator (kPartial x) y = Some x"
  by (subst applyCombinator.simps) (simp add: kPartial_def fieldOr_def)

lemma apply_sPartial1: "applyCombinator (sPartial1 x) y = Some (sPartial2 x y)"
  by (subst applyCombinator.simps) (simp add: sPartial1_def fieldOr_def)

lemma apply_sPartial2:
  "applyCombinator (sPartial2 x y) z =
     Option.bind (applyCombinator x z) (\<lambda>xz. Option.bind (applyCombinator y z) (applyCombinator xz))"
  by (subst applyCombinator.simps) (simp add: sPartial2_def fieldOr_def)

lemmas apply_laws = apply_I apply_K apply_S apply_kPartial apply_sPartial1 apply_sPartial2

text \<open>Applying a value to a list of arguments, from the left.\<close>

definition applyAll :: "Value \<Rightarrow> Value list \<Rightarrow> Value option" where
  "applyAll f as = foldl (\<lambda>r a. Option.bind r (\<lambda>g. applyCombinator g a)) (Some f) as"

text \<open>
  The SKI laws.  The strings \<open>I\<close>, \<open>K\<close> and \<open>S\<close>, applied one argument at a time through
  the partial-application records, satisfy \<open>I x = x\<close>, \<open>K x y = x\<close>,
  \<open>S x y z = (x z) (y z)\<close> (one side returns exactly when the other does), and therefore
  \<open>S K K x = x\<close>.
\<close>

theorem ski_laws:
  "applyAll (VString ''I'') [x] = Some x \<and>
   applyAll (VString ''K'') [x, y] = Some x \<and>
   applyAll (VString ''S'') [x, y, z] =
     Option.bind (applyCombinator x z) (\<lambda>xz. Option.bind (applyCombinator y z) (applyCombinator xz)) \<and>
   applyAll (VString ''S'') [VString ''K'', VString ''K'', x] = Some x"
  by (simp add: applyAll_def apply_laws)

definition selfApp :: Value where
  "selfApp = sPartial2 (VString ''I'') (VString ''I'')"

lemma sPartial2_cases:
  "fieldOr [(''fn'', VString ''S_partial2''), (''arg1'', a), (''arg2'', b)] ''fn'' = VString ''S_partial2''"
  "fieldOr [(''fn'', VString ''S_partial2''), (''arg1'', a), (''arg2'', b)] ''arg1'' = a"
  "fieldOr [(''fn'', VString ''S_partial2''), (''arg1'', a), (''arg2'', b)] ''arg2'' = b"
  by (simp_all add: fieldOr_def)

text \<open>
  C35: reduction need not terminate.  \<open>S I I\<close> applied to itself never returns, so an
  application node can hang the read that reduces it: the code has no step limit.
\<close>

theorem omega_diverges: "applyAll (VString ''S'') [VString ''I'', VString ''I'', selfApp] = None"
proof -
  let ?P = "\<lambda>f a r. (f = VString ''I'' \<longrightarrow> r = a) \<and> \<not> (f = selfApp \<and> a = selfApp)"
  have "?P f a r" if "applyCombinator f a = Some r" for f a r
  proof (rule applyCombinator.raw_induct [where P = ?P, OF _ that], goal_cases)
    case (1 app f a r)
    have I: "f = VString ''I'' \<Longrightarrow> r = a" using 1(2) by auto
    have "\<not> (f = selfApp \<and> a = selfApp)"
    proof
      assume fa: "f = selfApp \<and> a = selfApp"
      with 1(2) obtain x y where x: "app (VString ''I'') selfApp = Some x"
        and y: "app (VString ''I'') selfApp = Some y" and xy: "app x y = Some r"
        by (auto simp: selfApp_def sPartial2_def sPartial2_cases bind_eq_Some_conv)
      from 1(1) [OF x] 1(1) [OF y] have "x = selfApp" "y = selfApp" by simp_all
      with 1(1) [OF xy] show False by simp
    qed
    with I show ?case by simp
  qed
  then have "applyCombinator selfApp selfApp = None" by (metis option.exhaust)
  then show ?thesis by (simp add: applyAll_def apply_S apply_sPartial1 selfApp_def [symmetric])
qed

section \<open>The binary Merkle root\<close>

fun pairUp :: "ext \<Rightarrow> hash list \<Rightarrow> hash list" where
  "pairUp E (a # b # hs) = HashBytes E (hashBytes a @ hashBytes b) # pairUp E hs"
| "pairUp E hs = hs"

lemma length_pairUp: "length (pairUp E hs) = (length hs + 1) div 2"
  by (induction E hs rule: pairUp.induct) auto

function computeMerkle :: "ext \<Rightarrow> hash list \<Rightarrow> hash" where
  "computeMerkle E [] = 0"
| "computeMerkle E [h] = h"
| "computeMerkle E (a # b # hs) = computeMerkle E (pairUp E (a # b # hs))"
  by pat_completeness auto
termination
  by (relation "measure (\<lambda>(E, hs). length hs)") (auto simp: length_pairUp)

end
