(* ===== verification/Store.thy ===== *)
theory Store
  imports Core
begin

text \<open>
  The Go interface \<open>Store\<close> of \<open>storage/adapter.go\<close>.  A value of interface type is a
  dictionary of operations over a state type \<open>'s\<close>; code that calls through the interface
  (the engine, the server, the write-through store) takes such a dictionary as an argument.

  What callers may rely on is stated in two locales over the \<^emph>\<open>frontier\<close> of a store: the
  function from paths to the current, unexpired atom.  \<open>store_reads\<close> are the read laws,
  \<open>store_appends\<close> adds what a write promises.  The stores of the code are interpretations.
\<close>

record 's store =
  sAppendAtom :: "gotime \<Rightarrow> expr \<Rightarrow> string \<Rightarrow> hash list \<Rightarrow> gotime \<Rightarrow> 's \<Rightarrow> hash result \<times> 's"
  sGetCurrent :: "gotime \<Rightarrow> string \<Rightarrow> 's \<Rightarrow> catom option \<times> 's"
  sGetParents :: "hash \<Rightarrow> 's \<Rightarrow> hash list option"
  sGetAtom :: "gotime \<Rightarrow> hash \<Rightarrow> 's \<Rightarrow> catom option"
  sFrontierPaths :: "gotime \<Rightarrow> 's \<Rightarrow> string list"
  sClose :: "'s \<Rightarrow> unit result \<times> 's"
  sGetCurrentHash :: "gotime \<Rightarrow> string \<Rightarrow> 's \<Rightarrow> hash option"
  sFindChangedPaths :: "gotime \<Rightarrow> (string, hash) gomap \<Rightarrow> 's \<Rightarrow> string list"
  sVerifyVersionVector :: "gotime \<Rightarrow> (string, hash) gomap \<Rightarrow> 's \<Rightarrow> bool"

text \<open>
  Two expressions that a store may not tell apart: equal ones, and constants with the same
  serialised bytes (\<open>sameAtomContent\<close> of the sharded cache keeps the old one of the two).
\<close>

definition sameContent :: "ext \<Rightarrow> expr \<Rightarrow> expr \<Rightarrow> bool" where
  "sameContent E e e' \<longleftrightarrow> e = e' \<or>
     (\<exists>v v'. e = EConst v \<and> e' = EConst v' \<and> Serialize E v = Serialize E v')"

lemma sameContent_refl [simp]: "sameContent E e e"
  by (simp add: sameContent_def)

text \<open>The version vector that records what \<open>cur\<close> answers for the paths of a list.\<close>

definition matches :: "(string \<Rightarrow> catom option) \<Rightarrow> (string, hash) gomap \<Rightarrow> bool" where
  "matches cur vv \<longleftrightarrow> list_all (\<lambda>(p, h). map_option aHash (cur p) = Some h) vv"

locale store_reads =
  fixes st :: "'s store"
    and inv :: "'s \<Rightarrow> bool"
    and cur :: "gotime \<Rightarrow> 's \<Rightarrow> string \<Rightarrow> catom option"
  assumes GetCurrent_cur: "inv s \<Longrightarrow> fst (sGetCurrent st now p s) = cur now s p"
    and GetCurrent_inv: "inv s \<Longrightarrow> inv (snd (sGetCurrent st now p s))"
    and GetCurrent_view: "inv s \<Longrightarrow> cur t (snd (sGetCurrent st now p s)) q = cur t s q"
    and GetCurrentHash_cur: "inv s \<Longrightarrow> sGetCurrentHash st now p s = map_option aHash (cur now s p)"
    and Verify_cur: "inv s \<Longrightarrow> sVerifyVersionVector st now vv s \<longleftrightarrow> matches (cur now s) vv"
    and FindChanged_cur: "inv s \<Longrightarrow> sFindChangedPaths st now vv s =
      map fst (filter (\<lambda>(p, h). map_option aHash (cur now s p) \<noteq> Some h) vv)"
    and GetAtom_hash: "inv s \<Longrightarrow> sGetAtom st now h s = Some a \<Longrightarrow> aHash a = h"
    and GetAtom_view: "inv s \<Longrightarrow> sGetAtom st t h (snd (sGetCurrent st now p s)) = sGetAtom st t h s"
    and cur_path: "inv s \<Longrightarrow> cur now s p = Some a \<Longrightarrow> aPath a = p"
begin

lemma Verify_iff_no_change:
  "inv s \<Longrightarrow> sVerifyVersionVector st now vv s \<longleftrightarrow> sFindChangedPaths st now vv s = []"
  by (auto simp: Verify_cur FindChanged_cur matches_def list_all_iff filter_empty_conv
      split: prod.splits)

lemma FindChanged_iff:
  "inv s \<Longrightarrow> gomap_ok vv \<Longrightarrow> p \<in> set (sFindChangedPaths st now vv s) \<longleftrightarrow>
     (\<exists>h. map_of vv p = Some h \<and> sGetCurrentHash st now p s \<noteq> Some h)"
  by (force simp: FindChanged_cur GetCurrentHash_cur gomap_in_set [symmetric])

lemma Verify_after_GetCurrent:
  "inv s \<Longrightarrow> sVerifyVersionVector st t vv (snd (sGetCurrent st now p s)) =
     sVerifyVersionVector st t vv s"
  by (simp add: Verify_cur GetCurrent_inv GetCurrent_view matches_def)

lemma GetCurrent_twice:
  "inv s \<Longrightarrow> fst (sGetCurrent st t q (snd (sGetCurrent st now p s))) = cur t s q"
  by (simp add: GetCurrent_cur GetCurrent_inv GetCurrent_view)

end

text \<open>
  A write: it answers with a hash, keeps the invariant, changes no other path except by
  forgetting it (eviction), and leaves at its own path nothing or an atom with the answered
  hash, the content written and the deadline written.  \<open>room s\<close> says that the 64-bit
  logical clock can still be advanced.
\<close>

locale store_appends = store_reads st inv cur
  for st :: "'s store" and inv :: "'s \<Rightarrow> bool"
    and cur :: "gotime \<Rightarrow> 's \<Rightarrow> string \<Rightarrow> catom option" +
  fixes E :: ext and room :: "'s \<Rightarrow> bool"
  assumes Append_Ok: "inv s \<Longrightarrow> room s \<Longrightarrow>
      \<exists>h s'. sAppendAtom st now e p ps x s = (Ok h, s')"
    and Append_inv: "inv s \<Longrightarrow> room s \<Longrightarrow> sAppendAtom st now e p ps x s = (Ok h, s') \<Longrightarrow> inv s'"
    and Append_other: "inv s \<Longrightarrow> room s \<Longrightarrow> sAppendAtom st now e p ps x s = (Ok h, s') \<Longrightarrow>
      q \<noteq> p \<Longrightarrow> cur t s' q \<in> {None, cur t s q}"
    and Append_own: "inv s \<Longrightarrow> room s \<Longrightarrow> sAppendAtom st now e p ps x s = (Ok h, s') \<Longrightarrow>
      cur t s' p = Some a \<Longrightarrow>
      aHash a = h \<and> sameContent E (aExpr a) e \<and> UnixNano (aExpiresAt a) = UnixNano x"
begin

text \<open>Reading back a path after writing it: nothing, or what was written.\<close>

lemma read_your_write:
  assumes "inv s" "room s" "sAppendAtom st now e p ps x s = (Ok h, s')"
  shows "fst (sGetCurrent st t p s') = None \<or>
    (\<exists>a. fst (sGetCurrent st t p s') = Some a \<and> aHash a = h \<and> sameContent E (aExpr a) e)"
proof (cases "cur t s' p")
  case None
  with assms show ?thesis by (simp add: GetCurrent_cur [OF Append_inv])
next
  case (Some a)
  with assms Append_own [OF assms Some] show ?thesis by (simp add: GetCurrent_cur [OF Append_inv])
qed

text \<open>
  A version vector that mentions the written path with another hash is refused afterwards:
  a proof computed from the old atom is never served from then on.
\<close>

lemma write_invalidates:
  assumes "inv s" "room s" "sAppendAtom st now e p ps x s = (Ok h, s')"
    and "(p, g) \<in> set vv" and "g \<noteq> h"
  shows "\<not> sVerifyVersionVector st t vv s'"
proof
  assume "sVerifyVersionVector st t vv s'"
  with assms(4) Append_inv [OF assms(1-3)] have "map_option aHash (cur t s' p) = Some g"
    by (auto simp: Verify_cur matches_def list_all_iff)
  then obtain a where "cur t s' p = Some a" "aHash a = g" by blast
  with Append_own [OF assms(1-3)] assms(5) show False by blast
qed

end

end
