(* ===== verification/ProofTree.thy ===== *)
theory ProofTree
  imports Combinators Store
begin

text \<open>
  \<open>engine/proof.go\<close>: the proof tree and its marks.

  \<open>ProofNode\<close> is a tree: \<open>buildProofNode\<close> allocates a new node at every call.  The parent
  pointer is the position of a node: the list of child indexes that leads to it from the
  root.  \<open>PathToNode\<close> maps a path to such a position.  \<^const>\<open>VNil\<close> in \<open>pnCached\<close> is the
  nil that says that there is no cached value.
\<close>

datatype pnode = PNode
  (pnExpr: expr) (pnChildren: "pnode list") (pnCached: Value) (pnDirty: bool)
  (pnMerkleRoot: hash) (pnMerkleValid: bool) (pnSourceHash: hash) (pnSourcePath: string)

type_synonym position = "nat list"

fun nodeAt :: "position \<Rightarrow> pnode \<Rightarrow> pnode option" where
  "nodeAt [] n = Some n"
| "nodeAt (i # is) n = (if i < length (pnChildren n) then nodeAt is (pnChildren n ! i) else None)"

fun modifyAt :: "position \<Rightarrow> (pnode \<Rightarrow> pnode) \<Rightarrow> pnode \<Rightarrow> pnode" where
  "modifyAt [] f n = f n"
| "modifyAt (i # is) f (PNode e cs v d m mv h p) =
     PNode e (if i < length cs then cs[i := modifyAt is f (cs ! i)] else cs) v d m mv h p"

definition setDirty :: "pnode \<Rightarrow> pnode" where
  "setDirty n = PNode (pnExpr n) (pnChildren n) (pnCached n) True (pnMerkleRoot n) False
     (pnSourceHash n) (pnSourcePath n)"

text \<open>\<open>PropagateDirtyUp\<close>; the argument is the reversed position, so its tail is the parent.\<close>

fun propagateUp :: "position \<Rightarrow> pnode \<Rightarrow> pnode" where
  "propagateUp [] root = (if pnDirty root then root else setDirty root)"
| "propagateUp (i # rp) root =
     (case nodeAt (rev (i # rp)) root of
        None \<Rightarrow> root
      | Some n \<Rightarrow>
          if pnDirty n then root
          else propagateUp rp (modifyAt (rev (i # rp)) setDirty root))"

definition PropagateDirtyUp :: "position \<Rightarrow> pnode \<Rightarrow> pnode" where
  "PropagateDirtyUp pos root = propagateUp (rev pos) root"

fun MarkDirty :: "(string \<Rightarrow> bool) \<Rightarrow> pnode \<Rightarrow> pnode" where
  "MarkDirty changedPaths (PNode e cs v d m mv h p) =
     (if p \<noteq> [] \<and> changedPaths p then PNode e cs v True m mv h p
      else
        let cs' = map (MarkDirty changedPaths) cs
        in PNode e cs' v (d \<or> list_ex pnDirty cs') m mv h p)"

fun ResetDirty :: "pnode \<Rightarrow> pnode" where
  "ResetDirty (PNode e cs v d m mv h p) = PNode e (map ResetDirty cs) v False m False h p"

text \<open>
  \<open>ComputeMerkleRoot\<close>.  A node without a source hash overwrites the first eight bytes of
  its root only.  The children of a node with a source hash are not visited.
\<close>

definition putFirst8 :: "uint64 \<Rightarrow> hash \<Rightarrow> hash" where
  "putFirst8 c h = push_bit 192 (ucast c) + take_bit 192 h"

fun ComputeMerkleRoot :: "ext \<Rightarrow> pnode \<Rightarrow> hash \<times> pnode" where
  "ComputeMerkleRoot E (PNode e cs v d m mv h p) =
     (if mv then (m, PNode e cs v d m mv h p)
      else if IsZero h then
        let rs = map (ComputeMerkleRoot E) cs;
            c = xxh E (SerializeExpr E e @ concat (map (\<lambda>r. take 8 (hashBytes (fst r))) rs));
            m' = putFirst8 c m
        in (m', PNode e (map snd rs) v d m' True h p)
      else (h, PNode e cs v d h True h p))"

text \<open>\<open>ComputeProofMerkleRoot\<close>, which nothing calls.\<close>

definition ComputeProofMerkleRoot ::
    "ext \<Rightarrow> (string, hash) gomap \<Rightarrow> (string \<Rightarrow> hash option) \<Rightarrow> hash" where
  "ComputeProofMerkleRoot E entries getCurrentHash =
     (if entries = [] then 0
      else
        let paths = sortStrings (map fst entries);
            one = (\<lambda>p. let h = (case map_of entries p of Some h \<Rightarrow> h | None \<Rightarrow> 0)
                        in if IsZero h then (case getCurrentHash p of Some cur \<Rightarrow> cur | None \<Rightarrow> h) else h)
        in putFirst8 (xxh E (concat (map (hashBytes \<circ> one) paths))) 0)"

definition PathList :: "(string, hash) gomap \<Rightarrow> string list" where
  "PathList entries = map fst entries"

section \<open>Nodes of a tree\<close>

text \<open>A property of every node of a tree (of the subtree at it).\<close>

fun allNodes :: "(pnode \<Rightarrow> bool) \<Rightarrow> pnode \<Rightarrow> bool" where
  "allNodes P (PNode e cs v d m mv h p) \<longleftrightarrow>
     P (PNode e cs v d m mv h p) \<and> list_all (allNodes P) cs"

fun treePaths :: "pnode \<Rightarrow> string list" where
  "treePaths (PNode e cs v d m mv h p) = p # concat (map treePaths cs)"

lemma pnode_induct [case_names Node]:
  assumes "\<And>e cs v d m mv h p. (\<And>c. c \<in> set cs \<Longrightarrow> P c) \<Longrightarrow> P (PNode e cs v d m mv h p)"
  shows "P t"
  using assms by (induction t) auto

lemma allNodes_nodeAt: "allNodes P t \<Longrightarrow> nodeAt q t = Some n \<Longrightarrow> allNodes P n"
proof (induction q t rule: nodeAt.induct)
  case (2 i "is" t)
  then show ?case by (cases t) (auto simp: list_all_length split: if_splits)
qed auto

lemma allNodes_self: "allNodes P n \<Longrightarrow> P n"
  by (cases n) auto

lemma allNodes_iff: "allNodes P t \<longleftrightarrow> (\<forall>q n. nodeAt q t = Some n \<longrightarrow> P n)"
proof
  assume "allNodes P t"
  then show "\<forall>q n. nodeAt q t = Some n \<longrightarrow> P n"
    using allNodes_nodeAt allNodes_self by blast
next
  show "\<forall>q n. nodeAt q t = Some n \<longrightarrow> P n \<Longrightarrow> allNodes P t"
  proof (induction t rule: pnode_induct)
    case (Node e cs v d m mv h p)
    have "P (PNode e cs v d m mv h p)" using Node(2) [rule_format, of "[]"] by simp
    moreover have "allNodes P c" if "c \<in> set cs" for c
    proof (rule Node(1) [OF that], intro allI impI)
      fix q n assume "nodeAt q c = Some n"
      moreover from that obtain i where "i < length cs" "cs ! i = c" by (auto simp: in_set_conv_nth)
      ultimately show "P n" using Node(2) [rule_format, of "i # q"] by simp
    qed
    ultimately show ?case by (auto simp: list_all_iff)
  qed
qed

lemma allNodes_mono: "allNodes P t \<Longrightarrow> (\<And>n. P n \<Longrightarrow> Q n) \<Longrightarrow> allNodes Q t"
  by (auto simp: allNodes_iff)

lemma treePaths_set: "p \<in> set (treePaths t) \<longleftrightarrow> (\<exists>q n. nodeAt q t = Some n \<and> pnSourcePath n = p)"
proof (induction t rule: pnode_induct)
  case (Node e cs v d m mv h r)
  show ?case
  proof
    assume "p \<in> set (treePaths (PNode e cs v d m mv h r))"
    then consider "p = r" | c where "c \<in> set cs" "p \<in> set (treePaths c)" by auto
    then show "\<exists>q n. nodeAt q (PNode e cs v d m mv h r) = Some n \<and> pnSourcePath n = p"
    proof cases
      case 1
      then show ?thesis by (intro exI [of _ "[]"]) auto
    next
      case 2
      then obtain i q n where "i < length cs" "cs ! i = c" "nodeAt q c = Some n" "pnSourcePath n = p"
        using Node by (metis in_set_conv_nth)
      then show ?thesis by (intro exI [of _ "i # q"]) auto
    qed
  next
    assume "\<exists>q n. nodeAt q (PNode e cs v d m mv h r) = Some n \<and> pnSourcePath n = p"
    then obtain q n where q: "nodeAt q (PNode e cs v d m mv h r) = Some n" "pnSourcePath n = p" by blast
    show "p \<in> set (treePaths (PNode e cs v d m mv h r))"
    proof (cases q)
      case Nil
      with q show ?thesis by auto
    next
      case (Cons i q')
      with q have "i < length cs" "nodeAt q' (cs ! i) = Some n" by (auto split: if_splits)
      with q Node [of "cs ! i"] show ?thesis by auto
    qed
  qed
qed


section \<open>Upward propagation\<close>

text \<open>
  The marks of a tree are consistent when a dirty child has a dirty parent and no dirty
  node has a valid Merkle root.  \<open>ResetDirty\<close> establishes this.  On such trees the early
  exit of \<open>PropagateDirtyUp\<close> is harmless: it marks the whole way to the root.
\<close>

definition marksOk :: "pnode \<Rightarrow> bool" where
  "marksOk = allNodes (\<lambda>n. (list_ex pnDirty (pnChildren n) \<longrightarrow> pnDirty n) \<and>
     (pnDirty n \<longrightarrow> \<not> pnMerkleValid n))"

fun markPath :: "position \<Rightarrow> pnode \<Rightarrow> pnode" where
  "markPath [] (PNode e cs v d m mv h p) = PNode e cs v True m False h p"
| "markPath (i # is) (PNode e cs v d m mv h p) =
     PNode e (if i < length cs then cs[i := markPath is (cs ! i)] else cs) v True m False h p"

lemma marksOk_Node:
  "marksOk (PNode e cs v d m mv h p) \<longleftrightarrow>
     (list_ex pnDirty cs \<longrightarrow> d) \<and> (d \<longrightarrow> \<not> mv) \<and> list_all marksOk cs"
  by (auto simp: marksOk_def)

lemma pnDirty_markPath [simp]: "pnDirty (markPath q t)"
  by (cases "(q, t)" rule: markPath.cases) auto

lemma marksOk_markPath: "marksOk t \<Longrightarrow> marksOk (markPath q t)"
proof (induction q t rule: markPath.induct)
  case (1 e cs v d m mv h p)
  then show ?case by (simp add: marksOk_Node)
next
  case (2 i "is" e cs v d m mv h p)
  then show ?case
    by (auto simp: marksOk_Node list_all_iff dest!: set_update_subset_insert [THEN subsetD])
qed

lemma dirty_up:
  "marksOk t \<Longrightarrow> nodeAt q t = Some n \<Longrightarrow> pnDirty n \<Longrightarrow> markPath q t = t"
proof (induction q t rule: markPath.induct)
  case (2 i "is" e cs v d m mv h p)
  then have i: "i < length cs" and n: "nodeAt is (cs ! i) = Some n" by (auto split: if_splits)
  have ok: "marksOk (cs ! i)" using 2(2) i by (auto simp: marksOk_Node list_all_length)
  have "markPath is (cs ! i) = cs ! i" using 2(1) [OF i ok n 2(4)] .
  moreover from this have "pnDirty (cs ! i)" by (metis pnDirty_markPath)
  then have "d" using 2(2) i by (auto simp: marksOk_Node list_ex_length)
  ultimately show ?case using 2(2) i by (simp add: marksOk_Node)
qed (auto simp: marksOk_Node)

lemma setDirty_Node [simp]: "setDirty (PNode e cs v d m mv h p) = PNode e cs v True m False h p"
  by (simp add: setDirty_def)

lemma nodeAt_append: "nodeAt (q @ r) t = Option.bind (nodeAt q t) (nodeAt r)"
  by (induction q t rule: nodeAt.induct) auto

lemma markPath_setDirty:
  "nodeAt (q @ [i]) t = Some n \<Longrightarrow> markPath q (modifyAt (q @ [i]) setDirty t) = markPath (q @ [i]) t"
proof (induction q arbitrary: t)
  case Nil
  then show ?case by (cases t; cases "pnChildren t ! i") (auto split: if_splits)
next
  case (Cons j q)
  then show ?case by (cases t) (auto split: if_splits)
qed

lemma modifyAt_below:
  "nodeAt q (modifyAt (q @ i # r) f t) = map_option (modifyAt (i # r) f) (nodeAt q t)"
proof (induction q arbitrary: t)
  case (Cons j q)
  then show ?case by (cases t) (auto split: if_splits)
qed simp

lemma pnDirty_modifyAt [simp]: "pnDirty (modifyAt (i # r) f n) = pnDirty n"
  by (cases n) simp

lemma markPath_modifyAt:
  "nodeAt (q @ i # r) t \<noteq> None \<Longrightarrow>
     markPath q (modifyAt (q @ i # r) f t) = modifyAt (q @ i # r) f (markPath q t)"
proof (induction q arbitrary: t)
  case Nil
  then show ?case by (cases t) auto
next
  case (Cons j q)
  then show ?case by (cases t) (auto split: if_splits)
qed

text \<open>The loop, on a tree where every dirty node on the way up is marked up to the root.\<close>

lemma propagateUp_mark:
  assumes "\<And>q n. prefix q (rev rp) \<Longrightarrow> nodeAt q t = Some n \<Longrightarrow> pnDirty n \<Longrightarrow> markPath q t = t"
    and "nodeAt (rev rp) t = Some n"
  shows "propagateUp rp t = markPath (rev rp) t"
  using assms
proof (induction rp arbitrary: t n)
  case Nil
  then show ?case by (cases t) auto
next
  case (Cons i rp)
  show ?case
  proof (cases "pnDirty n")
    case True
    with Cons.prems show ?thesis by simp
  next
    case False
    let ?t = "modifyAt (rev rp @ [i]) setDirty t"
    obtain m where m: "nodeAt (rev rp) t = Some m"
      using Cons.prems(2) by (auto simp: nodeAt_append bind_eq_Some_conv)
    have "propagateUp rp ?t = markPath (rev rp) ?t"
    proof (rule Cons.IH)
      show "nodeAt (rev rp) ?t = Some (modifyAt [i] setDirty m)"
        using modifyAt_below [of "rev rp" i "[]" setDirty t] m by simp
      fix q k assume q: "prefix q (rev rp)" and k: "nodeAt q ?t = Some k" "pnDirty k"
      obtain j r where pos: "rev rp @ [i] = q @ j # r"
        using q by (metis append_Nil append_assoc list.exhaust prefixE append_Cons snoc_eq_iff_butlast)
      then have below: "nodeAt q ?t = map_option (modifyAt (j # r) setDirty) (nodeAt q t)"
        by (simp add: modifyAt_below)
      with k obtain k0 where k0: "nodeAt q t = Some k0" "pnDirty k0" by auto
      have "prefix q (rev (i # rp))" using q by (auto intro: prefix_order.trans)
      then have "markPath q t = t" using Cons.prems(1) k0 by blast
      then show "markPath q ?t = ?t"
        using markPath_modifyAt [of q j r t setDirty] Cons.prems(2) by (simp add: pos)
    qed
    then show ?thesis using Cons.prems False markPath_setDirty by simp
  qed
qed

lemma PropagateDirtyUp_mark:
  "marksOk t \<Longrightarrow> nodeAt pos t = Some n \<Longrightarrow> PropagateDirtyUp pos t = markPath pos t"
  unfolding PropagateDirtyUp_def using propagateUp_mark [of "rev pos" t n] dirty_up by auto

lemma PropagateDirtyUp_absent:
  "pos \<noteq> [] \<Longrightarrow> nodeAt pos t = None \<Longrightarrow> PropagateDirtyUp pos t = t"
  by (cases pos rule: rev_cases) (auto simp: PropagateDirtyUp_def)

text \<open>Which nodes a marked tree has.\<close>

lemma nodeAt_markPath:
  "nodeAt pos t \<noteq> None \<Longrightarrow> nodeAt q (markPath pos t) =
     (case nodeAt q t of None \<Rightarrow> None
      | Some n \<Rightarrow> Some (if prefix q pos then markPath (drop (length q) pos) n else n))"
proof (induction q arbitrary: pos t)
  case Nil
  then show ?case by simp
next
  case (Cons i q)
  show ?case
  proof (cases pos)
    case Nil
    then show ?thesis by (cases t) (auto split: option.split)
  next
    case (Cons j ps)
    with Cons.prems Cons.IH [of ps "pnChildren t ! j"] show ?thesis
      by (cases t) (auto simp: nth_list_update split: if_splits option.splits)
  qed
qed


section \<open>Trees up to marks\<close>

fun strip :: "pnode \<Rightarrow> pnode" where
  "strip (PNode e cs v d m mv h p) = PNode e (map strip cs) v False 0 False h p"

lemma strip_simps [simp]:
  "pnExpr (strip t) = pnExpr t" "pnCached (strip t) = pnCached t"
  "pnSourceHash (strip t) = pnSourceHash t" "pnSourcePath (strip t) = pnSourcePath t"
  "pnChildren (strip t) = map strip (pnChildren t)"
  by (cases t, simp)+

lemma nodeAt_strip: "nodeAt q (strip t) = map_option strip (nodeAt q t)"
  by (induction q t rule: nodeAt.induct) auto

lemma treePaths_strip: "treePaths (strip t) = treePaths t"
proof (induction t rule: pnode_induct)
  case (Node e cs v d m mv h p)
  then have "map (treePaths \<circ> strip) cs = map treePaths cs" by simp
  then show ?case by (simp only: strip.simps treePaths.simps map_map)
qed

lemma strip_markPath [simp]: "strip (markPath q t) = strip t"
proof (induction q t rule: markPath.induct)
  case (2 i "is" e cs v d m mv h p)
  then show ?case by (auto simp: map_update list_update_same_conv)
qed simp

lemma strip_ResetDirty [simp]: "strip (ResetDirty t) = strip t"
  by (induction t rule: pnode_induct) simp

lemma strip_ComputeMerkleRoot [simp]: "strip (snd (ComputeMerkleRoot E t)) = strip t"
proof (induction t rule: pnode_induct)
  case (Node e cs v d m mv h p)
  then show ?case by (auto simp: Let_def comp_def)
qed

lemma marksOk_ResetDirty: "marksOk (ResetDirty t)"
proof (induction t rule: pnode_induct)
  case (Node e cs v d m mv h p)
  have "\<not> pnDirty (ResetDirty c)" for c by (cases c) simp
  with Node show ?case by (auto simp: marksOk_Node list_all_iff list_ex_iff)
qed

lemma clean_ResetDirty: "nodeAt q (ResetDirty t) = Some n \<Longrightarrow> \<not> pnDirty n"
proof (induction q arbitrary: t)
  case Nil
  then show ?case by (cases t) auto
next
  case (Cons i q)
  then show ?case by (cases t) (auto split: if_splits)
qed

lemma nodeAt_stripped: "strip t = strip u \<Longrightarrow> nodeAt q t = None \<longleftrightarrow> nodeAt q u = None"
  by (metis nodeAt_strip option.map_disc_iff)

text \<open>Marking from several positions: exactly the nodes on the ways to the root are dirty.\<close>

lemma propagate_all:
  assumes "marksOk t" and "\<forall>pos \<in> set ps. nodeAt pos t \<noteq> None"
  shows "strip (fold PropagateDirtyUp ps t) = strip t \<and> marksOk (fold PropagateDirtyUp ps t) \<and>
    (\<forall>q n. nodeAt q (fold PropagateDirtyUp ps t) = Some n \<longrightarrow>
       (pnDirty n \<longleftrightarrow> pnDirty (the (nodeAt q t)) \<or> (\<exists>pos \<in> set ps. prefix q pos)))"
  using assms
proof (induction ps arbitrary: t)
  case Nil
  then show ?case by auto
next
  case (Cons pos ps)
  then have pos: "nodeAt pos t \<noteq> None" by simp
  have u: "PropagateDirtyUp pos t = markPath pos t"
    using Cons.prems PropagateDirtyUp_mark by auto
  have ex: "\<forall>q \<in> set ps. nodeAt q (markPath pos t) \<noteq> None"
    using Cons.prems nodeAt_stripped [of "markPath pos t" t] by auto
  have d: "pnDirty (the (nodeAt q (markPath pos t))) \<longleftrightarrow> pnDirty (the (nodeAt q t)) \<or> prefix q pos"
    if "nodeAt q (markPath pos t) \<noteq> None" for q
    using that by (auto simp: nodeAt_markPath [OF pos] split: option.splits if_splits)
  note IH = Cons.IH [OF marksOk_markPath [OF Cons.prems(1), of pos] ex]
  have "nodeAt q (markPath pos t) \<noteq> None" if "nodeAt q (fold PropagateDirtyUp ps (markPath pos t)) \<noteq> None" for q
    using that IH nodeAt_stripped by metis
  with IH d show ?case by (fastforce simp: u)
qed

end
