(* ===== verification/Engine.thy ===== *)
theory Engine
  imports ProofTree
begin

text \<open>
  \<open>engine/compose.go\<close> and \<open>engine/incremental.go\<close>: composing a proof for a path, and
  bringing a cached proof up to date.

  The definitions take the store as a dictionary.  \<open>st\<close> is the store that the server has,
  \<open>lo\<close> its local store (\<open>s.Local\<close> of a \<open>WriteThroughStore\<close>, the store itself otherwise);
  both act on the same state.  A read may change the state (the LRU order), so the state is
  threaded through.  \<open>now\<close> is the time of the call.

  \<open>buildProofNode\<close> and \<open>reduceTree\<close> follow atoms through the store, so their recursion is
  bounded by a fuel argument; running out of fuel stands for a recursion that does not end.
\<close>

record reduce_stats =
  rsChangedPaths :: nat
  rsCacheHits :: nat
  rsCacheMisses :: nat

definition zeroStats :: reduce_stats where
  "zeroStats = \<lparr>rsChangedPaths = 0, rsCacheHits = 0, rsCacheMisses = 0\<rparr>"

definition hit :: "reduce_stats \<Rightarrow> reduce_stats" where
  "hit z = z\<lparr>rsCacheHits := rsCacheHits z + 1\<rparr>"

definition miss :: "reduce_stats \<Rightarrow> reduce_stats" where
  "miss z = z\<lparr>rsCacheMisses := rsCacheMisses z + 1\<rparr>"

type_synonym pathIndex = "(string, position) gomap"

record mproof =
  mpQueryHash :: hash
  mpQueryPath :: string
  mpMode :: mode
  mpValue :: Value
  mpValueHash :: hash
  mpVV :: "(string, hash) gomap"
  mpMerkleRoot :: hash
  mpNodeCache :: "(hash, Value) gomap"
  mpPathToNode :: pathIndex
  mpProofTree :: expr
  mpRootNode :: "pnode option"
  mpStats :: reduce_stats
  mpLastVerifiedAt :: int64
  mpAccessCount :: uint64

fun exprTypeName :: "expr \<Rightarrow> string" where
  "exprTypeName (EConst v) = ''*core.EConst''"
| "exprTypeName (EFieldAccess f e) = ''*core.EFieldAccess''"
| "exprTypeName (EEmbed m v) = ''*core.EEmbed''"
| "exprTypeName (ECompose hs) = ''*core.ECompose''"
| "exprTypeName (EApply f a) = ''*core.EApply''"
| "exprTypeName (EResonate qs) = ''*core.EResonate''"

section \<open>Building a proof\<close>

function buildProofNode ::
    "'s store \<Rightarrow> gotime \<Rightarrow> nat \<Rightarrow> string \<Rightarrow> position \<Rightarrow> pathIndex \<Rightarrow> 's
      \<Rightarrow> (pnode option \<times> pathIndex \<times> 's) option"
  and buildChildren ::
    "'s store \<Rightarrow> gotime \<Rightarrow> nat \<Rightarrow> hash list \<Rightarrow> position \<Rightarrow> nat \<Rightarrow> pathIndex \<Rightarrow> 's
      \<Rightarrow> (pnode list \<times> pathIndex \<times> 's) option" where
  "buildProofNode st now 0 path pos idx s = None"
| "buildProofNode st now (Suc k) path pos idx s =
     (case sGetCurrent st now path s of
        (None, s1) \<Rightarrow> Some (None, idx, s1)
      | (Some a, s1) \<Rightarrow>
          let idx1 = AList.update path pos idx;
              node = (\<lambda>cs. PNode (aExpr a) cs VNil False 0 False (aHash a) path)
          in (case aExpr a of
                ECompose hs \<Rightarrow>
                  (case buildChildren st now k hs pos 0 idx1 s1 of
                     None \<Rightarrow> None
                   | Some (cs, idx2, s2) \<Rightarrow> Some (Some (node cs), idx2, s2))
              | _ \<Rightarrow> Some (Some (node []), idx1, s1)))"
| "buildChildren st now k [] pos i idx s = Some ([], idx, s)"
| "buildChildren st now k (h # hs) pos i idx s =
     (case sGetAtom st now h s of
        None \<Rightarrow> buildChildren st now k hs pos i idx s
      | Some childAtom \<Rightarrow>
          (case buildProofNode st now k (aPath childAtom) (pos @ [i]) idx s of
             None \<Rightarrow> None
           | Some (None, idx1, s1) \<Rightarrow> buildChildren st now k hs pos i idx1 s1
           | Some (Some c, idx1, s1) \<Rightarrow>
               (case buildChildren st now k hs pos (Suc i) idx1 s1 of
                  None \<Rightarrow> None
                | Some (cs, idx2, s2) \<Rightarrow> Some (c # cs, idx2, s2))))"
  by pat_completeness auto
termination
  by (relation "inv_image ({(i, j). i < j} <*lex*> {(i, j). i < j})
     (\<lambda>x. case x of Inl (st, now, k, path, pos, idx, s) \<Rightarrow> (k, 0)
                 | Inr (st, now, k, hs, pos, i, idx, s) \<Rightarrow> (k, Suc (length hs)))")
    (auto intro: wf_inv_image wf_lex_prod wf_less)

definition gatherCausalClosure ::
    "'s store \<Rightarrow> gotime \<Rightarrow> string \<Rightarrow> 's \<Rightarrow> catom list result \<times> 's" where
  "gatherCausalClosure st now path s =
     (case sGetCurrent st now path s of
        (None, s1) \<Rightarrow> (Err (''path not found: '' @ path), s1)
      | (Some a, s1) \<Rightarrow> (Ok [a], s1))"

fun dedupHashes :: "hash list \<Rightarrow> hash list \<Rightarrow> hash list" where
  "dedupHashes seen [] = []"
| "dedupHashes seen (h # hs) =
     (if h \<in> set seen then dedupHashes seen hs else h # dedupHashes (h # seen) hs)"

definition buildProofTree :: "catom list \<Rightarrow> expr" where
  "buildProofTree atoms = ECompose (dedupHashes [] (map aHash atoms))"

fun captureEntries ::
    "'s store \<Rightarrow> gotime \<Rightarrow> catom list \<Rightarrow> (string, hash) gomap \<Rightarrow> 's \<Rightarrow> (string, hash) gomap \<times> 's" where
  "captureEntries st now [] vv s = (vv, s)"
| "captureEntries st now (a # as) vv s =
     (if aPath a \<noteq> [] then
        (case sGetCurrent st now (aPath a) s of
           (Some c, s1) \<Rightarrow> captureEntries st now as (AList.update (aPath a) (aHash c) vv) s1
         | (None, s1) \<Rightarrow> captureEntries st now as (AList.update (aPath a) (aHash a) vv) s1)
      else captureEntries st now as vv s)"

definition captureVersionVector ::
    "'s store \<Rightarrow> gotime \<Rightarrow> catom list \<Rightarrow> 's \<Rightarrow> (string, hash) gomap \<times> 's" where
  "captureVersionVector st now atoms s = captureEntries st now atoms [] s"

text \<open>The loop that adds every path of the tree to the version vector.\<close>

fun addTreePaths ::
    "'s store \<Rightarrow> gotime \<Rightarrow> string list \<Rightarrow> (string, hash) gomap \<Rightarrow> 's \<Rightarrow> (string, hash) gomap" where
  "addTreePaths lo now [] vv s = vv"
| "addTreePaths lo now (p # ps) vv s =
     addTreePaths lo now ps
       (if p \<noteq> [] \<and> map_of vv p = None then
          (case sGetCurrentHash lo now p s of Some h \<Rightarrow> AList.update p h vv | None \<Rightarrow> vv)
        else vv) s"

fun mapCurrent ::
    "'s store \<Rightarrow> gotime \<Rightarrow> (string, hash) gomap \<Rightarrow> string list \<Rightarrow> 's \<Rightarrow> hash list \<times> 's" where
  "mapCurrent st now vv [] s = ([], s)"
| "mapCurrent st now vv (p # ps) s =
     (let h = (case map_of vv p of Some h \<Rightarrow> h | None \<Rightarrow> 0) in
      if IsZero h then
        (case sGetCurrent st now p s of
           (c, s1) \<Rightarrow>
             let h' = (case c of Some a \<Rightarrow> aHash a | None \<Rightarrow> h);
                 (hs, s2) = mapCurrent st now vv ps s1
             in (h' # hs, s2))
      else let (hs, s2) = mapCurrent st now vv ps s in (h # hs, s2))"

definition ComputeVersionMerkleRoot ::
    "ext \<Rightarrow> 's store \<Rightarrow> gotime \<Rightarrow> (string, hash) gomap \<Rightarrow> 's \<Rightarrow> hash \<times> 's" where
  "ComputeVersionMerkleRoot E st now vv s =
     (let (hs, s1) = mapCurrent st now vv (sortStrings (map fst vv)) s
      in (if hs = [] then 0 else computeMerkle E hs, s1))"

section \<open>Reducing\<close>

text \<open>The re-read of a dirty node that stands for an atom.\<close>

definition refreshNode :: "'s store \<Rightarrow> gotime \<Rightarrow> pnode \<Rightarrow> 's \<Rightarrow> pnode \<times> 's" where
  "refreshNode lo now n s =
     (if pnSourcePath n \<noteq> [] \<and> pnDirty n then
        (case sGetCurrent lo now (pnSourcePath n) s of
           (Some a, s1) \<Rightarrow>
             (PNode (aExpr a) (pnChildren n) (pnCached n) (pnDirty n) (pnMerkleRoot n)
                (pnMerkleValid n) (aHash a) (pnSourcePath n), s1)
         | (None, s1) \<Rightarrow> (n, s1))
      else (n, s))"

text \<open>The stores at the end of a reduction that succeeded.\<close>

definition finishNode :: "pnode \<Rightarrow> pnode list \<Rightarrow> Value \<Rightarrow> pnode" where
  "finishNode n cs v = PNode (pnExpr n) cs v False (pnMerkleRoot n) False (pnSourceHash n) (pnSourcePath n)"

definition withChildren :: "pnode \<Rightarrow> pnode list \<Rightarrow> pnode" where
  "withChildren n cs = PNode (pnExpr n) cs (pnCached n) (pnDirty n) (pnMerkleRoot n)
     (pnMerkleValid n) (pnSourceHash n) (pnSourcePath n)"

lemma refreshNode_children [simp]: "pnChildren (fst (refreshNode lo now n s)) = pnChildren n"
  by (auto simp: refreshNode_def split: prod.splits option.splits)

fun castErr :: "'a result \<Rightarrow> 'b result" where
  "castErr (Ok x) = Panic"
| "castErr (Err e) = Err e"
| "castErr Panic = Panic"
| "castErr Hang = Hang"

lemma size_pnChildren: "size_list size (pnChildren n) < size n"
  by (cases n) simp

lemma size_pnChildren_Cons:
  "pnChildren n = c # cs \<Longrightarrow> size c < size n"
  "pnChildren n = c # d # cs \<Longrightarrow> size d < size n"
  using size_pnChildren [of n] by auto

text \<open>
  \<open>reduceDirty\<close>.  It returns the value, the node as the call leaves it (also when it fails
  half way), the state and the counters.
\<close>

function reduceDirty ::
    "'s store \<Rightarrow> gotime \<Rightarrow> pnode \<Rightarrow> 's \<Rightarrow> reduce_stats \<Rightarrow> Value result \<times> pnode \<times> 's \<times> reduce_stats"
  and reduceChildren ::
    "'s store \<Rightarrow> gotime \<Rightarrow> pnode list \<Rightarrow> (string \<times> Value) list \<Rightarrow> 's \<Rightarrow> reduce_stats
      \<Rightarrow> (string \<times> Value) list result \<times> pnode list \<times> 's \<times> reduce_stats" where
  "reduceDirty lo now n s z =
     (if \<not> pnDirty n \<and> pnCached n \<noteq> VNil then (Ok (pnCached n), n, s, hit z)
      else
        case refreshNode lo now n s of (n1, s1) \<Rightarrow>
        (case pnExpr n1 of
           EConst v \<Rightarrow> (Ok v, finishNode n1 (pnChildren n) v, s1, miss z)
         | EFieldAccess field e \<Rightarrow>
             (case pnChildren n of
                [] \<Rightarrow> (Err ''EFieldAccess missing children in ProofNode'', n1, s1, miss z)
              | c # cs \<Rightarrow>
                  (case reduceDirty lo now c s1 (miss z) of (r, c', s2, z2) \<Rightarrow>
                   (case r of
                      Ok v \<Rightarrow> (Ok (extractField field v), finishNode n1 (c' # cs) (extractField field v), s2, z2)
                    | _ \<Rightarrow> (castErr r, withChildren n1 (c' # cs), s2, z2))))
         | ECompose hs \<Rightarrow>
             (case reduceChildren lo now (pnChildren n) [] s1 (miss z) of (r, cs', s2, z2) \<Rightarrow>
              (case r of
                 Ok rec \<Rightarrow> (Ok (VRecord rec), finishNode n1 cs' (VRecord rec), s2, z2)
               | _ \<Rightarrow> (castErr r, withChildren n1 cs', s2, z2)))
         | EApply f a \<Rightarrow>
             (case pnChildren n of
                c0 # c1 # cs \<Rightarrow>
                  (case reduceDirty lo now c0 s1 (miss z) of (r0, c0', s2, z2) \<Rightarrow>
                   (case r0 of
                      Ok fv \<Rightarrow>
                        (case reduceDirty lo now c1 s2 z2 of (r1, c1', s3, z3) \<Rightarrow>
                         (case r1 of
                            Ok av \<Rightarrow>
                              (case applyCombinator fv av of
                                 Some v \<Rightarrow> (Ok v, finishNode n1 (c0' # c1' # cs) v, s3, z3)
                               | None \<Rightarrow> (Hang, withChildren n1 (c0' # c1' # cs), s3, z3))
                          | _ \<Rightarrow> (castErr r1, withChildren n1 (c0' # c1' # cs), s3, z3)))
                    | _ \<Rightarrow> (castErr r0, withChildren n1 (c0' # c1 # cs), s2, z2)))
              | _ \<Rightarrow> (Err ''EApply missing children in ProofNode'', n1, s1, miss z))
         | e \<Rightarrow> (Err (''unsupported or incomplete expr type for incremental: '' @ exprTypeName e),
                 n1, s1, miss z)))"
| "reduceChildren lo now [] rec s z = (Ok rec, [], s, z)"
| "reduceChildren lo now (c # cs) rec s z =
     (case reduceDirty lo now c s z of (r, c', s1, z1) \<Rightarrow>
      (case r of
         Ok v \<Rightarrow>
           (case reduceChildren lo now cs (AList.update (pnSourcePath c) v rec) s1 z1 of
              (r2, cs', s2, z2) \<Rightarrow> (r2, c' # cs', s2, z2))
       | _ \<Rightarrow> (castErr r, c' # cs, s1, z1)))"
  by pat_completeness auto
termination
  by (relation "measure (\<lambda>x. case x of Inl (lo, now, n, s, z) \<Rightarrow> size n
        | Inr (lo, now, cs, rec, s, z) \<Rightarrow> size_list size cs)")
    (auto simp: size_pnChildren dest: size_pnChildren_Cons)

declare reduceDirty.simps [simp del]

section \<open>Reducing an expression\<close>

text \<open>\<open>reduceTree\<close>; a proof argument that is nil only drops the counters.\<close>

function reduceTree ::
    "ext \<Rightarrow> 's store \<Rightarrow> gotime \<Rightarrow> nat \<Rightarrow> expr \<Rightarrow> 's \<Rightarrow> (hash, Value) gomap \<Rightarrow> reduce_stats
      \<Rightarrow> Value result \<times> 's \<times> (hash, Value) gomap \<times> reduce_stats"
  and reduceAtoms ::
    "ext \<Rightarrow> 's store \<Rightarrow> gotime \<Rightarrow> nat \<Rightarrow> hash list \<Rightarrow> (string \<times> Value) list \<Rightarrow> 's \<Rightarrow> (hash, Value) gomap
      \<Rightarrow> reduce_stats \<Rightarrow> (string \<times> Value) list result \<times> 's \<times> (hash, Value) gomap \<times> reduce_stats" where
  "reduceTree E lo now 0 e s nc z = (Hang, s, nc, z)"
| "reduceTree E lo now (Suc k) e s nc z =
     (case map_of nc (ExprHash E e) of
        Some cached \<Rightarrow> (Ok cached, s, nc, hit z)
      | None \<Rightarrow>
          let fin = (\<lambda>v s' nc' z'. (Ok v, s', AList.update (ExprHash E e) v nc', z')) in
          (case e of
             EConst v \<Rightarrow> fin v s nc (miss z)
           | EFieldAccess field source \<Rightarrow>
               (case reduceTree E lo now k source s nc (miss z) of
                  (Ok v, s1, nc1, z1) \<Rightarrow> fin (extractField field v) s1 nc1 z1
                | (r, s1, nc1, z1) \<Rightarrow> (castErr r, s1, nc1, z1))
           | ECompose hs \<Rightarrow>
               (case reduceAtoms E lo now k hs [] s nc (miss z) of
                  (Ok rec, s1, nc1, z1) \<Rightarrow> fin (VRecord rec) s1 nc1 z1
                | (r, s1, nc1, z1) \<Rightarrow> (castErr r, s1, nc1, z1))
           | EApply f a \<Rightarrow>
               (case reduceTree E lo now k f s nc (miss z) of
                  (Ok fv, s1, nc1, z1) \<Rightarrow>
                    (case reduceTree E lo now k a s1 nc1 z1 of
                       (Ok av, s2, nc2, z2) \<Rightarrow>
                         (case applyCombinator fv av of
                            Some v \<Rightarrow> fin v s2 nc2 z2
                          | None \<Rightarrow> (Hang, s2, nc2, z2))
                     | (r, s2, nc2, z2) \<Rightarrow> (castErr r, s2, nc2, z2))
                | (r, s1, nc1, z1) \<Rightarrow> (castErr r, s1, nc1, z1))
           | _ \<Rightarrow> (Err (''unknown expr type: '' @ exprTypeName e), s, nc, miss z)))"
| "reduceAtoms E lo now k [] rec s nc z = (Ok rec, s, nc, z)"
| "reduceAtoms E lo now k (h # hs) rec s nc z =
     (case (case sGetAtom lo now h s of
              Some a \<Rightarrow>
                if aPath a \<noteq> [] then
                  (case sGetCurrent lo now (aPath a) s of
                     (Some c, s1) \<Rightarrow> (Some c, s1)
                   | (None, s1) \<Rightarrow> (Some a, s1))
                else (Some a, s)
            | None \<Rightarrow> (None, s)) of
        (None, s1) \<Rightarrow> (Err (''atom not found: '' @ hexBytes (hexBytes (hashBytes h))), s1, nc, z)
      | (Some a, s1) \<Rightarrow>
          (case reduceTree E lo now k (aExpr a) s1 nc z of
             (Ok v, s2, nc2, z2) \<Rightarrow> reduceAtoms E lo now k hs (AList.update (aPath a) v rec) s2 nc2 z2
           | (r, s2, nc2, z2) \<Rightarrow> (castErr r, s2, nc2, z2)))"
  by pat_completeness auto
termination
  by (relation "inv_image ({(i, j). i < j} <*lex*> {(i, j). i < j})
     (\<lambda>x. case x of Inl (E, lo, now, k, e, s, nc, z) \<Rightarrow> (k, 0)
                 | Inr (E, lo, now, k, hs, rec, s, nc, z) \<Rightarrow> (k, Suc (length hs)))")
    (auto intro: wf_inv_image wf_lex_prod wf_less)

definition ReduceProofTree ::
    "ext \<Rightarrow> 's store \<Rightarrow> gotime \<Rightarrow> nat \<Rightarrow> expr \<Rightarrow> 's \<Rightarrow> (Value \<times> (hash, Value) gomap) result \<times> 's" where
  "ReduceProofTree E lo now k e s =
     (case reduceTree E lo now k e s [] zeroStats of
        (Ok v, s1, nc, z) \<Rightarrow> (Ok (v, nc), s1)
      | (r, s1, nc, z) \<Rightarrow> (castErr r, s1))"

section \<open>The two entry points\<close>

text \<open>\<open>Serialize\<close> calls a method of every value it contains, so a nil inside panics.\<close>

function hasNil :: "Value \<Rightarrow> bool" where
  "hasNil VNil = True"
| "hasNil VNull = False"
| "hasNil (VBool b) = False"
| "hasNil (VInt i) = False"
| "hasNil (VFloat f) = False"
| "hasNil (VString s) = False"
| "hasNil (VBytes s) = False"
| "hasNil (VArray vs) = (\<exists>v \<in> set vs. hasNil v)"
| "hasNil (VRecord m) = (\<exists>kv \<in> set m. hasNil (snd kv))"
  by pat_completeness auto
termination
proof (relation "measure size", goal_cases)
  case (2 vs v)
  then show ?case by (induction vs) auto
next
  case (3 m kv)
  then show ?case using size_record_elem [of kv m] by simp
qed simp

text \<open>
  \<open>ComposeProof\<close>.  The error of \<open>reduceDirty\<close> is discarded, so after an error the value is
  nil and \<open>HashValue\<close> panics.
\<close>

definition ComposeProof ::
    "ext \<Rightarrow> 's store \<Rightarrow> 's store \<Rightarrow> gotime \<Rightarrow> nat \<Rightarrow> string \<Rightarrow> mode \<Rightarrow> 's \<Rightarrow> mproof result \<times> 's" where
  "ComposeProof E st lo now k path mode s =
     (case gatherCausalClosure st now path s of
        (Ok atoms, s1) \<Rightarrow>
          (case buildProofNode st now k path [] [] s1 of
             None \<Rightarrow> (Hang, s1)
           | Some (root, idx, s2) \<Rightarrow>
               (case captureVersionVector st now atoms s2 of
                  (vv0, s3) \<Rightarrow>
                    let vv = addTreePaths lo now (map fst idx) vv0 s3 in
                    (case ComputeVersionMerkleRoot E lo now vv s3 of
                       (mr, s4) \<Rightarrow>
                         (case root of
                            None \<Rightarrow> (Panic, s4)
                          | Some n \<Rightarrow>
                              (case reduceDirty lo now n s4 zeroStats of
                                 (Ok v, n', s5, z) \<Rightarrow>
                                   if hasNil v then (Panic, s5)
                                   else
                                     (Ok \<lparr>mpQueryHash = 0, mpQueryPath = path, mpMode = mode, mpValue = v,
                                         mpValueHash = HashValue E v, mpVV = vv, mpMerkleRoot = mr,
                                         mpNodeCache = [], mpPathToNode = idx,
                                         mpProofTree = buildProofTree atoms,
                                         mpRootNode = Some (snd (ComputeMerkleRoot E n')),
                                         mpStats = z, mpLastVerifiedAt = 0, mpAccessCount = 0\<rparr>, s5)
                               | (Hang, n', s5, z) \<Rightarrow> (Hang, s5)
                               | (_, n', s5, z) \<Rightarrow> (Panic, s5))))))
      | (Err e, s1) \<Rightarrow> (Err (''causal closure: '' @ e), s1)
      | (r, s1) \<Rightarrow> (castErr r, s1))"

text \<open>The refresh of the version vector after a reduction.\<close>

fun refreshVV ::
    "'s store \<Rightarrow> gotime \<Rightarrow> string list \<Rightarrow> (string, hash) gomap \<Rightarrow> 's \<Rightarrow> (string, hash) gomap" where
  "refreshVV lo now [] vv s = vv"
| "refreshVV lo now (p # ps) vv s =
     refreshVV lo now ps
       (case sGetCurrentHash lo now p s of Some h \<Rightarrow> AList.update p h vv | None \<Rightarrow> vv) s"

text \<open>The dirty marks that the changed paths put on the tree.\<close>

definition markChanged :: "string list \<Rightarrow> pathIndex \<Rightarrow> pnode \<Rightarrow> pnode" where
  "markChanged changed idx root =
     fold (\<lambda>p t. case map_of idx p of Some pos \<Rightarrow> PropagateDirtyUp pos t | None \<Rightarrow> t)
       changed (ResetDirty root)"

definition ReduceIncremental ::
    "ext \<Rightarrow> 's store \<Rightarrow> gotime \<Rightarrow> nat \<Rightarrow> mproof \<Rightarrow> 's \<Rightarrow> Value result \<times> mproof \<times> 's" where
  "ReduceIncremental E lo now k pr s =
     (if sVerifyVersionVector lo now (mpVV pr) s then
        (Ok (mpValue pr),
         pr\<lparr>mpStats := zeroStats, mpAccessCount := mpAccessCount pr + 1, mpLastVerifiedAt := UnixNano now\<rparr>, s)
      else
        let changed = sFindChangedPaths lo now (mpVV pr) s;
            z0 = zeroStats\<lparr>rsChangedPaths := length changed\<rparr>;
            finish = (\<lambda>v pr' s'.
              (Ok v, pr'\<lparr>mpValue := v, mpVV := refreshVV lo now changed (mpVV pr) s',
                 mpRootNode := map_option (\<lambda>n. snd (ComputeMerkleRoot E n)) (mpRootNode pr'),
                 mpLastVerifiedAt := UnixNano now, mpAccessCount := mpAccessCount pr + 1\<rparr>, s'));
            fail = (\<lambda>r pr' s'. (case r of Err e \<Rightarrow> Err (''incremental reduction: '' @ e) | _ \<Rightarrow> castErr r, pr', s'))
        in (case mpRootNode pr of
              Some root \<Rightarrow>
                (case reduceDirty lo now (markChanged changed (mpPathToNode pr) root) s z0 of
                   (Ok v, n', s1, z) \<Rightarrow> finish v (pr\<lparr>mpRootNode := Some n', mpStats := z\<rparr>) s1
                 | (r, n', s1, z) \<Rightarrow> fail r (pr\<lparr>mpRootNode := Some n', mpStats := z\<rparr>) s1)
            | None \<Rightarrow>
                (case reduceTree E lo now k (mpProofTree pr) s (mpNodeCache pr) z0 of
                   (Ok v, s1, nc, z) \<Rightarrow> finish v (pr\<lparr>mpNodeCache := nc, mpStats := z\<rparr>) s1
                 | (r, s1, nc, z) \<Rightarrow> fail r (pr\<lparr>mpNodeCache := nc, mpStats := z\<rparr>) s1)))"


section \<open>What a tree means\<close>

text \<open>
  The reference meaning of a proof tree against a frontier \<open>C\<close>: every node takes the
  expression that is current at its path (its own one when the path is gone), and the tree
  is evaluated bottom-up, with no cache and no marks.
\<close>

definition exprOf :: "(string \<Rightarrow> catom option) \<Rightarrow> pnode \<Rightarrow> expr" where
  "exprOf C n = (case (if pnSourcePath n = [] then None else C (pnSourcePath n)) of
     Some a \<Rightarrow> aExpr a | None \<Rightarrow> pnExpr n)"

definition hashOf :: "(string \<Rightarrow> catom option) \<Rightarrow> pnode \<Rightarrow> hash" where
  "hashOf C n = (case (if pnSourcePath n = [] then None else C (pnSourcePath n)) of
     Some a \<Rightarrow> aHash a | None \<Rightarrow> pnSourceHash n)"

function freshVal :: "(string \<Rightarrow> catom option) \<Rightarrow> pnode \<Rightarrow> Value result"
  and freshRec :: "(string \<Rightarrow> catom option) \<Rightarrow> pnode list \<Rightarrow> (string \<times> Value) list
    \<Rightarrow> (string \<times> Value) list result" where
  "freshVal C n =
     (case exprOf C n of
        EConst v \<Rightarrow> Ok v
      | EFieldAccess field e \<Rightarrow>
          (case pnChildren n of
             [] \<Rightarrow> Err ''EFieldAccess missing children in ProofNode''
           | c # cs \<Rightarrow> bind_result (freshVal C c) (\<lambda>v. Ok (extractField field v)))
      | ECompose hs \<Rightarrow> bind_result (freshRec C (pnChildren n) []) (\<lambda>rec. Ok (VRecord rec))
      | EApply f a \<Rightarrow>
          (case pnChildren n of
             c0 # c1 # cs \<Rightarrow>
               bind_result (freshVal C c0) (\<lambda>fv. bind_result (freshVal C c1) (\<lambda>av.
                 case applyCombinator fv av of Some v \<Rightarrow> Ok v | None \<Rightarrow> Hang))
           | _ \<Rightarrow> Err ''EApply missing children in ProofNode'')
      | e \<Rightarrow> Err (''unsupported or incomplete expr type for incremental: '' @ exprTypeName e))"
| "freshRec C [] rec = Ok rec"
| "freshRec C (c # cs) rec =
     bind_result (freshVal C c) (\<lambda>v. freshRec C cs (AList.update (pnSourcePath c) v rec))"
  by pat_completeness auto
termination
  by (relation "measure (\<lambda>x. case x of Inl (C, n) \<Rightarrow> size n | Inr (C, cs, rec) \<Rightarrow> size_list size cs)")
    (auto simp: size_pnChildren dest: size_pnChildren_Cons)

declare freshVal.simps [simp del]

abbreviation storedVal :: "pnode \<Rightarrow> Value result" where
  "storedVal \<equiv> freshVal (\<lambda>_. None)"

text \<open>The tree re-read against \<open>C\<close>, without values and marks.\<close>

fun refTree :: "(string \<Rightarrow> catom option) \<Rightarrow> pnode \<Rightarrow> pnode" where
  "refTree C (PNode e cs v d m mv h p) =
     PNode (exprOf C (PNode e cs v d m mv h p)) (map (refTree C) cs) VNil False 0 False
       (hashOf C (PNode e cs v d m mv h p)) p"

lemma refTree_simps [simp]:
  "pnExpr (refTree C n) = exprOf C n" "pnSourceHash (refTree C n) = hashOf C n"
  "pnSourcePath (refTree C n) = pnSourcePath n" "pnChildren (refTree C n) = map (refTree C) (pnChildren n)"
  by (cases n, simp)+

lemma exprOf_None [simp]: "exprOf (\<lambda>_. None) n = pnExpr n"
  by (simp add: exprOf_def)

lemma hashOf_None [simp]: "hashOf (\<lambda>_. None) n = pnSourceHash n"
  by (simp add: hashOf_def)

lemma freshVal_refTree:
  "storedVal (refTree C n) = freshVal C n"
  "freshRec (\<lambda>_. None) (map (refTree C) cs) rec = freshRec C cs rec"
proof (induction C n and C cs rec rule: freshVal_freshRec.induct)
  case (1 C n)
  then show ?case
    by (subst (1 2) freshVal.simps) (auto split: expr.split list.split)
next
  case (3 C c cs rec)
  then show ?case by (cases "freshVal C c") auto
qed simp

lemma storedVal_refTree: "refTree (\<lambda>_. None) n = refTree C m \<Longrightarrow> storedVal n = freshVal C m"
  using freshVal_refTree(1) by metis

definition syncedNode :: "(string \<Rightarrow> catom option) \<Rightarrow> pnode \<Rightarrow> bool" where
  "syncedNode C n \<longleftrightarrow> exprOf C n = pnExpr n \<and> hashOf C n = pnSourceHash n"

lemma refTree_synced: "allNodes (syncedNode C) n \<Longrightarrow> refTree C n = refTree (\<lambda>_. None) n"
proof (induction n rule: pnode_induct)
  case (Node e cs v d m mv h p)
  then show ?case by (simp add: syncedNode_def list_all_iff)
qed

lemma marksOk_clean: "marksOk n \<Longrightarrow> \<not> pnDirty n \<Longrightarrow> allNodes (\<lambda>m. \<not> pnDirty m) n"
proof (induction n rule: pnode_induct)
  case (Node e cs v d m mv h p)
  then show ?case by (auto simp: marksOk_Node list_all_iff list_ex_iff)
qed

lemma refTree_strip: "refTree C (strip n) = refTree C n"
proof (induction n rule: pnode_induct)
  case (Node e cs v d m mv h p)
  then show ?case by (simp add: exprOf_def hashOf_def split: option.split)
qed

lemma storedVal_strip: "strip n = strip m \<Longrightarrow> storedVal n = storedVal m"
  by (metis refTree_strip storedVal_refTree)

text \<open>A node that keeps a value keeps the right one.\<close>

definition cachedOk :: "pnode \<Rightarrow> bool" where
  "cachedOk n \<longleftrightarrow> (pnCached n \<noteq> VNil \<longrightarrow> storedVal n = Ok (pnCached n))"

definition stableNode :: "(string \<Rightarrow> catom option) \<Rightarrow> pnode \<Rightarrow> bool" where
  "stableNode C n \<longleftrightarrow> (pnChildren n \<noteq> [] \<longrightarrow> (\<exists>hs. exprOf C n = ECompose hs))"

lemma allNodes_strip:
  assumes "\<And>n. P (strip n) = P n"
  shows "allNodes P (strip t) = allNodes P t"
proof (induction t rule: pnode_induct)
  case (Node e cs v d m mv h p)
  then show ?case using assms [of "PNode e cs v d m mv h p"] by (auto simp: list_all_iff)
qed

lemma cachedOk_strip: "cachedOk (strip n) = cachedOk n"
proof -
  have "strip (strip n) = strip n" by (induction n rule: pnode_induct) simp
  then show ?thesis using storedVal_strip [of "strip n" n] by (simp add: cachedOk_def)
qed

section \<open>Reduction over a fixed frontier\<close>

text \<open>
  \<open>reduceDirty\<close> only reads the frontier, so over a store that satisfies the read laws it is
  the following function of the frontier.
\<close>

definition refreshP :: "(string \<Rightarrow> catom option) \<Rightarrow> pnode \<Rightarrow> pnode" where
  "refreshP C n =
     (if pnDirty n then PNode (exprOf C n) (pnChildren n) (pnCached n) (pnDirty n) (pnMerkleRoot n)
        (pnMerkleValid n) (hashOf C n) (pnSourcePath n)
      else n)"

function reduceP :: "(string \<Rightarrow> catom option) \<Rightarrow> pnode \<Rightarrow> reduce_stats \<Rightarrow> Value result \<times> pnode \<times> reduce_stats"
  and reducePs :: "(string \<Rightarrow> catom option) \<Rightarrow> pnode list \<Rightarrow> (string \<times> Value) list \<Rightarrow> reduce_stats
    \<Rightarrow> (string \<times> Value) list result \<times> pnode list \<times> reduce_stats" where
  "reduceP C n z =
     (if \<not> pnDirty n \<and> pnCached n \<noteq> VNil then (Ok (pnCached n), n, hit z)
      else
        (case pnExpr (refreshP C n) of
           EConst v \<Rightarrow> (Ok v, finishNode (refreshP C n) (pnChildren n) v, miss z)
         | EFieldAccess field e \<Rightarrow>
             (case pnChildren n of
                [] \<Rightarrow> (Err ''EFieldAccess missing children in ProofNode'', refreshP C n, miss z)
              | c # cs \<Rightarrow>
                  (case reduceP C c (miss z) of (r, c', z2) \<Rightarrow>
                   (case r of
                      Ok v \<Rightarrow> (Ok (extractField field v),
                        finishNode (refreshP C n) (c' # cs) (extractField field v), z2)
                    | _ \<Rightarrow> (castErr r, withChildren (refreshP C n) (c' # cs), z2))))
         | ECompose hs \<Rightarrow>
             (case reducePs C (pnChildren n) [] (miss z) of (r, cs', z2) \<Rightarrow>
              (case r of
                 Ok rec \<Rightarrow> (Ok (VRecord rec), finishNode (refreshP C n) cs' (VRecord rec), z2)
               | _ \<Rightarrow> (castErr r, withChildren (refreshP C n) cs', z2)))
         | EApply f a \<Rightarrow>
             (case pnChildren n of
                c0 # c1 # cs \<Rightarrow>
                  (case reduceP C c0 (miss z) of (r0, c0', z2) \<Rightarrow>
                   (case r0 of
                      Ok fv \<Rightarrow>
                        (case reduceP C c1 z2 of (r1, c1', z3) \<Rightarrow>
                         (case r1 of
                            Ok av \<Rightarrow>
                              (case applyCombinator fv av of
                                 Some v \<Rightarrow> (Ok v, finishNode (refreshP C n) (c0' # c1' # cs) v, z3)
                               | None \<Rightarrow> (Hang, withChildren (refreshP C n) (c0' # c1' # cs), z3))
                          | _ \<Rightarrow> (castErr r1, withChildren (refreshP C n) (c0' # c1' # cs), z3)))
                    | _ \<Rightarrow> (castErr r0, withChildren (refreshP C n) (c0' # c1 # cs), z2)))
              | _ \<Rightarrow> (Err ''EApply missing children in ProofNode'', refreshP C n, miss z))
         | e \<Rightarrow> (Err (''unsupported or incomplete expr type for incremental: '' @ exprTypeName e),
                 refreshP C n, miss z)))"
| "reducePs C [] rec z = (Ok rec, [], z)"
| "reducePs C (c # cs) rec z =
     (case reduceP C c z of (r, c', z1) \<Rightarrow>
      (case r of
         Ok v \<Rightarrow>
           (case reducePs C cs (AList.update (pnSourcePath c) v rec) z1 of
              (r2, cs', z2) \<Rightarrow> (r2, c' # cs', z2))
       | _ \<Rightarrow> (castErr r, c' # cs, z1)))"
  by pat_completeness auto
termination
  by (relation "measure (\<lambda>x. case x of Inl (C, n, z) \<Rightarrow> size n
        | Inr (C, cs, rec, z) \<Rightarrow> size_list size cs)")
    (auto simp: size_pnChildren dest: size_pnChildren_Cons)

declare reduceP.simps [simp del]

text \<open>The engine as a client of a store that satisfies the read laws.\<close>

locale engine_reads = store_reads st inv cur
  for st :: "'s store" and inv :: "'s \<Rightarrow> bool"
    and cur :: "gotime \<Rightarrow> 's \<Rightarrow> string \<Rightarrow> catom option"
begin

text \<open>Two states that no reader can tell apart.\<close>

definition same :: "'s \<Rightarrow> 's \<Rightarrow> bool" where
  "same s s' \<longleftrightarrow> inv s' \<and> (\<forall>t. cur t s' = cur t s) \<and> (\<forall>t h. sGetAtom st t h s' = sGetAtom st t h s)"

lemma same_refl: "inv s \<Longrightarrow> same s s"
  by (simp add: same_def)

lemma same_trans: "same s s' \<Longrightarrow> same s' s'' \<Longrightarrow> same s s''"
  by (simp add: same_def)

lemma same_GetCurrent: "inv s \<Longrightarrow> same s (snd (sGetCurrent st now p s))"
  using GetCurrent_inv GetCurrent_view GetAtom_view by (auto simp: same_def)

lemma refreshNode_P:
  assumes "inv s"
  shows "\<exists>s'. refreshNode st now n s = (refreshP (cur now s) n, s') \<and> same s s'"
proof (cases "pnSourcePath n \<noteq> [] \<and> pnDirty n")
  case True
  let ?g = "sGetCurrent st now (pnSourcePath n) s"
  have "fst ?g = cur now s (pnSourcePath n)" "same s (snd ?g)"
    using assms GetCurrent_cur same_GetCurrent by auto
  with True show ?thesis
    by (cases n; cases ?g)
      (auto simp: refreshNode_def refreshP_def exprOf_def hashOf_def split: option.split)
next
  case False
  with assms show ?thesis
    by (cases n) (auto simp: refreshNode_def refreshP_def exprOf_def hashOf_def intro: same_refl)
qed

lemma reduceDirty_P:
  "inv s \<Longrightarrow> cur now s = C \<Longrightarrow> \<exists>s'. reduceDirty st now n s z =
     (fst (reduceP C n z), fst (snd (reduceP C n z)), s', snd (snd (reduceP C n z))) \<and> same s s'"
  "inv s \<Longrightarrow> cur now s = C \<Longrightarrow> \<exists>s'. reduceChildren st now cs rec s z =
     (fst (reducePs C cs rec z), fst (snd (reducePs C cs rec z)), s', snd (snd (reducePs C cs rec z))) \<and> same s s'"
proof (induction C n z and C cs rec z arbitrary: s and s rule: reduceP_reducePs.induct)
  case (1 C n z)
  show ?case
  proof (cases "\<not> pnDirty n \<and> pnCached n \<noteq> VNil")
    case True
    with 1 show ?thesis
      by (subst reduceDirty.simps, subst (1 2 3) reduceP.simps) (simp add: same_def)
  next
    case False
    obtain s1 where s1: "refreshNode st now n s = (refreshP C n, s1)" "inv s1" "cur now s1 = C" "same s s1"
      using refreshNode_P [OF 1(5), of now n] 1(6) by (auto simp: same_def)
    note IH = 1(1-4) [OF False]
    note unf = reduceDirty.simps [of st now n s z] reduceP.simps [of C n z]
    show ?thesis
    proof (cases "pnExpr (refreshP C n)")
      case (EFieldAccess f e)
      show ?thesis
      proof (cases "pnChildren n")
        case Nil
        with False s1 EFieldAccess show ?thesis by (auto simp: unf same_def)
      next
        case (Cons c cs)
        obtain s2 where "reduceDirty st now c s1 (miss z) = (fst (reduceP C c (miss z)),
            fst (snd (reduceP C c (miss z))), s2, snd (snd (reduceP C c (miss z))))" "same s1 s2"
          using IH(1) [OF EFieldAccess Cons s1(2,3)] by blast
        with False s1 EFieldAccess Cons show ?thesis
          by (cases "reduceP C c (miss z)"; cases "fst (reduceP C c (miss z))") (auto simp: unf same_def)
      qed
    next
      case (ECompose hs)
      obtain s2 where "reduceChildren st now (pnChildren n) [] s1 (miss z) =
          (fst (reducePs C (pnChildren n) [] (miss z)), fst (snd (reducePs C (pnChildren n) [] (miss z))), s2,
           snd (snd (reducePs C (pnChildren n) [] (miss z))))" "same s1 s2"
        using IH(2) [OF ECompose s1(2,3)] by blast
      with False s1 ECompose show ?thesis
        by (cases "reducePs C (pnChildren n) [] (miss z)"; cases "fst (reducePs C (pnChildren n) [] (miss z))")
          (auto simp: unf same_def)
    next
      case (EApply f a)
      show ?thesis
      proof (cases "\<exists>c0 c1 cs. pnChildren n = c0 # c1 # cs")
        case True
        then obtain c0 c1 cs where cs: "pnChildren n = c0 # c1 # cs" by blast
        obtain r0 c0' z2 where p0: "reduceP C c0 (miss z) = (r0, c0', z2)" by (metis surj_pair)
        obtain s2 where d0: "reduceDirty st now c0 s1 (miss z) = (r0, c0', s2, z2)" "same s1 s2"
          using IH(3) [OF EApply cs refl s1(2,3)] p0 by auto
        have s2: "inv s2" "cur now s2 = C" using d0(2) s1(3) by (auto simp: same_def)
        show ?thesis
        proof (cases r0)
          case (Ok fv)
          obtain r1 c1' z3 where p1: "reduceP C c1 z2 = (r1, c1', z3)" by (metis surj_pair)
          obtain s3 where d1: "reduceDirty st now c1 s2 z2 = (r1, c1', s3, z3)" "same s2 s3"
            using IH(4) [OF EApply cs refl p0 [symmetric] refl Ok s2] p1 by auto
          with False s1 EApply cs p0 d0 p1 Ok show ?thesis
            by (cases r1) (auto simp: unf same_def split: option.split)
        qed (use False s1 EApply cs p0 d0 in \<open>auto simp: unf same_def\<close>)
      next
        case nocs: False
        then have "pnChildren n = [] \<or> (\<exists>c. pnChildren n = [c])"
          by (cases "pnChildren n" rule: remdups_adj.cases) auto
        with False s1 EApply show ?thesis by (auto simp: unf same_def)
      qed
    qed (use False s1 in \<open>auto simp: unf same_def\<close>)
  qed
next
  case (2 C rec z)
  then show ?case by (auto simp: same_def)
next
  case (3 C c cs rec z)
  obtain r c' z1 where p: "reduceP C c z = (r, c', z1)" by (metis surj_pair)
  obtain s1 where d: "reduceDirty st now c s z = (r, c', s1, z1)" "same s s1"
    using 3(1) [OF 3(3,4)] p by auto
  have s1: "inv s1" "cur now s1 = C" using d(2) 3(4) by (auto simp: same_def)
  show ?case
  proof (cases r)
    case (Ok v)
    obtain r2 cs' z2 where p2: "reducePs C cs (AList.update (pnSourcePath c) v rec) z1 = (r2, cs', z2)"
      by (metis surj_pair)
    obtain s2 where "reduceChildren st now cs (AList.update (pnSourcePath c) v rec) s1 z1 = (r2, cs', s2, z2)"
      "same s1 s2"
      using 3(2) [OF p [symmetric] refl Ok s1] p2 by auto
    with p d p2 Ok show ?thesis by (auto simp: same_def)
  qed (use p d in auto)
qed

end


section \<open>Reduction computes the meaning of the tree\<close>

definition readyTree :: "(string \<Rightarrow> catom option) \<Rightarrow> pnode \<Rightarrow> bool" where
  "readyTree C n \<longleftrightarrow> marksOk n \<and> allNodes (\<lambda>m. \<not> pnDirty m \<longrightarrow> syncedNode C m) n \<and>
     allNodes cachedOk n \<and> allNodes (stableNode C) n"

definition reducedTree :: "(string \<Rightarrow> catom option) \<Rightarrow> pnode \<Rightarrow> pnode \<Rightarrow> bool" where
  "reducedTree C n n' \<longleftrightarrow> refTree (\<lambda>_. None) n' = refTree C n \<and> allNodes cachedOk n'"

lemma readyTree_child: "readyTree C n \<Longrightarrow> c \<in> set (pnChildren n) \<Longrightarrow> readyTree C c"
  by (cases n) (auto simp: readyTree_def marksOk_Node list_all_iff)

lemma ready_clean:
  assumes "readyTree C n" and "\<not> pnDirty n"
  shows "refTree C n = refTree (\<lambda>_. None) n"
proof -
  have "allNodes (\<lambda>m. \<not> pnDirty m) n" using assms marksOk_clean by (auto simp: readyTree_def)
  with assms(1) have "allNodes (syncedNode C) n" by (auto simp: readyTree_def allNodes_iff)
  then show ?thesis by (rule refTree_synced)
qed

lemma refreshP_expr: "readyTree C n \<Longrightarrow> pnExpr (refreshP C n) = exprOf C n \<and> pnSourceHash (refreshP C n) = hashOf C n"
  by (cases "pnDirty n") (auto simp: refreshP_def readyTree_def syncedNode_def dest: allNodes_self)

lemma refreshP_path [simp]: "pnSourcePath (refreshP C n) = pnSourcePath n"
  by (simp add: refreshP_def)

lemma finish_reduced:
  assumes ready: "readyTree C n" and val: "freshVal C n = Ok v"
    and cs: "list_all2 (reducedTree C) (pnChildren n) cs'"
  shows "reducedTree C n (finishNode (refreshP C n) cs' v)"
proof -
  let ?n = "finishNode (refreshP C n) cs' v"
  have kids: "map (refTree (\<lambda>_. None)) cs' = map (refTree C) (pnChildren n)" "list_all (allNodes cachedOk) cs'"
    using cs by (auto simp: list_all2_conv_all_nth reducedTree_def list_all_length intro: nth_equalityI)
  have t: "refTree (\<lambda>_. None) ?n = refTree C n"
    using refreshP_expr [OF ready] kids(1) by (cases n) (auto simp: finishNode_def exprOf_def hashOf_def)
  have "storedVal ?n = Ok v" using storedVal_refTree [OF t] val by simp
  then have "cachedOk ?n" by (simp add: cachedOk_def finishNode_def)
  with t kids(2) show ?thesis by (simp add: reducedTree_def finishNode_def)
qed

lemma reduceP_correct:
  "readyTree C n \<Longrightarrow> reduceP C n z = (r, n', z') \<Longrightarrow>
     r = freshVal C n \<and> (\<forall>v. r = Ok v \<longrightarrow> reducedTree C n n')"
  "\<forall>c \<in> set cs. readyTree C c \<Longrightarrow> reducePs C cs rec z = (q, cs', z') \<Longrightarrow>
     q = freshRec C cs rec \<and> (\<forall>v. q = Ok v \<longrightarrow> list_all2 (reducedTree C) cs cs')"
proof (induction C n z and C cs rec z arbitrary: r n' z' and q cs' z' rule: reduceP_reducePs.induct)
  case (1 C n z)
  note ready = 1(5) and unf = reduceP.simps [of C n z]
  show ?case
  proof (cases "\<not> pnDirty n \<and> pnCached n \<noteq> VNil")
    case True
    then have rt: "refTree C n = refTree (\<lambda>_. None) n" using ready_clean [OF ready] by simp
    have "cachedOk n" using ready by (auto simp: readyTree_def dest: allNodes_self)
    with True have "storedVal n = Ok (pnCached n)" by (simp add: cachedOk_def)
    then have "freshVal C n = Ok (pnCached n)" using storedVal_refTree [OF rt [symmetric]] by simp
    with True 1(6) rt ready show ?thesis by (auto simp: unf reducedTree_def readyTree_def)
  next
    case False
    note e = refreshP_expr [OF ready, THEN conjunct1]
    have stable: "pnChildren n \<noteq> [] \<Longrightarrow> \<exists>hs. exprOf C n = ECompose hs"
      using ready by (auto simp: readyTree_def stableNode_def dest: allNodes_self)
    have other: ?thesis if "\<And>v. exprOf C n \<noteq> EConst v" "\<And>hs. exprOf C n \<noteq> ECompose hs"
    proof -
      have "pnChildren n = []" using stable that by blast
      with False 1(6) e that show ?thesis
        by (cases "exprOf C n") (auto simp: unf freshVal.simps)
    qed
    show ?thesis
    proof (cases "exprOf C n")
      case (EConst v)
      then have "pnChildren n = []" "freshVal C n = Ok v" using stable by (auto simp: freshVal.simps)
      with False 1(6) EConst e finish_reduced [OF ready] show ?thesis by (auto simp: unf)
    next
      case (ECompose hs)
      obtain q cs' z2 where p: "reducePs C (pnChildren n) [] (miss z) = (q, cs', z2)" by (metis surj_pair)
      have "\<forall>c \<in> set (pnChildren n). readyTree C c" using ready readyTree_child by blast
      then have q: "q = freshRec C (pnChildren n) []"
        "\<forall>v. q = Ok v \<longrightarrow> list_all2 (reducedTree C) (pnChildren n) cs'"
        using 1(2) [OF False _ _ p] e ECompose by auto
      have fv: "freshVal C n = bind_result q (\<lambda>rec. Ok (VRecord rec))"
        using ECompose q(1) by (simp add: freshVal.simps)
      with False 1(6) e ECompose p q(2) finish_reduced [OF ready] show ?thesis
        by (cases q) (auto simp: unf)
    qed (use other in simp_all)
  qed
next
  case (2 C rec z)
  then show ?case by auto
next
  case (3 C c cs rec z)
  obtain r c' z1 where p: "reduceP C c z = (r, c', z1)" by (metis surj_pair)
  have r: "r = freshVal C c" "\<forall>v. r = Ok v \<longrightarrow> reducedTree C c c'" using 3(1) [OF _ p] 3(3) by auto
  show ?case
  proof (cases r)
    case (Ok v)
    obtain q2 cs2 z2 where p2: "reducePs C cs (AList.update (pnSourcePath c) v rec) z1 = (q2, cs2, z2)"
      by (metis surj_pair)
    have "q2 = freshRec C cs (AList.update (pnSourcePath c) v rec) \<and>
        (\<forall>v. q2 = Ok v \<longrightarrow> list_all2 (reducedTree C) cs cs2)"
      using 3(2) [OF p [symmetric] refl Ok _ p2] 3(3) by simp
    with 3(4) p p2 Ok r show ?thesis by auto
  qed (use 3(4) p r in auto)
qed


section \<open>The invariant of a cached proof\<close>

text \<open>
  The index knows the position of every node (so no path occurs twice), the version vector
  has exactly the hashes of the nodes, every cached value is right, and the value of the
  proof is the value of its tree.
\<close>

definition proofOk :: "mproof \<Rightarrow> pnode \<Rightarrow> bool" where
  "proofOk pr root \<longleftrightarrow>
     mpRootNode pr = Some root \<and> allNodes cachedOk root \<and> storedVal root = Ok (mpValue pr) \<and>
     gomap_ok (mpVV pr) \<and>
     (\<forall>q n. nodeAt q root = Some n \<longrightarrow> pnSourcePath n \<noteq> [] \<and>
        map_of (mpPathToNode pr) (pnSourcePath n) = Some q \<and>
        map_of (mpVV pr) (pnSourcePath n) = Some (pnSourceHash n)) \<and>
     (\<forall>p pos. map_of (mpPathToNode pr) p = Some pos \<longrightarrow> nodeAt pos root \<noteq> None) \<and>
     fst ` set (mpVV pr) \<subseteq> set (treePaths root)"

text \<open>Equal hashes mean equal expressions, for the atoms of the tree and their successors.\<close>

definition faithful :: "(string \<Rightarrow> catom option) \<Rightarrow> pnode \<Rightarrow> bool" where
  "faithful C root \<longleftrightarrow> (\<forall>q n a. nodeAt q root = Some n \<longrightarrow> C (pnSourcePath n) = Some a \<longrightarrow>
     aHash a = pnSourceHash n \<longrightarrow> aExpr a = pnExpr n)"

definition changedPaths :: "(string \<Rightarrow> catom option) \<Rightarrow> (string, hash) gomap \<Rightarrow> string list" where
  "changedPaths C vv = map fst (filter (\<lambda>(p, h). map_option aHash (C p) \<noteq> Some h) vv)"

lemma changedPaths_iff:
  "gomap_ok vv \<Longrightarrow> p \<in> set (changedPaths C vv) \<longleftrightarrow>
     (\<exists>h. map_of vv p = Some h \<and> map_option aHash (C p) \<noteq> Some h)"
  by (force simp: changedPaths_def gomap_in_set [symmetric])

lemma markChanged_fold:
  "markChanged changed idx root =
     fold PropagateDirtyUp (List.map_filter (map_of idx) changed) (ResetDirty root)"
proof -
  have "fold (\<lambda>p t. case map_of idx p of Some pos \<Rightarrow> PropagateDirtyUp pos t | None \<Rightarrow> t) changed t =
      fold PropagateDirtyUp (List.map_filter (map_of idx) changed) t" for t
    by (induction changed arbitrary: t) (auto simp: List.map_filter_simps split: option.split)
  then show ?thesis by (simp add: markChanged_def)
qed

lemma nodeAt_ResetDirty: "nodeAt q (ResetDirty t) = None \<longleftrightarrow> nodeAt q t = None"
  by (rule nodeAt_stripped) simp

lemma proofOkD:
  assumes "proofOk pr root"
  shows "mpRootNode pr = Some root" and "allNodes cachedOk root" and "storedVal root = Ok (mpValue pr)"
    and "gomap_ok (mpVV pr)"
    and "nodeAt q root = Some n \<Longrightarrow> pnSourcePath n \<noteq> []"
    and "nodeAt q root = Some n \<Longrightarrow> map_of (mpPathToNode pr) (pnSourcePath n) = Some q"
    and "nodeAt q root = Some n \<Longrightarrow> map_of (mpVV pr) (pnSourcePath n) = Some (pnSourceHash n)"
    and "map_of (mpPathToNode pr) p = Some pos \<Longrightarrow> nodeAt pos root \<noteq> None"
    and "map_of (mpVV pr) p = Some h \<Longrightarrow> \<exists>q n. nodeAt q root = Some n \<and> pnSourcePath n = p"
  using assms by (auto simp: proofOk_def treePaths_set image_subset_iff dest!: map_of_SomeD, force+)

lemma nodeAt_strip_same:
  assumes "strip t = strip root" and "nodeAt q t = Some n"
  obtains m where "nodeAt q root = Some m" and "pnSourcePath m = pnSourcePath n"
    and "pnSourceHash m = pnSourceHash n" and "pnExpr m = pnExpr n"
proof -
  from assms have "nodeAt q (strip root) = Some (strip n)" by (metis nodeAt_strip option.simps(9))
  then obtain m where m: "nodeAt q root = Some m" "strip m = strip n" by (auto simp: nodeAt_strip)
  show ?thesis
    by (rule that [OF m(1)]) (metis m(2) strip_simps(4), metis m(2) strip_simps(3), metis m(2) strip_simps(1))
qed

lemma markChanged_props:
  fixes C :: "string \<Rightarrow> catom option"
  assumes ok: "proofOk pr root"
  defines "t \<equiv> markChanged (changedPaths C (mpVV pr)) (mpPathToNode pr) root"
  shows "strip t = strip root" and "marksOk t"
    and "nodeAt q t = Some n \<Longrightarrow> \<not> pnDirty n \<Longrightarrow>
      map_option aHash (C (pnSourcePath n)) = Some (pnSourceHash n)"
proof -
  let ?ps = "List.map_filter (map_of (mpPathToNode pr)) (changedPaths C (mpVV pr))"
  have ex: "\<forall>pos \<in> set ?ps. nodeAt pos (ResetDirty root) \<noteq> None"
    using ok by (auto simp: nodeAt_ResetDirty proofOk_def List.map_filter_def)
  note pa = propagate_all [OF marksOk_ResetDirty ex, folded markChanged_fold, folded t_def]
  from pa show st: "strip t = strip root" and "marksOk t" by auto
  show "map_option aHash (C (pnSourcePath n)) = Some (pnSourceHash n)"
    if n: "nodeAt q t = Some n" and clean: "\<not> pnDirty n"
  proof (rule ccontr)
    assume ch: "map_option aHash (C (pnSourcePath n)) \<noteq> Some (pnSourceHash n)"
    from nodeAt_strip_same [OF st n] obtain m where m: "nodeAt q root = Some m"
      "pnSourcePath m = pnSourcePath n" "pnSourceHash m = pnSourceHash n" by blast
    note d = proofOkD(6,7) [OF ok m(1)] and g = proofOkD(4) [OF ok]
    from d m have vv: "map_of (mpVV pr) (pnSourcePath n) = Some (pnSourceHash n)"
      and idx: "map_of (mpPathToNode pr) (pnSourcePath n) = Some q" by simp_all
    from ch vv g have "pnSourcePath n \<in> set (changedPaths C (mpVV pr))" by (simp add: changedPaths_iff)
    with idx have "q \<in> set ?ps" by (force simp: List.map_filter_def)
    with pa n clean show False by blast
  qed
qed

lemma exprOf_strip [simp]: "exprOf C (strip n) = exprOf C n"
  by (simp add: exprOf_def split: option.split)

lemma stableNode_strip: "stableNode C (strip n) = stableNode C n"
  by (simp add: stableNode_def)

lemma ready_markChanged:
  assumes ok: "proofOk pr root" and f: "faithful C root" and s: "allNodes (stableNode C) root"
  shows "readyTree C (markChanged (changedPaths C (mpVV pr)) (mpPathToNode pr) root)"
proof -
  let ?t = "markChanged (changedPaths C (mpVV pr)) (mpPathToNode pr) root"
  note mc = markChanged_props [OF ok, where C = C]
  have "syncedNode C n" if n: "nodeAt q ?t = Some n" and c: "\<not> pnDirty n" for q n
  proof -
    from mc(3) [OF n c] obtain a where a: "C (pnSourcePath n) = Some a" "aHash a = pnSourceHash n" by auto
    from nodeAt_strip_same [OF mc(1) n] obtain m where m: "nodeAt q root = Some m"
      "pnSourcePath m = pnSourcePath n" "pnSourceHash m = pnSourceHash n" "pnExpr m = pnExpr n" by blast
    with f m a have "aExpr a = pnExpr n" by (auto simp: faithful_def)
    with a show ?thesis by (simp add: syncedNode_def exprOf_def hashOf_def)
  qed
  moreover have "allNodes cachedOk ?t"
    using ok mc(1) allNodes_strip [of cachedOk, OF cachedOk_strip] by (metis proofOk_def)
  moreover have "allNodes (stableNode C) ?t"
    using s mc(1) allNodes_strip [of "stableNode C", OF stableNode_strip] by metis
  ultimately show ?thesis using mc(2) by (auto simp: readyTree_def allNodes_iff)
qed

lemma freshVal_strip: "strip n = strip m \<Longrightarrow> freshVal C n = freshVal C m"
  by (metis refTree_strip freshVal_refTree(1))

lemma fast_path_tree:
  assumes ok: "proofOk pr root" and f: "faithful C root" and v: "matches C (mpVV pr)"
  shows "refTree (\<lambda>_. None) root = refTree C root"
proof -
  have "syncedNode C n" if n: "nodeAt q root = Some n" for q n
  proof -
    from proofOkD(7) [OF ok n] have "(pnSourcePath n, pnSourceHash n) \<in> set (mpVV pr)"
      by (rule map_of_SomeD)
    with v obtain a where "C (pnSourcePath n) = Some a" "aHash a = pnSourceHash n"
      by (auto simp: matches_def list_all_iff)
    with f n show ?thesis by (auto simp: faithful_def syncedNode_def exprOf_def hashOf_def)
  qed
  then show ?thesis by (intro refTree_synced [symmetric]) (auto simp: allNodes_iff)
qed

lemma nodeAt_refTree: "nodeAt q (refTree C t) = map_option (refTree C) (nodeAt q t)"
  by (induction q t rule: nodeAt.induct) auto

lemma treePaths_refTree: "treePaths (refTree C t) = treePaths t"
proof (induction t rule: pnode_induct)
  case (Node e cs v d m mv h p)
  then have "map (treePaths \<circ> refTree C) cs = map treePaths cs" by simp
  then show ?case by (simp only: refTree.simps treePaths.simps map_map)
qed

text \<open>Re-establishing the invariant with a tree that was re-read.\<close>

lemma proofOk_reread:
  assumes ok: "proofOk pr root" and t: "refTree (\<lambda>_. None) root' = refTree C root"
    and c: "allNodes cachedOk root'" and p': "mpRootNode pr' = Some root'" "mpPathToNode pr' = mpPathToNode pr"
    and v: "freshVal C root = Ok (mpValue pr')" and g: "gomap_ok (mpVV pr')"
    and keys: "fst ` set (mpVV pr') \<subseteq> fst ` set (mpVV pr)"
    and vv: "\<And>q n. nodeAt q root = Some n \<Longrightarrow> map_of (mpVV pr') (pnSourcePath n) = Some (hashOf C n)"
  shows "proofOk pr' root'"
proof -
  have nodes: "\<exists>m. nodeAt q root = Some m \<and> pnSourcePath m = pnSourcePath n \<and> pnSourceHash n = hashOf C m"
    if "nodeAt q root' = Some n" for q n
  proof -
    have "nodeAt q (refTree C root) = Some (refTree (\<lambda>_. None) n)"
      using that t nodeAt_refTree [of q "\<lambda>_. None" root'] by simp
    then obtain m where "nodeAt q root = Some m" "refTree C m = refTree (\<lambda>_. None) n"
      by (auto simp: nodeAt_refTree)
    then show ?thesis by (metis refTree_simps(2,3) hashOf_None)
  qed
  have gone: "nodeAt q root' = None \<longleftrightarrow> nodeAt q root = None" for q
    using t nodeAt_refTree [of q "\<lambda>_. None" root'] nodeAt_refTree [of q C root] by (metis option.map_disc_iff)
  have tp: "treePaths root' = treePaths root" using t treePaths_refTree by metis
  have "pnSourcePath n \<noteq> [] \<and> map_of (mpPathToNode pr') (pnSourcePath n) = Some q \<and>
      map_of (mpVV pr') (pnSourcePath n) = Some (pnSourceHash n)" if "nodeAt q root' = Some n" for q n
    using nodes [OF that] proofOkD(5,6) [OF ok] vv p'(2) by metis
  moreover have "nodeAt pos root' \<noteq> None" if "map_of (mpPathToNode pr') p = Some pos" for p pos
    using that gone proofOkD(8) [OF ok] p'(2) by metis
  moreover have "fst ` set (mpVV pr) \<subseteq> set (treePaths root)" using ok by (simp add: proofOk_def)
  then have "fst ` set (mpVV pr') \<subseteq> set (treePaths root')" using order_trans [OF keys] by (simp add: tp)
  moreover have "storedVal root' = Ok (mpValue pr')" using storedVal_refTree [OF t] v by simp
  ultimately show ?thesis using c p'(1) g unfolding proofOk_def by blast
qed

definition liftInc :: "'a result \<Rightarrow> 'a result" where
  "liftInc r = (case r of Err e \<Rightarrow> Err (''incremental reduction: '' @ e) | _ \<Rightarrow> r)"

context engine_reads
begin

lemma refreshVV_props:
  assumes "inv s" and "gomap_ok vv" and "set ps \<subseteq> fst ` set vv"
  shows "map_of (refreshVV st now ps vv s) p =
      (case (if p \<in> set ps then cur now s p else None) of Some a \<Rightarrow> Some (aHash a) | None \<Rightarrow> map_of vv p)"
    and "gomap_ok (refreshVV st now ps vv s)"
    and "fst ` set (refreshVV st now ps vv s) = fst ` set vv"
proof -
  have "map_of (refreshVV st now ps vv s) p =
      (case (if p \<in> set ps then cur now s p else None) of Some a \<Rightarrow> Some (aHash a) | None \<Rightarrow> map_of vv p) \<and>
    gomap_ok (refreshVV st now ps vv s) \<and> fst ` set (refreshVV st now ps vv s) = fst ` set vv"
    using assms(2,3)
  proof (induction ps arbitrary: vv)
    case Nil
    then show ?case by simp
  next
    case (Cons q ps)
    let ?vv = "case sGetCurrentHash st now q s of Some h \<Rightarrow> AList.update q h vv | None \<Rightarrow> vv"
    have k: "fst ` set ?vv = fst ` set vv" and g: "gomap_ok ?vv"
      using Cons.prems by (auto simp: dom_map_of_conv_image_fst [symmetric] update_conv' split: option.split)
    from Cons.IH [OF g] Cons.prems k show ?case
      by (auto simp: GetCurrentHash_cur [OF assms(1)] gomap split: option.splits if_splits)
  qed
  then show "map_of (refreshVV st now ps vv s) p =
      (case (if p \<in> set ps then cur now s p else None) of Some a \<Rightarrow> Some (aHash a) | None \<Rightarrow> map_of vv p)"
    and "gomap_ok (refreshVV st now ps vv s)"
    and "fst ` set (refreshVV st now ps vv s) = fst ` set vv" by auto
qed

lemma FindChanged_changedPaths: "inv s \<Longrightarrow> sFindChangedPaths st now vv s = changedPaths (cur now s) vv"
  by (simp add: FindChanged_cur changedPaths_def)

lemma ReduceIncremental_spec:
  assumes inv: "inv s" and ok: "proofOk pr root" and f: "faithful (cur now s) root"
    and stable: "allNodes (stableNode (cur now s)) root"
  shows "\<exists>pr' s'. ReduceIncremental E st now k pr s = (liftInc (freshVal (cur now s) root), pr', s') \<and>
    same s s' \<and>
    (\<forall>v. freshVal (cur now s) root = Ok v \<longrightarrow> mpValue pr' = v \<and>
       (\<exists>root'. proofOk pr' root' \<and> refTree (\<lambda>_. None) root' = refTree (cur now s) root))"
proof (cases "sVerifyVersionVector st now (mpVV pr) s")
  case True
  let ?pr = "pr\<lparr>mpStats := zeroStats, mpAccessCount := mpAccessCount pr + 1, mpLastVerifiedAt := UnixNano now\<rparr>"
  from True inv have m: "matches (cur now s) (mpVV pr)" by (simp add: Verify_cur)
  note t = fast_path_tree [OF ok f m]
  have v: "freshVal (cur now s) root = Ok (mpValue pr)" using storedVal_refTree [OF t] proofOkD(3) [OF ok] by simp
  have "proofOk ?pr root" using ok by (simp add: proofOk_def)
  with True t v inv show ?thesis by (auto simp: ReduceIncremental_def liftInc_def same_def)
next
  case False
  let ?C = "cur now s"
  let ?ch = "changedPaths ?C (mpVV pr)" and ?z = "zeroStats\<lparr>rsChangedPaths := length (changedPaths ?C (mpVV pr))\<rparr>"
  let ?t = "markChanged ?ch (mpPathToNode pr) root"
  note ready = ready_markChanged [OF ok f stable]
  obtain r n' z where p: "reduceP ?C ?t ?z = (r, n', z)" by (metis surj_pair)
  obtain s' where d: "reduceDirty st now ?t s ?z = (r, n', s', z)" and s': "same s s'"
    using reduceDirty_P(1) [OF inv refl, of now ?t ?z] p by auto
  note rc = reduceP_correct(1) [OF ready p]
  have str: "strip ?t = strip root" by (rule markChanged_props(1) [OF ok])
  have fv: "freshVal ?C ?t = freshVal ?C root" by (rule freshVal_strip [OF str])
  have rt: "refTree ?C ?t = refTree ?C root" by (metis str refTree_strip)
  note unf = ReduceIncremental_def FindChanged_changedPaths [OF inv] proofOkD(1) [OF ok] Let_def
  show ?thesis
  proof (cases r)
    case (Ok v)
    let ?root = "snd (ComputeMerkleRoot E n')"
    let ?pr = "pr\<lparr>mpRootNode := Some ?root, mpStats := z, mpValue := v,
      mpVV := refreshVV st now ?ch (mpVV pr) s', mpLastVerifiedAt := UnixNano now,
      mpAccessCount := mpAccessCount pr + 1\<rparr>"
    have inv': "inv s'" "cur now s' = ?C" using s' by (auto simp: same_def)
    have sub: "set ?ch \<subseteq> fst ` set (mpVV pr)" by (auto simp: changedPaths_def)
    note vv = refreshVV_props [OF inv'(1) proofOkD(4) [OF ok] sub, of now]
    have t': "refTree (\<lambda>_. None) ?root = refTree ?C root" "allNodes cachedOk ?root"
      using rc Ok rt refTree_strip strip_ComputeMerkleRoot allNodes_strip [of cachedOk, OF cachedOk_strip]
      by (metis reducedTree_def)+
    have hash: "map_of (refreshVV st now ?ch (mpVV pr) s') (pnSourcePath n) = Some (hashOf ?C n)"
      if "nodeAt q root = Some n" for q n
      using proofOkD(5,7) [OF ok that] changedPaths_iff [OF proofOkD(4) [OF ok], of "pnSourcePath n" ?C]
      by (auto simp: vv(1) inv'(2) hashOf_def split: option.splits)
    have "proofOk ?pr ?root"
      by (rule proofOk_reread [OF ok t']) (use vv rc Ok fv hash in auto)
    moreover have "ReduceIncremental E st now k pr s = (Ok v, ?pr, s')"
      using False d Ok by (simp add: unf)
    moreover have "freshVal ?C root = Ok v" using rc Ok fv by simp
    ultimately show ?thesis using s' t' by (auto simp: liftInc_def)
  qed (use False d s' rc fv in \<open>auto simp: unf liftInc_def\<close>)
qed

end

end
