(* ===== verification/Table.thy ===== *)
theory Table
  imports Core
begin

text \<open>
  The table that both frontier caches keep (the fields \<open>entries\<close>, \<open>hashToPath\<close>,
  \<open>lruList\<close>, \<open>lruNodes\<close> and the byte count of \<open>FrontierCache\<close> and of one
  \<open>frontierShard\<close>), with the four ways the code changes it: replacing the entry of a
  path, dropping the least recently used entry, dropping an expired entry, and moving a
  path to the front of the LRU list.

  \<open>lruNodes\<close> maps a path to its list element.  An element is identified by the path it
  holds, so \<open>lruNodes[path]\<close> exists exactly when the path is in \<open>tLru\<close>.
\<close>

record tab =
  tEntries :: "(string, catom) gomap"
  tHashToPath :: "(hash, string) gomap"
  tLru :: "string list"
  tBytes :: int

definition emptyTab :: tab where
  "emptyTab = \<lparr>tEntries = [], tHashToPath = [], tLru = [], tBytes = 0\<rparr>"

text \<open>\<open>estimateAtomBytes\<close> of \<open>frontier_cache.go\<close>.\<close>

definition estimateAtomBytes :: "string \<Rightarrow> catom \<Rightarrow> int" where
  "estimateAtomBytes path a =
     220 + int (length path) +
     (case aExpr a of
        EConst v \<Rightarrow>
          (case v of
             VString s \<Rightarrow> 16 + int (length s)
           | VBytes s \<Rightarrow> 24 + int (length s)
           | _ \<Rightarrow> 16)
      | _ \<Rightarrow> 48)"

text \<open>
  The atom that both caches mint in \<open>AppendAtom\<close>: no parents, no nonce, the zero values of
  the other fields, hashed last.
\<close>

definition mintAtom :: "ext \<Rightarrow> expr \<Rightarrow> string \<Rightarrow> uint64 \<Rightarrow> gotime \<Rightarrow> gotime \<Rightarrow> catom" where
  "mintAtom E e path clk now expiresAt =
     (let a = \<lparr>aHash = 0, aExpr = e, aCausalPast = [], aCausalDepth = 0,
               aDomain = DomainUser, aLogicalClock = clk, aPhysicalTime = now,
               aNonce = 0, aBranchID = 0, aPath = path, aExpiresAt = expiresAt\<rparr>
      in a\<lparr>aHash := ComputeHash E a\<rparr>)"

text \<open>The branch of \<open>AppendAtom\<close> for a path that is already there.\<close>

definition tabUnlink :: "string \<Rightarrow> catom \<Rightarrow> tab \<Rightarrow> tab" where
  "tabUnlink path old t =
     t\<lparr>tHashToPath := AList.delete (aHash old) (tHashToPath t),
       tBytes := tBytes t - estimateAtomBytes path old,
       tLru := removeElem path (tLru t)\<rparr>"

text \<open>The stores that follow it.\<close>

definition tabPut :: "string \<Rightarrow> catom \<Rightarrow> tab \<Rightarrow> tab" where
  "tabPut path a t =
     t\<lparr>tEntries := AList.update path a (tEntries t),
       tHashToPath := AList.update (aHash a) path (tHashToPath t),
       tBytes := tBytes t + estimateAtomBytes path a,
       tLru := path # tLru t\<rparr>"

definition tabWrite :: "string \<Rightarrow> catom \<Rightarrow> tab \<Rightarrow> tab" where
  "tabWrite path a t =
     tabPut path a
       (case map_of (tEntries t) path of None \<Rightarrow> t | Some old \<Rightarrow> tabUnlink path old t)"

text \<open>One round of the eviction loops: drop the element at the back of the LRU list.\<close>

definition tabEvictBack :: "tab \<Rightarrow> tab" where
  "tabEvictBack t =
     (let p = last (tLru t); t1 = t\<lparr>tLru := butlast (tLru t)\<rparr> in
      case map_of (tEntries t) p of
        None \<Rightarrow> t1
      | Some ev \<Rightarrow>
          t1\<lparr>tHashToPath := AList.delete (aHash ev) (tHashToPath t),
             tEntries := AList.delete p (tEntries t),
             tBytes := tBytes t - estimateAtomBytes p ev\<rparr>)"

text \<open>Dropping one entry, as the TTL sweeps do.\<close>

definition tabDrop :: "string \<Rightarrow> catom \<Rightarrow> tab \<Rightarrow> tab" where
  "tabDrop path a t =
     t\<lparr>tHashToPath := AList.delete (aHash a) (tHashToPath t),
       tEntries := AList.delete path (tEntries t),
       tLru := removeElem path (tLru t),
       tBytes := tBytes t - estimateAtomBytes path a\<rparr>"

definition tabTouch :: "string \<Rightarrow> tab \<Rightarrow> tab" where
  "tabTouch path t = t\<lparr>tLru := moveToFront path (tLru t)\<rparr>"

text \<open>The entry of a path as a reader at time \<open>now\<close> sees it.\<close>

definition tabLive :: "gotime \<Rightarrow> tab \<Rightarrow> string \<Rightarrow> catom option" where
  "tabLive now t path =
     (case map_of (tEntries t) path of
        None \<Rightarrow> None
      | Some a \<Rightarrow> if expired now (aExpiresAt a) then None else Some a)"

section \<open>The table invariant\<close>

text \<open>
  The indexes agree: the LRU list holds exactly the stored paths, once each; the byte count
  is the sum of the estimates; every stored atom carries its own path; and whatever the
  reverse index returns is the hash of the atom stored there.
\<close>

definition tab_ok :: "tab \<Rightarrow> bool" where
  "tab_ok t \<longleftrightarrow>
     gomap_ok (tEntries t) \<and> gomap_ok (tHashToPath t) \<and>
     distinct (tLru t) \<and> set (tLru t) = fst ` set (tEntries t) \<and>
     tBytes t = weight estimateAtomBytes (tEntries t) \<and>
     (\<forall>p a. map_of (tEntries t) p = Some a \<longrightarrow> aPath a = p) \<and>
     (\<forall>h p. map_of (tHashToPath t) h = Some p \<longrightarrow>
        (\<exists>a. map_of (tEntries t) p = Some a \<and> aHash a = h))"

lemma tab_okD:
  assumes "tab_ok t"
  shows "gomap_ok (tEntries t)" and "gomap_ok (tHashToPath t)"
    and "distinct (tLru t)" and "set (tLru t) = fst ` set (tEntries t)"
    and "tBytes t = weight estimateAtomBytes (tEntries t)"
    and "map_of (tEntries t) p = Some a \<Longrightarrow> aPath a = p"
    and "map_of (tHashToPath t) h = Some q \<Longrightarrow>
      \<exists>a. map_of (tEntries t) q = Some a \<and> aHash a = h"
  using assms by (auto simp: tab_ok_def)

lemma estimateAtomBytes_pos [simp]: "0 < estimateAtomBytes path a"
  by (simp add: estimateAtomBytes_def split: expr.split Value.split)

lemma tab_ok_empty [simp]: "tab_ok emptyTab"
  by (simp add: tab_ok_def emptyTab_def)

lemma tab_bytes_nonneg: "tab_ok t \<Longrightarrow> 0 \<le> tBytes t"
  by (simp add: tab_ok_def weight_nonneg less_imp_le)

lemma tab_bytes_pos: "tab_ok t \<Longrightarrow> tLru t \<noteq> [] \<Longrightarrow> 0 < tBytes t"
  by (auto simp: tab_ok_def intro!: weight_pos)

lemma tab_empty_bytes: "tab_ok t \<Longrightarrow> tLru t = [] \<Longrightarrow> tBytes t = 0"
  by (simp add: tab_ok_def)

lemma tab_lru_mem: "tab_ok t \<Longrightarrow> p \<in> set (tLru t) \<longleftrightarrow> map_of (tEntries t) p \<noteq> None"
  by (simp add: tab_ok_def map_of_eq_None_iff)

lemma mintAtom_simps [simp]:
  "aExpr (mintAtom E e path clk now x) = e"
  "aPath (mintAtom E e path clk now x) = path"
  "aLogicalClock (mintAtom E e path clk now x) = clk"
  "aPhysicalTime (mintAtom E e path clk now x) = now"
  "aExpiresAt (mintAtom E e path clk now x) = x"
  "aCausalPast (mintAtom E e path clk now x) = []"
  by (simp_all add: mintAtom_def Let_def)

lemma keys_update: "fst ` set (AList.update k v m) = insert k (fst ` set m)"
  by (simp add: dom_map_of_conv_image_fst [symmetric] update_conv')

text \<open>Dropping the entry of a path that is there: common part of eviction and sweep.\<close>

lemma tab_ok_drop:
  assumes ok: "tab_ok t" and e: "map_of (tEntries t) path = Some a"
  shows "tab_ok (tabDrop path a t)"
proof -
  note d = tab_okD [OF ok]
  have idx: "\<exists>b. map_of (tEntries (tabDrop path a t)) q = Some b \<and> aHash b = h"
    if "map_of (tHashToPath (tabDrop path a t)) h = Some q" for h q
  proof -
    from that have h: "h \<noteq> aHash a" and "map_of (tHashToPath t) h = Some q"
      by (auto simp: tabDrop_def gomap split: if_splits)
    then obtain b where b: "map_of (tEntries t) q = Some b" "aHash b = h" using d(7) by blast
    with e h have "q \<noteq> path" by auto
    with b show ?thesis by (simp add: tabDrop_def gomap)
  qed
  have w: "tBytes (tabDrop path a t) = weight estimateAtomBytes (tEntries (tabDrop path a t))"
    using d(1,5) e by (simp add: tabDrop_def weight_delete)
  show ?thesis
    unfolding tab_ok_def
    using d(1-4,6) w idx by (auto simp: tabDrop_def gomap split: if_splits)
qed

lemma tabEvictBack_eq:
  assumes ok: "tab_ok t" and ne: "tLru t \<noteq> []"
  obtains a where "map_of (tEntries t) (last (tLru t)) = Some a"
    and "tabEvictBack t = tabDrop (last (tLru t)) a t"
proof -
  from ok ne have "map_of (tEntries t) (last (tLru t)) \<noteq> None"
    using tab_lru_mem [OF ok, of "last (tLru t)"] by simp
  then obtain a where a: "map_of (tEntries t) (last (tLru t)) = Some a" by blast
  moreover from a have "tabEvictBack t = tabDrop (last (tLru t)) a t"
    using removeElem_last [OF tab_okD(3) [OF ok] ne]
    by (simp add: tabEvictBack_def tabDrop_def Let_def)
  ultimately show ?thesis by (rule that)
qed

lemma tab_ok_evictBack: "tab_ok t \<Longrightarrow> tLru t \<noteq> [] \<Longrightarrow> tab_ok (tabEvictBack t)"
  by (metis tabEvictBack_eq tab_ok_drop)

lemma tLru_evictBack [simp]: "tLru (tabEvictBack t) = butlast (tLru t)"
  by (simp add: tabEvictBack_def Let_def split: option.split)

lemma tab_ok_touch: "tab_ok t \<Longrightarrow> tab_ok (tabTouch path t)"
  by (simp add: tab_ok_def tabTouch_def)

lemma tabTouch_simps [simp]:
  "tEntries (tabTouch p t) = tEntries t"
  "tBytes (tabTouch p t) = tBytes t"
  "tHashToPath (tabTouch p t) = tHashToPath t"
  by (simp_all add: tabTouch_def)

lemma tabWrite_simps [simp]:
  "tEntries (tabWrite path a t) = AList.update path a (tEntries t)"
  "tLru (tabWrite path a t) =
     path # (if map_of (tEntries t) path = None then tLru t else removeElem path (tLru t))"
  by (simp_all add: tabWrite_def tabPut_def tabUnlink_def split: option.split)

lemma tabWrite_bytes:
  "tBytes (tabWrite path a t) = tBytes t + estimateAtomBytes path a -
     (case map_of (tEntries t) path of None \<Rightarrow> 0 | Some old \<Rightarrow> estimateAtomBytes path old)"
  by (simp add: tabWrite_def tabPut_def tabUnlink_def split: option.split)

lemma tabWrite_index:
  "map_of (tHashToPath (tabWrite path a t)) h =
     (if h = aHash a then Some path
      else case map_of (tEntries t) path of
        None \<Rightarrow> map_of (tHashToPath t) h
      | Some old \<Rightarrow> if h = aHash old then None else map_of (tHashToPath t) h)"
  by (simp add: tabWrite_def tabPut_def tabUnlink_def gomap split: option.split)

lemma tab_ok_write:
  assumes ok: "tab_ok t" and p: "aPath a = path"
  shows "tab_ok (tabWrite path a t)"
proof -
  note d = tab_okD [OF ok]
  have idx: "\<exists>b. map_of (tEntries (tabWrite path a t)) q = Some b \<and> aHash b = h"
    if h: "map_of (tHashToPath (tabWrite path a t)) h = Some q" for h q
  proof (cases "h = aHash a")
    case True
    with h show ?thesis by (simp add: tabWrite_index gomap)
  next
    case False
    with h have old: "map_of (tHashToPath t) h = Some q"
      and no: "\<And>b. map_of (tEntries t) path = Some b \<Longrightarrow> aHash b \<noteq> h"
      by (auto simp: tabWrite_index split: option.splits if_splits)
    from d(7) [OF old] obtain b where b: "map_of (tEntries t) q = Some b" "aHash b = h"
      by blast
    with no have "q \<noteq> path" by auto
    with b show ?thesis by (simp add: gomap)
  qed
  have w: "tBytes (tabWrite path a t) = weight estimateAtomBytes (tEntries (tabWrite path a t))"
  proof (cases "map_of (tEntries t) path")
    case None
    with d(5) show ?thesis by (simp add: tabWrite_bytes weight_update_fresh)
  next
    case (Some old)
    with d(1,5) show ?thesis by (simp add: tabWrite_bytes weight_update)
  qed
  have lru: "distinct (tLru (tabWrite path a t))"
    "set (tLru (tabWrite path a t)) = fst ` set (tEntries (tabWrite path a t))"
    using d(3,4) by (auto simp: map_of_eq_None_iff keys_update simp del: split_paired_All)
  have h2p: "gomap_ok (tHashToPath (tabWrite path a t))"
    using d(2) by (simp add: tabWrite_def tabPut_def tabUnlink_def split: option.split)
  show ?thesis
    unfolding tab_ok_def
    using d(1,6) h2p lru w idx p by (auto simp: gomap split: if_splits)
qed

text \<open>Sweeping a list of entries that are all present drops exactly them.\<close>

lemma tab_ok_drops:
  assumes "tab_ok t" and "distinct (map fst es)"
    and "\<And>p a. (p, a) \<in> set es \<Longrightarrow> map_of (tEntries t) p = Some a"
  shows "tab_ok (fold (\<lambda>(p, a). tabDrop p a) es t) \<and>
    (\<forall>q. map_of (tEntries (fold (\<lambda>(p, a). tabDrop p a) es t)) q =
       (if q \<in> fst ` set es then None else map_of (tEntries t) q))"
  using assms
proof (induction es arbitrary: t)
  case Nil
  then show ?case by simp
next
  case (Cons e es)
  obtain p a where e: "e = (p, a)" by (cases e)
  from Cons.prems e have ok: "tab_ok (tabDrop p a t)" by (intro tab_ok_drop) auto
  have rest: "\<And>q b. (q, b) \<in> set es \<Longrightarrow> map_of (tEntries (tabDrop p a t)) q = Some b"
    using Cons.prems e by (force simp: tabDrop_def gomap)
  from Cons.IH [OF ok _ rest] Cons.prems(2) show ?case
    by (auto simp: e tabDrop_def gomap)
qed

end
