(* ===== verification/Frontier.thy ===== *)
theory Frontier
  imports Table Store
begin

text \<open>
  \<open>storage/frontier_cache.go\<close>: the single-lock frontier cache.  One table of
  \<^theory_text>\<open>Table\<close> under one mutex, a clock, and a memory limit.  Each operation below is
  the body that runs while the mutex is held; \<open>sweepExpired\<close> takes the mutex twice per tick
  and is therefore two operations, between which others may run.

  Byte counts are \<open>int\<close>: they are sums of sizes of live objects, far from \<open>2^63\<close>.
  After \<open>Close\<close> the maps are nil: reads find nothing and a write panics.
\<close>

record frontier_cache =
  fcTab :: tab
  fcClock :: uint64
  fcMax :: int
  fcClosed :: bool

definition fourGB :: int where "fourGB = 4 * 1024 * 1024 * 1024"

definition NewFrontierCacheWithLimit :: "int \<Rightarrow> frontier_cache" where
  "NewFrontierCacheWithLimit maxBytes =
     \<lparr>fcTab = emptyTab, fcClock = 0,
      fcMax = (if maxBytes \<le> 0 then fourGB else maxBytes), fcClosed = False\<rparr>"

text \<open>\<open>parseMemoryString\<close>; the final product is an int64 product and wraps.\<close>

definition mulInt64 :: "int \<Rightarrow> int \<Rightarrow> int" where
  "mulInt64 a b = sint (of_int (a * b) :: int64)"

definition parseMemoryString :: "ext \<Rightarrow> string \<Rightarrow> int option" where
  "parseMemoryString E s0 =
     (let s = TrimSpace E (ToUpper E s0) in
      if s = [] then Some 0
      else
        let (multiplier, valStr) =
          (if HasSuffix s ''TB'' \<or> HasSuffix s ''T'' then
             (1024 * 1024 * 1024 * 1024, TrimRight s ''TB'')
           else if HasSuffix s ''GB'' \<or> HasSuffix s ''G'' then
             (1024 * 1024 * 1024, TrimRight s ''GB'')
           else if HasSuffix s ''MB'' \<or> HasSuffix s ''M'' then
             (1024 * 1024, TrimRight s ''MB'')
           else if HasSuffix s ''KB'' \<or> HasSuffix s ''K'' then
             (1024, TrimRight s ''KB'')
           else if HasSuffix s ''B'' then (1, TrimRight s ''B'')
           else (1, s))
        in case ParseInt (TrimSpace E valStr) of
             None \<Rightarrow> None
           | Some val \<Rightarrow> Some (mulInt64 val multiplier))"

text \<open>\<open>NewFrontierCache\<close>, given the value of \<open>WAVICLE_MAX_MEMORY\<close> (empty when unset).\<close>

definition envLimit :: "ext \<Rightarrow> string \<Rightarrow> int" where
  "envLimit E v =
     (if v \<noteq> [] then
        case parseMemoryString E v of
          Some parsed \<Rightarrow> if parsed > 0 then parsed else fourGB
        | None \<Rightarrow> fourGB
      else fourGB)"

definition NewFrontierCache :: "ext \<Rightarrow> string \<Rightarrow> frontier_cache" where
  "NewFrontierCache E v = NewFrontierCacheWithLimit (envLimit E v)"

text \<open>The eviction loop of \<open>AppendAtom\<close>.\<close>

function tabEvictTo :: "int \<Rightarrow> tab \<Rightarrow> tab" where
  "tabEvictTo target t =
     (if tBytes t > target \<and> tLru t \<noteq> [] then tabEvictTo target (tabEvictBack t) else t)"
  by auto
termination by (relation "measure (\<lambda>(_, t). length (tLru t))") auto

declare tabEvictTo.simps [simp del]

definition ceiling90 :: "int \<Rightarrow> int" where
  "ceiling90 m = int (f64scale f64_090 (nat m))"

definition target80 :: "int \<Rightarrow> int" where
  "target80 m = int (f64scale f64_080 (nat m))"

definition fcAppendAtom ::
    "ext \<Rightarrow> gotime \<Rightarrow> expr \<Rightarrow> string \<Rightarrow> hash list \<Rightarrow> gotime \<Rightarrow> frontier_cache
      \<Rightarrow> hash result \<times> frontier_cache" where
  "fcAppendAtom E now e path parents expiresAt f =
     (if fcClosed f then (Panic, f)
      else
        let clk = fcClock f + 1;
            a = mintAtom E e path clk now expiresAt;
            t = tabWrite path a (fcTab f);
            t' = (if fcMax f > 0 \<and> tBytes t \<ge> ceiling90 (fcMax f)
                  then tabEvictTo (target80 (fcMax f)) t else t)
        in (Ok (aHash a), f\<lparr>fcTab := t', fcClock := clk\<rparr>))"

definition fcGetCurrent ::
    "gotime \<Rightarrow> string \<Rightarrow> frontier_cache \<Rightarrow> catom option \<times> frontier_cache" where
  "fcGetCurrent now path f =
     (case map_of (tEntries (fcTab f)) path of
        None \<Rightarrow> (None, f)
      | Some a \<Rightarrow>
          if expired now (aExpiresAt a) then (None, f)
          else (Some a, f\<lparr>fcTab := tabTouch path (fcTab f)\<rparr>))"

definition fcGetAtom :: "gotime \<Rightarrow> hash \<Rightarrow> frontier_cache \<Rightarrow> catom option" where
  "fcGetAtom now h f =
     (case map_of (tHashToPath (fcTab f)) h of
        None \<Rightarrow> None
      | Some path \<Rightarrow>
          (case map_of (tEntries (fcTab f)) path of
             None \<Rightarrow> None
           | Some a \<Rightarrow> if expired now (aExpiresAt a) then None else Some a))"

definition fcGetParents :: "hash \<Rightarrow> frontier_cache \<Rightarrow> hash list option" where
  "fcGetParents h f = None"

definition fcFrontierPaths :: "gotime \<Rightarrow> frontier_cache \<Rightarrow> string list" where
  "fcFrontierPaths now f =
     map fst (filter (\<lambda>(p, a). IsZeroTime (aExpiresAt a) \<or> aExpiresAt a > now)
                (tEntries (fcTab f)))"

text \<open>The test that \<open>VerifyVersionVector\<close> and \<open>FindChangedPaths\<close> make of one entry.\<close>

definition tabStale :: "gotime \<Rightarrow> tab \<Rightarrow> string \<Rightarrow> hash \<Rightarrow> bool" where
  "tabStale now t path expectedHash =
     (case map_of (tEntries t) path of
        None \<Rightarrow> True
      | Some a \<Rightarrow> aHash a \<noteq> expectedHash \<or> expired now (aExpiresAt a))"

definition fcVerifyVersionVector :: "gotime \<Rightarrow> (string, hash) gomap \<Rightarrow> frontier_cache \<Rightarrow> bool" where
  "fcVerifyVersionVector now vv f = list_all (\<lambda>(p, h). \<not> tabStale now (fcTab f) p h) vv"

definition fcGetCurrentHash :: "gotime \<Rightarrow> string \<Rightarrow> frontier_cache \<Rightarrow> hash option" where
  "fcGetCurrentHash now path f =
     (case map_of (tEntries (fcTab f)) path of
        None \<Rightarrow> None
      | Some a \<Rightarrow> if expired now (aExpiresAt a) then None else Some (aHash a))"

definition fcFindChangedPaths ::
    "gotime \<Rightarrow> (string, hash) gomap \<Rightarrow> frontier_cache \<Rightarrow> string list" where
  "fcFindChangedPaths now vv f = map fst (filter (\<lambda>(p, h). tabStale now (fcTab f) p h) vv)"

text \<open>The read-locked and the write-locked half of one \<open>sweepExpired\<close> tick.\<close>

definition fcSweepCollect :: "gotime \<Rightarrow> frontier_cache \<Rightarrow> (string \<times> hash) list" where
  "fcSweepCollect now f =
     map (\<lambda>(p, a). (p, aHash a))
       (filter (\<lambda>(p, a). expired now (aExpiresAt a)) (tEntries (fcTab f)))"

definition tabSweepOne :: "string \<times> hash \<Rightarrow> tab \<Rightarrow> tab" where
  "tabSweepOne e t =
     (case map_of (tEntries t) (fst e) of
        None \<Rightarrow> t
      | Some current \<Rightarrow>
          if aHash current = snd e
          then (tabDrop (fst e) current t)\<lparr>tHashToPath := AList.delete (snd e) (tHashToPath t)\<rparr>
          else t)"

definition fcSweepApply :: "(string \<times> hash) list \<Rightarrow> frontier_cache \<Rightarrow> frontier_cache" where
  "fcSweepApply es f = f\<lparr>fcTab := fold tabSweepOne es (fcTab f)\<rparr>"

definition fcCurrentBytes :: "frontier_cache \<Rightarrow> int" where
  "fcCurrentBytes f = tBytes (fcTab f)"

definition fcMaxMemoryBytes :: "frontier_cache \<Rightarrow> int" where
  "fcMaxMemoryBytes f = fcMax f"

text \<open>\<open>Close\<close>: closing the channel a second time panics.\<close>

definition fcClose :: "frontier_cache \<Rightarrow> unit result \<times> frontier_cache" where
  "fcClose f =
     (if fcClosed f then (Panic, f) else (Ok (), f\<lparr>fcTab := emptyTab, fcClosed := True\<rparr>))"

section \<open>Eviction\<close>

lemma tabEvictTo_step:
  "target < tBytes t \<Longrightarrow> tLru t \<noteq> [] \<Longrightarrow>
    tabEvictTo target t = tabEvictTo target (tabEvictBack t)"
  by (rule trans [OF tabEvictTo.simps]) simp

lemma tabEvictTo_stop: "\<not> (target < tBytes t \<and> tLru t \<noteq> []) \<Longrightarrow> tabEvictTo target t = t"
  by (rule trans [OF tabEvictTo.simps]) (rule if_not_P)

lemma tabEvictTo_ok: "tab_ok t \<Longrightarrow> tab_ok (tabEvictTo target t)"
proof (induction target t rule: tabEvictTo.induct)
  case (1 target t)
  then show ?case
    by (cases "target < tBytes t \<and> tLru t \<noteq> []")
      (auto simp: tabEvictTo_step tabEvictTo_stop tab_ok_evictBack)
qed

lemma tabEvictTo_bytes: "tab_ok t \<Longrightarrow> 0 \<le> target \<Longrightarrow> tBytes (tabEvictTo target t) \<le> target"
proof (induction target t rule: tabEvictTo.induct)
  case (1 target t)
  show ?case
  proof (cases "tBytes t > target \<and> tLru t \<noteq> []")
    case True
    with 1 show ?thesis by (simp add: tabEvictTo_step tab_ok_evictBack)
  next
    case False
    have "tLru t = [] \<Longrightarrow> tBytes t = 0"
      using 1(2) by (simp add: tab_ok_def)
    with False 1(3) show ?thesis unfolding tabEvictTo_stop [OF False] by linarith
  qed
qed

lemma last_notin_butlast: "distinct xs \<Longrightarrow> xs \<noteq> [] \<Longrightarrow> last xs \<notin> set (butlast xs)"
  by (induction xs rule: rev_induct) auto

text \<open>
  Eviction takes a suffix of the LRU list: what is left is a prefix of it, with the entries
  of exactly those paths.
\<close>

lemma tabEvictTo_lru:
  "tab_ok t \<Longrightarrow> \<exists>n. tLru (tabEvictTo target t) = take n (tLru t) \<and>
     (\<forall>p. map_of (tEntries (tabEvictTo target t)) p =
        (if p \<in> set (take n (tLru t)) then map_of (tEntries t) p else None))"
proof (induction target t rule: tabEvictTo.induct)
  case (1 target t)
  show ?case
  proof (cases "tBytes t > target \<and> tLru t \<noteq> []")
    case True
    obtain a where a: "map_of (tEntries t) (last (tLru t)) = Some a"
      "tabEvictBack t = tabDrop (last (tLru t)) a t"
      using tabEvictBack_eq [OF 1(2)] True by blast
    obtain n where n: "tLru (tabEvictTo target (tabEvictBack t)) = take n (butlast (tLru t))"
      "\<And>p. map_of (tEntries (tabEvictTo target (tabEvictBack t))) p =
        (if p \<in> set (take n (butlast (tLru t))) then map_of (tEntries (tabEvictBack t)) p else None)"
      using 1(1) [OF True tab_ok_evictBack [OF 1(2)]] True by auto
    let ?m = "min n (length (tLru t) - 1)"
    have t: "take n (butlast (tLru t)) = take ?m (tLru t)"
      by (simp add: butlast_conv_take)
    have l: "last (tLru t) \<notin> set (take n (butlast (tLru t)))"
      using last_notin_butlast [OF tab_okD(3) [OF 1(2)]] True by (meson in_set_takeD)
    have e: "tabEvictTo target t = tabEvictTo target (tabEvictBack t)"
      using True by (simp add: tabEvictTo_step)
    have b: "map_of (tEntries (tabEvictBack t)) p =
        (if p = last (tLru t) then None else map_of (tEntries t) p)" for p
      by (simp add: a(2)) (simp add: tabDrop_def gomap)
    show ?thesis
      unfolding e using n l b unfolding t by (intro exI [of _ ?m]) auto
  next
    case False
    then have e: "tabEvictTo target t = t" by (rule tabEvictTo_stop)
    have "p \<notin> set (tLru t) \<Longrightarrow> map_of (tEntries t) p = None" for p
      using tab_lru_mem [OF 1(2), of p] by simp
    then show ?thesis by (intro exI [of _ "length (tLru t)"]) (auto simp: e)
  qed
qed

text \<open>The byte count as a sum along the LRU list.\<close>

definition lruSum :: "tab \<Rightarrow> string list \<Rightarrow> int" where
  "lruSum t ps = (\<Sum>p\<leftarrow>ps. estimateAtomBytes p (the (map_of (tEntries t) p)))"

lemma weight_sum_keys:
  "gomap_ok m \<Longrightarrow> weight f m = (\<Sum>k\<in>fst ` set m. f k (the (map_of m k)))"
proof (induction m)
  case Nil
  then show ?case by simp
next
  case (Cons e m)
  obtain k v where e: "e = (k, v)" by (cases e)
  from Cons.prems e have k: "k \<notin> fst ` set m" and ok: "gomap_ok m"
    by (auto simp: gomap_ok_def)
  have "(\<Sum>j\<in>fst ` set m. f j (the (map_of ((k, v) # m) j))) =
      (\<Sum>j\<in>fst ` set m. f j (the (map_of m j)))"
    using k by (intro sum.cong) auto
  with Cons.IH [OF ok] k show ?case by (simp add: e)
qed

lemma tab_bytes_lruSum: "tab_ok t \<Longrightarrow> tBytes t = lruSum t (tLru t)"
  by (simp add: tab_okD weight_sum_keys lruSum_def sum_list_distinct_conv_sum_set)

text \<open>Eviction stops as soon as it can: one path more would exceed the target.\<close>

lemma tabEvictTo_longest:
  "tab_ok t \<Longrightarrow> length (tLru (tabEvictTo target t)) < length (tLru t) \<Longrightarrow>
     target < lruSum t (take (Suc (length (tLru (tabEvictTo target t)))) (tLru t))"
proof (induction target t rule: tabEvictTo.induct)
  case (1 target t)
  have c: "tBytes t > target \<and> tLru t \<noteq> []"
    using 1(3) tabEvictTo_stop by force
  obtain a where a: "tabEvictBack t = tabDrop (last (tLru t)) a t"
    using tabEvictBack_eq [OF 1(2)] c by blast
  let ?t = "tabEvictBack t"
  let ?n = "length (tLru (tabEvictTo target ?t))"
  have e: "tabEvictTo target t = tabEvictTo target ?t" using c by (simp add: tabEvictTo_step)
  have ok: "tab_ok ?t" using 1(2) c by (simp add: tab_ok_evictBack)
  show ?case
  proof (cases "?n < length (tLru ?t)")
    case True
    have tk: "take (Suc ?n) (butlast (tLru t)) = take (Suc ?n) (tLru t)"
      using True by (simp add: butlast_conv_take)
    have "last (tLru t) \<notin> set (take (Suc ?n) (butlast (tLru t)))"
      using last_notin_butlast [OF tab_okD(3) [OF 1(2)]] c by (meson in_set_takeD)
    then have "lruSum ?t (take (Suc ?n) (butlast (tLru t))) = lruSum t (take (Suc ?n) (tLru t))"
      unfolding lruSum_def tk [symmetric]
      by (intro arg_cong [where f = sum_list] map_cong) (auto simp: a tabDrop_def gomap)
    with 1(1) [OF c ok True] show ?thesis by (simp add: e)
  next
    case False
    moreover have "?n \<le> length (tLru ?t)"
      using tabEvictTo_lru [OF ok, of target] by auto
    ultimately have "Suc ?n = length (tLru t)" using c by simp
    with c tab_bytes_lruSum [OF 1(2)] show ?thesis by (simp add: e)
  qed
qed

section \<open>The invariant of the cache and the interface laws\<close>

definition fc_ok :: "frontier_cache \<Rightarrow> bool" where
  "fc_ok f \<longleftrightarrow> tab_ok (fcTab f) \<and> 0 < fcMax f"

definition fcCur :: "gotime \<Rightarrow> frontier_cache \<Rightarrow> string \<Rightarrow> catom option" where
  "fcCur now f = tabLive now (fcTab f)"

definition fcStore :: "ext \<Rightarrow> frontier_cache store" where
  "fcStore E =
     \<lparr>sAppendAtom = fcAppendAtom E, sGetCurrent = fcGetCurrent, sGetParents = fcGetParents,
      sGetAtom = fcGetAtom, sFrontierPaths = fcFrontierPaths, sClose = fcClose,
      sGetCurrentHash = fcGetCurrentHash, sFindChangedPaths = fcFindChangedPaths,
      sVerifyVersionVector = fcVerifyVersionVector\<rparr>"

lemma fc_ok_new: "fc_ok (NewFrontierCacheWithLimit m)"
  by (simp add: fc_ok_def NewFrontierCacheWithLimit_def fourGB_def)

lemma fcAppendAtom_tab:
  assumes "fcAppendAtom E now e path ps x f = (Ok h, f')"
  obtains t n where "t = tabWrite path (mintAtom E e path (fcClock f + 1) now x) (fcTab f)"
    and "h = aHash (mintAtom E e path (fcClock f + 1) now x)"
    and "fcTab f' = (if fcMax f > 0 \<and> tBytes t \<ge> ceiling90 (fcMax f)
                  then tabEvictTo (target80 (fcMax f)) t else t)"
    and "fcClock f' = fcClock f + 1" and "fcMax f' = fcMax f" and "\<not> fcClosed f'"
  using assms by (auto simp: fcAppendAtom_def Let_def split: if_splits)

lemma fc_ok_AppendAtom:
  assumes "fc_ok f" and "fcAppendAtom E now e path ps x f = (Ok h, f')"
  shows "fc_ok f'"
  using assms(2)
proof (rule fcAppendAtom_tab)
  fix t assume t: "t = tabWrite path (mintAtom E e path (fcClock f + 1) now x) (fcTab f)"
    and f': "fcTab f' = (if fcMax f > 0 \<and> tBytes t \<ge> ceiling90 (fcMax f)
                  then tabEvictTo (target80 (fcMax f)) t else t)" "fcMax f' = fcMax f"
  have "tab_ok t" using assms(1) by (simp add: t fc_ok_def tab_ok_write)
  with assms(1) f' show ?thesis by (simp add: fc_ok_def tabEvictTo_ok)
qed

lemma fc_ok_GetCurrent: "fc_ok f \<Longrightarrow> fc_ok (snd (fcGetCurrent now path f))"
  by (simp add: fc_ok_def fcGetCurrent_def tab_ok_touch split: option.split)

lemma tabSweepOne_cases:
  "tabSweepOne e t = t \<or> (\<exists>a. map_of (tEntries t) (fst e) = Some a \<and> aHash a = snd e \<and>
     tabSweepOne e t = tabDrop (fst e) a t)"
  by (auto simp: tabSweepOne_def tabDrop_def split: option.split)

lemma tab_ok_sweep: "tab_ok t \<Longrightarrow> tab_ok (fold tabSweepOne es t)"
proof (induction es arbitrary: t)
  case (Cons e es)
  have "tab_ok (tabSweepOne e t)"
    using tabSweepOne_cases [of e t] Cons.prems by (auto intro: tab_ok_drop)
  with Cons.IH show ?case by simp
qed simp

lemma fc_ok_SweepApply: "fc_ok f \<Longrightarrow> fc_ok (fcSweepApply es f)"
  by (simp add: fc_ok_def fcSweepApply_def tab_ok_sweep)

lemma fc_ok_Close: "fc_ok f \<Longrightarrow> fc_ok (snd (fcClose f))"
  by (simp add: fc_ok_def fcClose_def)

lemma tabStale_live: "tabStale now t p h \<longleftrightarrow> map_option aHash (tabLive now t p) \<noteq> Some h"
  by (auto simp: tabStale_def tabLive_def split: option.split)

lemma tabEvictTo_sub:
  "tab_ok t \<Longrightarrow> tabLive now (tabEvictTo target t) q \<in> {None, tabLive now t q}"
proof -
  assume "tab_ok t"
  then have "map_of (tEntries (tabEvictTo target t)) q \<in> {None, map_of (tEntries t) q}"
    using tabEvictTo_lru [of t target] by (metis insertCI)
  then show ?thesis by (auto simp: tabLive_def)
qed

lemma tabLive_write:
  "tabLive now (tabWrite path a t) q =
     (if q = path then if expired now (aExpiresAt a) then None else Some a else tabLive now t q)"
  by (simp add: tabLive_def gomap)

lemma fcAppend_view:
  assumes ok: "fc_ok f" and ap: "fcAppendAtom E now e path ps x f = (Ok h, f')"
  shows "fcCur t f' q \<in> {None, if q = path then Some (mintAtom E e path (fcClock f + 1) now x)
     else fcCur t f q}"
  using ap
proof (rule fcAppendAtom_tab)
  fix u assume u: "u = tabWrite path (mintAtom E e path (fcClock f + 1) now x) (fcTab f)"
    and f': "fcTab f' = (if fcMax f > 0 \<and> tBytes u \<ge> ceiling90 (fcMax f)
                  then tabEvictTo (target80 (fcMax f)) u else u)"
  have "tab_ok u" using ok by (simp add: u fc_ok_def tab_ok_write)
  then have "fcCur t f' q \<in> {None, tabLive t u q}"
    using tabEvictTo_sub [of u t _ q] by (simp add: fcCur_def f' split: if_splits)
  then show ?thesis by (auto simp: u tabLive_write fcCur_def split: if_splits)
qed

interpretation fc: store_appends "fcStore E" fc_ok fcCur E "\<lambda>f. \<not> fcClosed f" for E
proof (unfold_locales, goal_cases)
  case (1 f now p)
  then show ?case by (auto simp: fcStore_def fcGetCurrent_def fcCur_def tabLive_def split: option.split)
next
  case (2 f now p)
  then show ?case by (simp add: fcStore_def fc_ok_GetCurrent)
next
  case (3 f t now p q)
  then show ?case
    by (auto simp: fcStore_def fcGetCurrent_def fcCur_def tabLive_def split: option.split)
next
  case (4 f now p)
  then show ?case by (auto simp: fcStore_def fcGetCurrentHash_def fcCur_def tabLive_def split: option.split)
next
  case (5 f now vv)
  then show ?case
    by (simp add: fcStore_def fcVerifyVersionVector_def fcCur_def matches_def tabStale_live)
next
  case (6 f now vv)
  then show ?case by (simp add: fcStore_def fcFindChangedPaths_def fcCur_def tabStale_live)
next
  case (7 f now h a)
  then show ?case
    by (auto simp: fcStore_def fcGetAtom_def fc_ok_def split: option.splits if_splits
        dest: tab_okD(7))
next
  case (8 f t h now p)
  then show ?case
    by (auto simp: fcStore_def fcGetAtom_def fcGetCurrent_def split: option.split)
next
  case (9 f now p a)
  then show ?case
    by (auto simp: fcCur_def tabLive_def fc_ok_def split: option.splits if_splits dest: tab_okD(6))
next
  case (10 f now e p ps x)
  then show ?case by (simp add: fcStore_def fcAppendAtom_def Let_def)
next
  case (11 f now e p ps x h f')
  then show ?case by (simp add: fcStore_def fc_ok_AppendAtom)
next
  case (12 f now e p ps x h f' q t)
  then show ?case using fcAppend_view [of f E now e p ps x h f' t q] by (simp add: fcStore_def)
next
  case (13 f now e p ps x h f' t a)
  then have ap: "fcAppendAtom E now e p ps x f = (Ok h, f')" by (simp add: fcStore_def)
  with 13 fcAppend_view [of f E now e p ps x h f' t p]
  have "a = mintAtom E e p (fcClock f + 1) now x" by auto
  then show ?case using ap by (auto elim: fcAppendAtom_tab)
qed


section \<open>Properties\<close>

lemma ceiling90_le: "0 \<le> m \<Longrightarrow> ceiling90 m \<le> m"
  using f64scale_le [of f64_090 "nat m"] by (simp add: ceiling90_def)

lemma target80_le: "0 \<le> m \<Longrightarrow> target80 m \<le> m"
  using f64scale_le [of f64_080 "nat m"] by (simp add: target80_def f64_consts)

lemma target80_nonneg [simp]: "0 \<le> target80 m"
  by (simp add: target80_def)

lemma fcAppend_bytes:
  assumes ok: "fc_ok f" and ap: "fcAppendAtom E now e path ps x f = (Ok h, f')"
  shows "fcCurrentBytes f' \<le> fcMax f'"
  using ap
proof (rule fcAppendAtom_tab)
  fix t assume t: "t = tabWrite path (mintAtom E e path (fcClock f + 1) now x) (fcTab f)"
    and f': "fcTab f' = (if fcMax f > 0 \<and> tBytes t \<ge> ceiling90 (fcMax f)
                  then tabEvictTo (target80 (fcMax f)) t else t)" "fcMax f' = fcMax f"
  have "tab_ok t" and m: "0 < fcMax f" using ok by (simp_all add: t fc_ok_def tab_ok_write)
  then have "tBytes (tabEvictTo (target80 (fcMax f)) t) \<le> target80 (fcMax f)"
    by (simp add: tabEvictTo_bytes)
  with m f' ceiling90_le [of "fcMax f"] target80_le [of "fcMax f"] show ?thesis
    by (simp add: fcCurrentBytes_def)
qed

text \<open>
  The cache as a state machine: the operations other goroutines call, and the two critical
  sections of the sweeper, which carries the list it collected in between.
\<close>

inductive fc_step ::
    "ext \<Rightarrow> frontier_cache \<times> (string \<times> hash) list \<Rightarrow> frontier_cache \<times> (string \<times> hash) list \<Rightarrow> bool"
  for E where
  step_append: "fcAppendAtom E now e path ps x f = (r, f') \<Longrightarrow> fc_step E (f, es) (f', es)"
| step_get: "fcGetCurrent now path f = (r, f') \<Longrightarrow> fc_step E (f, es) (f', es)"
| step_collect: "fc_step E (f, es) (f, fcSweepCollect now f)"
| step_apply: "fc_step E (f, es) (fcSweepApply es f, [])"
| step_close: "fcClose f = (r, f') \<Longrightarrow> fc_step E (f, es) (f', es)"

definition fc_inv :: "frontier_cache \<Rightarrow> bool" where
  "fc_inv f \<longleftrightarrow> fc_ok f \<and> fcCurrentBytes f \<le> fcMax f"

lemma tabSweepOne_bytes: "tBytes (tabSweepOne e t) \<le> tBytes t"
  by (auto simp: tabSweepOne_def tabDrop_def less_imp_le split: option.split)

lemma sweep_bytes: "tBytes (fold tabSweepOne es t) \<le> tBytes t"
  by (induction es arbitrary: t) (auto intro: order_trans tabSweepOne_bytes)

lemma fc_inv_step: "fc_step E s s' \<Longrightarrow> fc_inv (fst s) \<Longrightarrow> fc_inv (fst s')"
proof (induction rule: fc_step.induct)
  case (step_append now e path ps x f r f' es)
  show ?case
  proof (cases "fcClosed f")
    case True
    with step_append show ?thesis by (simp add: fcAppendAtom_def)
  next
    case False
    with step_append(1) obtain h where "fcAppendAtom E now e path ps x f = (Ok h, f')"
      by (auto simp: fcAppendAtom_def Let_def)
    with step_append(2) show ?thesis
      by (auto simp: fc_inv_def intro: fc_ok_AppendAtom fcAppend_bytes)
  qed
next
  case (step_get now path f r f' es)
  with fc_ok_GetCurrent [of f now path] show ?case
    by (auto simp: fc_inv_def fcGetCurrent_def fcCurrentBytes_def split: option.splits if_splits)
next
  case (step_collect f es now)
  then show ?case by simp
next
  case (step_apply f es)
  with sweep_bytes [of es "fcTab f"] fc_ok_SweepApply [of f es] show ?case
    by (auto simp: fc_inv_def fcCurrentBytes_def fcSweepApply_def)
next
  case (step_close f r f' es)
  with fc_ok_Close [of f] show ?case
    by (auto simp: fc_inv_def fcClose_def fcCurrentBytes_def fc_ok_def emptyTab_def split: if_splits)
qed

text \<open>
  C9: the memory ceiling.  In every state that the frontier cache can reach from its
  constructor, by writes, reads, sweeps interleaved with them and closing, the indexes
  agree with each other (the LRU list, the byte count and the reverse index describe the
  entry map) and the estimated memory does not exceed the configured limit.
\<close>

theorem fc_reachable_bounded:
  assumes "(fc_step E)\<^sup>*\<^sup>* (NewFrontierCacheWithLimit m, []) s"
  shows "fc_ok (fst s) \<and> fcCurrentBytes (fst s) \<le> fcMax (fst s)"
proof -
  have "fc_inv (NewFrontierCacheWithLimit m)"
    using fc_ok_new [of m]
    by (simp add: fc_inv_def fc_ok_def NewFrontierCacheWithLimit_def fcCurrentBytes_def emptyTab_def)
  with assms have "fc_inv (fst s)"
    by (induction rule: rtranclp_induct) (auto intro: fc_inv_step)
  then show ?thesis by (simp add: fc_inv_def)
qed

theorem fc_reachable_bounded_witness:
  "\<exists>f. (fc_step ext0)\<^sup>*\<^sup>* (NewFrontierCacheWithLimit 1000, []) (f, []) \<and> fcClock f = 1 \<and>
     fc_ok f \<and> fcCurrentBytes f \<le> fcMax f"
proof -
  let ?w = "fcAppendAtom ext0 5 (EConst (VInt 7)) ''k'' [] zeroTime (NewFrontierCacheWithLimit 1000)"
  have "fc_step ext0 (NewFrontierCacheWithLimit 1000, []) (snd ?w, [])"
    by (rule step_append [where r = "fst ?w"]) simp
  then have r: "(fc_step ext0)\<^sup>*\<^sup>* (NewFrontierCacheWithLimit 1000, []) (snd ?w, [])" by blast
  moreover have "fcClock (snd ?w) = 1"
    by (simp add: fcAppendAtom_def NewFrontierCacheWithLimit_def Let_def)
  ultimately show ?thesis using fc_reachable_bounded [OF r] by auto
qed

text \<open>What the LRU list of the table is after the write, before eviction.\<close>

definition lruAfter :: "string \<Rightarrow> tab \<Rightarrow> string list" where
  "lruAfter path t = path # removeElem path (tLru t)"

lemma tLru_write_lruAfter: "tab_ok t \<Longrightarrow> tLru (tabWrite path a t) = lruAfter path t"
  using tab_lru_mem [of t path]
  by (auto simp: lruAfter_def removeElem_def)

lemma fcAppend_lru:
  assumes ok: "fc_ok f" and ap: "fcAppendAtom E now e path ps x f = (Ok h, f')"
  defines "a \<equiv> mintAtom E e path (fcClock f + 1) now x"
  shows "\<exists>n. tLru (fcTab f') = take n (lruAfter path (fcTab f)) \<and>
    (\<forall>q. map_of (tEntries (fcTab f')) q =
       (if q \<in> set (take n (lruAfter path (fcTab f)))
        then (if q = path then Some a else map_of (tEntries (fcTab f)) q) else None)) \<and>
    (n < length (lruAfter path (fcTab f)) \<longrightarrow>
       target80 (fcMax f) < lruSum (tabWrite path a (fcTab f)) (take (Suc n) (lruAfter path (fcTab f))))"
  using ap
proof (rule fcAppendAtom_tab, fold a_def)
  fix t assume t: "t = tabWrite path a (fcTab f)"
    and f': "fcTab f' = (if fcMax f > 0 \<and> tBytes t \<ge> ceiling90 (fcMax f)
                  then tabEvictTo (target80 (fcMax f)) t else t)"
  have okt: "tab_ok t" using ok by (simp add: t a_def fc_ok_def tab_ok_write)
  have lru: "tLru t = lruAfter path (fcTab f)" unfolding t using ok
    by (intro tLru_write_lruAfter) (simp add: fc_ok_def)
  have ent: "map_of (tEntries t) q = (if q = path then Some a else map_of (tEntries (fcTab f)) q)" for q
    by (simp add: t gomap)
  obtain n where n: "tLru (fcTab f') = take n (tLru t)"
    "\<And>q. map_of (tEntries (fcTab f')) q = (if q \<in> set (take n (tLru t)) then map_of (tEntries t) q else None)"
    "n < length (tLru t) \<longrightarrow> target80 (fcMax f) < lruSum t (take (Suc n) (tLru t))"
  proof (cases "fcMax f > 0 \<and> tBytes t \<ge> ceiling90 (fcMax f)")
    case True
    then have e: "fcTab f' = tabEvictTo (target80 (fcMax f)) t" by (simp add: f')
    let ?n = "length (tLru (tabEvictTo (target80 (fcMax f)) t))"
    obtain k where "tLru (fcTab f') = take k (tLru t)"
      "\<And>q. map_of (tEntries (fcTab f')) q = (if q \<in> set (take k (tLru t)) then map_of (tEntries t) q else None)"
      using tabEvictTo_lru [OF okt, of "target80 (fcMax f)"] unfolding e by blast
    moreover from this(1) have "take k (tLru t) = take ?n (tLru t)" by (simp add: e min_def)
    ultimately show ?thesis
      using that [of ?n] tabEvictTo_longest [OF okt, of "target80 (fcMax f)"] by simp
  next
    case False
    then have e: "fcTab f' = t" unfolding f' by (rule if_not_P)
    have "q \<notin> set (tLru t) \<Longrightarrow> map_of (tEntries t) q = None" for q
      using tab_lru_mem [OF okt, of q] by simp
    then show ?thesis using that [of "length (tLru t)"] by (simp add: e)
  qed
  then show ?thesis unfolding lru ent t [symmetric] by blast
qed



text \<open>
  Read your write.  A value whose estimate fits in 80% of the limit is still there
  right after it was written, whatever eviction the write caused: a reader that runs before
  the deadline gets the atom that was just minted, under the hash that the write returned.
\<close>

theorem fc_read_your_write:
  assumes ok: "fc_ok f" and ap: "fcAppendAtom E now e path ps x f = (Ok h, f')"
    and fits: "estimateAtomBytes path (mintAtom E e path (fcClock f + 1) now x) \<le> target80 (fcMax f)"
    and alive: "\<not> expired t x"
  shows "\<exists>a. fst (fcGetCurrent t path f') = Some a \<and> aHash a = h \<and> aExpr a = e \<and> aExpiresAt a = x"
proof -
  let ?a = "mintAtom E e path (fcClock f + 1) now x"
  obtain n where n: "map_of (tEntries (fcTab f')) path =
       (if path \<in> set (take n (lruAfter path (fcTab f))) then Some ?a else None)"
    "n < length (lruAfter path (fcTab f)) \<longrightarrow>
       target80 (fcMax f) < lruSum (tabWrite path ?a (fcTab f)) (take (Suc n) (lruAfter path (fcTab f)))"
    using fcAppend_lru [OF ok ap] by metis
  have "n \<noteq> 0"
  proof
    assume "n = 0"
    with n(2) fits show False by (simp add: lruAfter_def lruSum_def gomap)
  qed
  then have "map_of (tEntries (fcTab f')) path = Some ?a"
    using n(1) by (cases n) (auto simp: lruAfter_def)
  moreover have "h = aHash ?a" using ap by (rule fcAppendAtom_tab)
  ultimately show ?thesis using alive by (simp add: fcGetCurrent_def)
qed

theorem fc_read_your_write_witness:
  "\<exists>h f' a. fcAppendAtom ext0 5 (EConst (VInt 7)) ''k'' [] zeroTime (NewFrontierCacheWithLimit 1000) = (Ok h, f') \<and>
     fst (fcGetCurrent 9 ''k'' f') = Some a \<and> aHash a = h \<and> aExpr a = EConst (VInt 7)"
proof -
  let ?f = "NewFrontierCacheWithLimit 1000"
  obtain h f' where ap: "fcAppendAtom ext0 5 (EConst (VInt 7)) ''k'' [] zeroTime ?f = (Ok h, f')"
    by (auto simp: fcAppendAtom_def NewFrontierCacheWithLimit_def Let_def)
  have "target80 1000 = 800" 
    by (simp add: target80_def f64scale_def round53_def bitlen.simps Let_def f64_consts)
  then have "estimateAtomBytes ''k'' (mintAtom ext0 (EConst (VInt 7)) ''k'' (fcClock ?f + 1) 5 zeroTime)
      \<le> target80 (fcMax ?f)"
    by (simp add: estimateAtomBytes_def NewFrontierCacheWithLimit_def)
  from fc_read_your_write [OF fc_ok_new ap this expired_zeroTime [of 9]] ap show ?thesis by blast
qed

lemma fc_ok_Append_snd: "fc_ok f \<Longrightarrow> fc_ok (snd (fcAppendAtom E now e path ps x f))"
  using fc_ok_AppendAtom [of f E now e path ps x]
  by (cases "fcClosed f") (auto simp: fcAppendAtom_def Let_def)

lemma sweep_entries:
  "map_of (tEntries (fold tabSweepOne es t)) p =
     (case map_of (tEntries t) p of
        None \<Rightarrow> None
      | Some a \<Rightarrow> if (p, aHash a) \<in> set es then None else Some a)"
proof (induction es arbitrary: t)
  case Nil
  then show ?case by (simp split: option.split)
next
  case (Cons e es)
  have "map_of (tEntries (tabSweepOne e t)) p =
      (case map_of (tEntries t) p of
         None \<Rightarrow> None | Some a \<Rightarrow> if (p, aHash a) = e then None else Some a)"
    by (cases e) (auto simp: tabSweepOne_def tabDrop_def gomap split: option.split)
  then show ?case by (simp add: Cons.IH split: option.split)
qed

text \<open>
  C31: the TTL sweep.  The sweeper collects the expired entries of a state \<open>f\<close>, releases
  the lock, and deletes them from a state \<open>g\<close> that other operations may have produced since.
  It deletes exactly the entries of \<open>g\<close> that are still the expired atom seen in \<open>f\<close>: a path
  written again in between keeps its new atom.
\<close>

theorem fc_sweep_exact:
  assumes "fc_ok f"
  shows "map_of (tEntries (fcTab (fcSweepApply (fcSweepCollect now f) g))) p =
    (case map_of (tEntries (fcTab g)) p of
       None \<Rightarrow> None
     | Some a \<Rightarrow>
         (case map_of (tEntries (fcTab f)) p of
            None \<Rightarrow> Some a
          | Some b \<Rightarrow> if expired now (aExpiresAt b) \<and> aHash b = aHash a then None else Some a))"
proof -
  have mem: "(p, k) \<in> set (fcSweepCollect now f) \<longleftrightarrow>
      (\<exists>b. map_of (tEntries (fcTab f)) p = Some b \<and> expired now (aExpiresAt b) \<and> aHash b = k)" for k
    using assms by (force simp: fcSweepCollect_def fc_ok_def tab_okD gomap_in_set [symmetric])
  show ?thesis
    by (simp add: fcSweepApply_def sweep_entries mem split: option.split)
qed

theorem fc_sweep_exact_witness:
  "\<exists>f. map_of (tEntries (fcTab (fcSweepApply (fcSweepCollect 9 f) f))) ''k'' = None \<and>
     map_of (tEntries (fcTab f)) ''k'' \<noteq> None"
proof -
  let ?f = "snd (fcAppendAtom ext0 5 (EConst (VInt 7)) ''k'' [] 6 (NewFrontierCacheWithLimit 1000))"
  have ok: "fc_ok ?f" by (rule fc_ok_Append_snd [OF fc_ok_new])
  have c: "ceiling90 1000 = 900"
    by (simp add: ceiling90_def f64scale_def round53_def bitlen.simps Let_def f64_consts)
  have e: "map_of (tEntries (fcTab ?f)) ''k'' = Some (mintAtom ext0 (EConst (VInt 7)) ''k'' 1 5 6)"
    by (simp add: fcAppendAtom_def NewFrontierCacheWithLimit_def Let_def c tabWrite_bytes
        emptyTab_def estimateAtomBytes_def)
  have "map_of (tEntries (fcTab (fcSweepApply (fcSweepCollect 9 ?f) ?f))) ''k'' = None"
    unfolding fc_sweep_exact [OF ok] e by (simp add: expired_def zeroTime_def)
  with e show ?thesis by auto
qed

end
