(* ===== verification/Sharded.thy ===== *)
theory Sharded
  imports Frontier
begin

text \<open>
  \<open>storage/sharded_frontier.go\<close>: the production cache, 32 tables selected by the xxHash of
  the path, a global byte count and a global clock.

  A write is not one critical section.  \<open>shMint\<close> advances the clock and hashes the atom
  without any lock, \<open>shCommit\<close> runs under the lock of the shard, and \<open>shEnforce\<close> is the
  ceiling check after the lock is released; \<open>shAppendAtom\<close> is their sequence.  Two writers
  may therefore commit in the other order than they minted.
\<close>

definition shardedFrontierShards :: nat where "shardedFrontierShards = 32"

record sharded =
  shShards :: "tab list"
  shClock :: uint64
  shMax :: int
  shBytes :: int
  shDone :: bool

definition NewShardedFrontierCacheWithLimit :: "int \<Rightarrow> sharded" where
  "NewShardedFrontierCacheWithLimit maxBytes =
     \<lparr>shShards = replicate shardedFrontierShards emptyTab, shClock = 0,
      shMax = (if maxBytes \<le> 0 then fourGB else maxBytes), shBytes = 0, shDone = False\<rparr>"

definition NewShardedFrontierCache :: "ext \<Rightarrow> string \<Rightarrow> sharded" where
  "NewShardedFrontierCache E v = NewShardedFrontierCacheWithLimit (envLimit E v)"

definition shardFor :: "ext \<Rightarrow> string \<Rightarrow> nat" where
  "shardFor E path = unat (xxh E path) mod shardedFrontierShards"

definition shard :: "ext \<Rightarrow> string \<Rightarrow> sharded \<Rightarrow> tab" where
  "shard E path f = shShards f ! shardFor E path"

text \<open>\<open>sameAtomContent\<close>: \<open>VNil\<close> is the nil value.\<close>

definition sameAtomContent :: "ext \<Rightarrow> catom \<Rightarrow> catom \<Rightarrow> bool" where
  "sameAtomContent E a b =
     (if UnixNano (aExpiresAt a) \<noteq> UnixNano (aExpiresAt b) then False
      else case (aExpr a, aExpr b) of
        (EConst av, EConst bv) \<Rightarrow>
          if av = VNil \<or> bv = VNil then False else Serialize E av = Serialize E bv
      | _ \<Rightarrow> False)"

section \<open>Writing\<close>

definition shMint ::
    "ext \<Rightarrow> gotime \<Rightarrow> expr \<Rightarrow> string \<Rightarrow> gotime \<Rightarrow> sharded \<Rightarrow> catom \<times> sharded" where
  "shMint E now e path expiresAt f =
     (let clk = shClock f + 1 in (mintAtom E e path clk now expiresAt, f\<lparr>shClock := clk\<rparr>))"

datatype commit = Discarded | Deduped | Stored

text \<open>What the locked section does: guard 1, guard 2, or the stores.\<close>

definition tabCommit :: "ext \<Rightarrow> string \<Rightarrow> catom \<Rightarrow> tab \<Rightarrow> commit \<times> hash \<times> tab" where
  "tabCommit E path a t =
     (case map_of (tEntries t) path of
        None \<Rightarrow> (Stored, aHash a, tabWrite path a t)
      | Some old \<Rightarrow>
          if aLogicalClock old > aLogicalClock a then (Discarded, aHash old, t)
          else if aHash old \<noteq> aHash a \<and> sameAtomContent E old a
          then (Deduped, aHash old, tabTouch path t)
          else (Stored, aHash a, tabWrite path a t))"

text \<open>Replacing the table of one shard; the global byte count moves by the same amount.\<close>

definition setShard :: "nat \<Rightarrow> tab \<Rightarrow> sharded \<Rightarrow> sharded" where
  "setShard i t f =
     f\<lparr>shShards := (shShards f)[i := t],
       shBytes := shBytes f + (tBytes t - tBytes (shShards f ! i))\<rparr>"

definition shCommit :: "ext \<Rightarrow> catom \<Rightarrow> sharded \<Rightarrow> commit \<times> hash \<times> sharded" where
  "shCommit E a f =
     (let i = shardFor E (aPath a); (c, h, t) = tabCommit E (aPath a) a (shShards f ! i)
      in (c, h, setShard i t f))"

text \<open>The scan of \<open>evictToTarget\<close> for the first shard with the most bytes, from \<open>-1\<close>.\<close>

fun scanVictim :: "tab list \<Rightarrow> nat \<Rightarrow> nat option \<Rightarrow> int \<Rightarrow> nat option \<times> int" where
  "scanVictim [] i victim maxB = (victim, maxB)"
| "scanVictim (t # ts) i victim maxB =
     (if tBytes t > maxB then scanVictim ts (Suc i) (Some i) (tBytes t)
      else scanVictim ts (Suc i) victim maxB)"

definition pickVictim :: "sharded \<Rightarrow> nat option" where
  "pickVictim f =
     (case scanVictim (shShards f) 0 None (- 1) of
        (None, _) \<Rightarrow> None
      | (Some i, maxB) \<Rightarrow>
          if maxB \<le> 0 \<or> tLru (shShards f ! i) = [] then None else Some i)"

lemma scanVictim_bound:
  "scanVictim ts i v m = (Some j, m') \<Longrightarrow>
     v = Some j \<and> m' = m \<or> i \<le> j \<and> j < i + length ts \<and> m' = tBytes (ts ! (j - i)) \<and> m \<le> m'"
proof (induction ts arbitrary: i v m)
  case (Cons t ts)
  show ?case
  proof (cases "tBytes t > m")
    case True
    with Cons.prems Cons.IH [of "Suc i" "Some i" "tBytes t"] show ?thesis
      by (auto simp: nth_Cons' )
  next
    case False
    with Cons.prems Cons.IH [of "Suc i" v m] show ?thesis by (auto simp: nth_Cons')
  qed
qed simp

lemma pickVictim_Some:
  "pickVictim f = Some i \<Longrightarrow> i < length (shShards f) \<and> tLru (shShards f ! i) \<noteq> []"
  using scanVictim_bound [of "shShards f" 0 None "-1" i]
  by (auto simp: pickVictim_def split: prod.splits option.splits if_splits)

definition evictOne :: "nat \<Rightarrow> sharded \<Rightarrow> sharded" where
  "evictOne i f = setShard i (tabEvictBack (shShards f ! i)) f"

definition lruTotal :: "sharded \<Rightarrow> nat" where
  "lruTotal f = sum_list (map (length \<circ> tLru) (shShards f))"

lemma lruTotal_evictOne:
  assumes "i < length (shShards f)" and "tLru (shShards f ! i) \<noteq> []"
  shows "lruTotal (evictOne i f) < lruTotal f"
proof -
  let ?g = "map (length \<circ> tLru) (shShards f)"
  have "map (length \<circ> tLru) (shShards (evictOne i f)) = ?g[i := ?g ! i - 1]"
    using assms(1) by (simp add: evictOne_def setShard_def map_update)
  moreover have "0 < ?g ! i" using assms by simp
  ultimately show ?thesis
    using assms(1) elem_le_sum_list [of i ?g] unfolding lruTotal_def
    by (simp add: sum_list_update flip: length_greater_0_conv)
qed

text \<open>
  The eviction loop.  It returns when no shard has anything to give, and when the shard it
  took from and all others have become empty.
\<close>

function evictToTarget :: "int \<Rightarrow> sharded \<Rightarrow> sharded" where
  "evictToTarget target f =
     (if shBytes f > target then
        (case pickVictim f of
           None \<Rightarrow> f
         | Some i \<Rightarrow>
             let f' = evictOne i f in
             if tLru (shShards f' ! i) = [] \<and> list_all (\<lambda>t. tLru t = []) (shShards f') then f'
             else evictToTarget target f')
      else f)"
  by auto
termination
  by (relation "measure (\<lambda>(_, f). lruTotal f)") (auto simp: lruTotal_evictOne pickVictim_Some)

declare evictToTarget.simps [simp del]

definition shEnforce :: "sharded \<Rightarrow> sharded" where
  "shEnforce f =
     (if shMax f > 0 \<and> shBytes f \<ge> ceiling90 (shMax f)
      then evictToTarget (target80 (shMax f)) f else f)"

definition shAppendAtom ::
    "ext \<Rightarrow> gotime \<Rightarrow> expr \<Rightarrow> string \<Rightarrow> hash list \<Rightarrow> gotime \<Rightarrow> sharded \<Rightarrow> hash result \<times> sharded" where
  "shAppendAtom E now e path parents expiresAt f =
     (let (a, f1) = shMint E now e path expiresAt f;
          (c, h, f2) = shCommit E a f1
      in (Ok h, if c = Stored then shEnforce f2 else f2))"

section \<open>Reading\<close>

definition shGetCurrent ::
    "ext \<Rightarrow> gotime \<Rightarrow> string \<Rightarrow> sharded \<Rightarrow> catom option \<times> sharded" where
  "shGetCurrent E now path f =
     (case map_of (tEntries (shard E path f)) path of
        None \<Rightarrow> (None, f)
      | Some a \<Rightarrow>
          if expired now (aExpiresAt a) then (None, f)
          else (Some a, setShard (shardFor E path) (tabTouch path (shard E path f)) f))"

text \<open>\<open>GetAtom\<close> scans the shards; an expired hit ends the scan.\<close>

fun scanAtom :: "gotime \<Rightarrow> hash \<Rightarrow> tab list \<Rightarrow> catom option" where
  "scanAtom now h [] = None"
| "scanAtom now h (t # ts) =
     (case map_of (tHashToPath t) h of
        None \<Rightarrow> scanAtom now h ts
      | Some path \<Rightarrow>
          (case map_of (tEntries t) path of
             None \<Rightarrow> scanAtom now h ts
           | Some a \<Rightarrow> if expired now (aExpiresAt a) then None else Some a))"

definition shGetAtom :: "gotime \<Rightarrow> hash \<Rightarrow> sharded \<Rightarrow> catom option" where
  "shGetAtom now h f = scanAtom now h (shShards f)"

definition shGetParents :: "hash \<Rightarrow> sharded \<Rightarrow> hash list option" where
  "shGetParents h f = None"

definition shFrontierPaths :: "gotime \<Rightarrow> sharded \<Rightarrow> string list" where
  "shFrontierPaths now f =
     concat (map (\<lambda>t. map fst (filter (\<lambda>(p, a). IsZeroTime (aExpiresAt a) \<or> aExpiresAt a > now)
                                  (tEntries t))) (shShards f))"

definition shVerifyVersionVector ::
    "ext \<Rightarrow> gotime \<Rightarrow> (string, hash) gomap \<Rightarrow> sharded \<Rightarrow> bool" where
  "shVerifyVersionVector E now vv f =
     list_all (\<lambda>(p, h). \<not> tabStale now (shard E p f) p h) vv"

definition shGetCurrentHash :: "ext \<Rightarrow> gotime \<Rightarrow> string \<Rightarrow> sharded \<Rightarrow> hash option" where
  "shGetCurrentHash E now path f =
     (case map_of (tEntries (shard E path f)) path of
        None \<Rightarrow> None
      | Some a \<Rightarrow> if expired now (aExpiresAt a) then None else Some (aHash a))"

definition shFindChangedPaths ::
    "ext \<Rightarrow> gotime \<Rightarrow> (string, hash) gomap \<Rightarrow> sharded \<Rightarrow> string list" where
  "shFindChangedPaths E now vv f =
     map fst (filter (\<lambda>(p, h). tabStale now (shard E p f) p h) vv)"

definition shCurrentBytes :: "sharded \<Rightarrow> int" where "shCurrentBytes f = shBytes f"
definition shMaxMemoryBytes :: "sharded \<Rightarrow> int" where "shMaxMemoryBytes f = shMax f"
definition ShardCount :: nat where "ShardCount = shardedFrontierShards"

text \<open>One tick of \<open>sweepExpired\<close>: every shard in turn, each under its own lock.\<close>

definition tabSweep :: "gotime \<Rightarrow> tab \<Rightarrow> tab" where
  "tabSweep now t =
     fold (\<lambda>(p, a) u. if expired now (aExpiresAt a) then tabDrop p a u else u) (tEntries t) t"

definition sweepShard :: "gotime \<Rightarrow> nat \<Rightarrow> sharded \<Rightarrow> sharded" where
  "sweepShard now i f = setShard i (tabSweep now (shShards f ! i)) f"

definition shSweep :: "gotime \<Rightarrow> sharded \<Rightarrow> sharded" where
  "shSweep now f = fold (sweepShard now) [0..<length (shShards f)] f"

definition shClose :: "sharded \<Rightarrow> unit result \<times> sharded" where
  "shClose f = (Ok (), f\<lparr>shDone := True\<rparr>)"

section \<open>The invariant\<close>

text \<open>
  Every shard is a consistent table that only holds paths of its own, and the global byte
  count is the sum over the shards.
\<close>

definition sh_ok :: "ext \<Rightarrow> sharded \<Rightarrow> bool" where
  "sh_ok E f \<longleftrightarrow>
     length (shShards f) = shardedFrontierShards \<and>
     (\<forall>i < shardedFrontierShards. tab_ok (shShards f ! i) \<and>
        (\<forall>p. map_of (tEntries (shShards f ! i)) p \<noteq> None \<longrightarrow> shardFor E p = i)) \<and>
     shBytes f = sum_list (map tBytes (shShards f)) \<and> 0 < shMax f"

text \<open>No stored atom has a clock that was not issued yet.\<close>

definition sh_clocked :: "sharded \<Rightarrow> bool" where
  "sh_clocked f \<longleftrightarrow>
     (\<forall>t \<in> set (shShards f). \<forall>p a. map_of (tEntries t) p = Some a \<longrightarrow> aLogicalClock a \<le> shClock f)"

definition shEntry :: "ext \<Rightarrow> sharded \<Rightarrow> string \<Rightarrow> catom option" where
  "shEntry E f p = map_of (tEntries (shard E p f)) p"

lemma shardFor_lt [simp]: "shardFor E p < shardedFrontierShards"
  by (simp add: shardFor_def shardedFrontierShards_def)

lemma setShard_simps [simp]:
  "length (shShards (setShard i t f)) = length (shShards f)"
  "shMax (setShard i t f) = shMax f"
  "shClock (setShard i t f) = shClock f"
  "shBytes (setShard i t f) = shBytes f + (tBytes t - tBytes (shShards f ! i))"
  by (simp_all add: setShard_def)

lemma nth_setShard:
  "j < length (shShards f) \<Longrightarrow> shShards (setShard i t f) ! j = (if j = i then t else shShards f ! j)"
  by (simp add: setShard_def nth_list_update)

lemma sh_ok_shard: "sh_ok E f \<Longrightarrow> tab_ok (shard E p f)"
  by (simp add: sh_ok_def shard_def)

lemma sh_ok_all: "sh_ok E f \<Longrightarrow> t \<in> set (shShards f) \<Longrightarrow> tab_ok t"
  by (auto simp: sh_ok_def in_set_conv_nth)

lemma shard_setShard:
  "sh_ok E f \<Longrightarrow> shard E p (setShard i t f) = (if shardFor E p = i then t else shard E p f)"
  by (simp add: sh_ok_def shard_def nth_setShard)

lemma sum_list_update_int:
  "i < length xs \<Longrightarrow> sum_list (xs[i := (v::int)]) = sum_list xs + (v - xs ! i)"
  by (induction xs arbitrary: i) (auto simp: nth_Cons' split: nat.splits)

lemma sh_ok_setShard:
  assumes "sh_ok E f" and "i < shardedFrontierShards" and "tab_ok t"
    and "\<And>p. map_of (tEntries t) p \<noteq> None \<Longrightarrow> shardFor E p = i"
  shows "sh_ok E (setShard i t f)"
proof -
  have "sum_list (map tBytes (shShards (setShard i t f))) =
      sum_list (map tBytes (shShards f)) + (tBytes t - tBytes (shShards f ! i))"
    using assms(1,2) by (simp add: setShard_def map_update sum_list_update_int sh_ok_def)
  with assms show ?thesis
    unfolding sh_ok_def by (auto simp: nth_setShard)
qed

lemma sh_ok_new: "sh_ok E (NewShardedFrontierCacheWithLimit m)"
  by (simp add: sh_ok_def NewShardedFrontierCacheWithLimit_def shardedFrontierShards_def fourGB_def
      map_replicate_const sum_list_replicate) (simp add: emptyTab_def)

lemma sh_clocked_new: "sh_clocked (NewShardedFrontierCacheWithLimit m)"
  by (simp add: sh_clocked_def NewShardedFrontierCacheWithLimit_def emptyTab_def)

lemma sh_clocked_setShard:
  assumes "sh_clocked f"
    and "\<And>p a. map_of (tEntries t) p = Some a \<Longrightarrow> aLogicalClock a \<le> shClock f"
  shows "sh_clocked (setShard i t f)"
  unfolding sh_clocked_def
proof (intro ballI allI impI)
  fix u p a assume "u \<in> set (shShards (setShard i t f))" and e: "map_of (tEntries u) p = Some a"
  then have "u = t \<or> u \<in> set (shShards f)"
    using set_update_subset_insert [of "shShards f" i t] by (auto simp: setShard_def)
  with e assms show "aLogicalClock a \<le> shClock (setShard i t f)"
    by (auto simp: sh_clocked_def)
qed

lemma sh_clocked_shard:
  assumes "sh_ok E f" and "sh_clocked f" and "shEntry E f p = Some a"
  shows "aLogicalClock a \<le> shClock f"
proof -
  have "shard E p f \<in> set (shShards f)"
    using assms(1) by (simp add: sh_ok_def shard_def)
  with assms(2,3) show ?thesis by (auto simp: sh_clocked_def shEntry_def)
qed

section \<open>Eviction\<close>

lemma scanVictim_max:
  "scanVictim ts i v m = (w, m') \<Longrightarrow> m \<le> m' \<and> (\<forall>t \<in> set ts. tBytes t \<le> m')"
proof (induction ts arbitrary: i v m)
  case (Cons t ts)
  show ?case
  proof (cases "tBytes t > m")
    case True
    with Cons.prems Cons.IH [of "Suc i" "Some i" "tBytes t"] show ?thesis by auto
  next
    case False
    with Cons.prems Cons.IH [of "Suc i" v m] show ?thesis by auto
  qed
qed simp

lemma scanVictim_None: "scanVictim ts i v m = (None, m') \<Longrightarrow> v = None \<and> m' = m"
  by (induction ts arbitrary: i v m) (auto split: if_splits)

lemma sum_list_le_max:
  "(\<And>x. x \<in> set xs \<Longrightarrow> x \<le> m) \<Longrightarrow> sum_list xs \<le> int (length xs) * m"
  by (induction xs) (auto simp: algebra_simps add_mono)

text \<open>The chosen shard has at least a 32nd of the bytes; none is chosen only at zero bytes.\<close>

lemma pickVictim_max:
  assumes "sh_ok E f" and "pickVictim f = Some i"
  shows "shBytes f \<le> int shardedFrontierShards * tBytes (shShards f ! i)"
proof -
  obtain m where m: "scanVictim (shShards f) 0 None (- 1) = (Some i, m)"
    using assms(2) by (auto simp: pickVictim_def split: prod.splits option.splits if_splits)
  with scanVictim_bound [OF m] have "m = tBytes (shShards f ! i)" by auto
  with scanVictim_max [OF m] have "\<And>x. x \<in> set (map tBytes (shShards f)) \<Longrightarrow> x \<le> tBytes (shShards f ! i)"
    by auto
  from sum_list_le_max [of "map tBytes (shShards f)", OF this] assms(1) show ?thesis by (simp add: sh_ok_def)
qed

lemma pickVictim_None:
  assumes ok: "sh_ok E f" and "pickVictim f = None"
  shows "shBytes f \<le> 0"
proof -
  have nonneg: "0 \<le> tBytes t" if "t \<in> set (shShards f)" for t
    using ok that by (auto simp: sh_ok_def in_set_conv_nth tab_bytes_nonneg)
  obtain v m where m: "scanVictim (shShards f) 0 None (- 1) = (v, m)" by fastforce
  have "m \<le> 0"
  proof (cases v)
    case None
    with m scanVictim_None show ?thesis by fastforce
  next
    case (Some i)
    with scanVictim_bound m have i: "i < length (shShards f)" "m = tBytes (shShards f ! i)" by fastforce+
    then have "tab_ok (shShards f ! i)" using ok by (simp add: sh_ok_def)
    then have "tLru (shShards f ! i) = [] \<Longrightarrow> m = 0" by (simp add: i tab_ok_def)
    with assms(2) m Some show ?thesis by (auto simp: pickVictim_def split: if_splits)
  qed
  with scanVictim_max [OF m] have "\<And>x. x \<in> set (map tBytes (shShards f)) \<Longrightarrow> x \<le> 0" by force
  from sum_list_le_max [of "map tBytes (shShards f)", OF this] ok show ?thesis by (simp add: sh_ok_def)
qed

lemma evictOne_any:
  assumes ok: "sh_ok E f" and i: "i < shardedFrontierShards" and ne: "tLru (shShards f ! i) \<noteq> []"
  shows "sh_ok E (evictOne i f)"
    and "shEntry E (evictOne i f) p =
      (if shardFor E p = i \<and> p = last (tLru (shShards f ! i)) then None else shEntry E f p)"
proof -
  from ok i have t: "tab_ok (shShards f ! i)"
    and own: "\<And>p. map_of (tEntries (shShards f ! i)) p \<noteq> None \<Longrightarrow> shardFor E p = i"
    by (auto simp: sh_ok_def)
  obtain a where d: "tabEvictBack (shShards f ! i) = tabDrop (last (tLru (shShards f ! i))) a (shShards f ! i)"
    using tabEvictBack_eq [OF t ne] by blast
  have e: "map_of (tEntries (tabEvictBack (shShards f ! i))) q =
      (if q = last (tLru (shShards f ! i)) then None else map_of (tEntries (shShards f ! i)) q)" for q
    by (simp add: d) (simp add: tabDrop_def gomap)
  show "sh_ok E (evictOne i f)"
    unfolding evictOne_def
    by (rule sh_ok_setShard [OF ok i tab_ok_evictBack [OF t ne]]) (auto simp: e own split: if_splits)
  show "shEntry E (evictOne i f) p =
      (if shardFor E p = i \<and> p = last (tLru (shShards f ! i)) then None else shEntry E f p)"
    unfolding shEntry_def evictOne_def shard_setShard [OF ok] using e [of p] by (auto simp: shard_def)
qed

lemma evictOne_props:
  assumes ok: "sh_ok E f" and v: "pickVictim f = Some i"
  shows "sh_ok E (evictOne i f)"
    and "shEntry E (evictOne i f) p =
      (if shardFor E p = i \<and> p = last (tLru (shShards f ! i)) then None else shEntry E f p)"
proof -
  from pickVictim_Some [OF v] ok have i: "i < shardedFrontierShards" "tLru (shShards f ! i) \<noteq> []"
    by (auto simp: sh_ok_def)
  show "sh_ok E (evictOne i f)" by (rule evictOne_any [OF ok i])
  show "shEntry E (evictOne i f) p =
      (if shardFor E p = i \<and> p = last (tLru (shShards f ! i)) then None else shEntry E f p)"
    by (rule evictOne_any [OF ok i])
qed

lemma evictOne_simps [simp]:
  "shMax (evictOne i f) = shMax f" "shClock (evictOne i f) = shClock f"
  by (simp_all add: evictOne_def)

text \<open>An induction rule for the loop: what holds at its exits and is kept by one round.\<close>

lemma evictToTarget_cases:
  "evictToTarget target f = f \<and> (shBytes f \<le> target \<or> pickVictim f = None) \<or>
   (\<exists>i. target < shBytes f \<and> pickVictim f = Some i \<and>
      (evictToTarget target f = evictOne i f \<and> list_all (\<lambda>t. tLru t = []) (shShards (evictOne i f)) \<or>
       evictToTarget target f = evictToTarget target (evictOne i f)))"
  using evictToTarget.simps [of target f] by (auto simp: Let_def split: option.splits if_splits)

lemma evictToTarget_rule [consumes 1, case_names stop round]:
  assumes "P f"
    and stop: "\<And>g. P g \<Longrightarrow> shBytes g \<le> target \<or> pickVictim g = None \<or>
        list_all (\<lambda>t. tLru t = []) (shShards g) \<Longrightarrow> Q g"
    and round: "\<And>g i. P g \<Longrightarrow> target < shBytes g \<Longrightarrow> pickVictim g = Some i \<Longrightarrow> P (evictOne i g)"
  shows "Q (evictToTarget target f)"
  using assms(1)
proof (induction f rule: measure_induct_rule [of lruTotal])
  case (less f)
  from evictToTarget_cases [of target f] show ?case
  proof (elim disjE conjE exE)
    fix i assume i: "target < shBytes f" "pickVictim f = Some i"
      and e: "evictToTarget target f = evictToTarget target (evictOne i f)"
    from less.IH [of "evictOne i f"] round [OF less.prems i] pickVictim_Some [OF i(2)]
    show ?thesis by (simp add: e lruTotal_evictOne)
  qed (auto intro: stop less.prems round)
qed

lemma sh_empty_bytes:
  assumes "sh_ok E f" and "list_all (\<lambda>t. tLru t = []) (shShards f)"
  shows "shBytes f = 0"
proof -
  have "tBytes t = 0" if "t \<in> set (shShards f)" for t
    using assms that by (auto simp: list_all_iff intro: tab_empty_bytes sh_ok_all)
  with assms(1) show ?thesis by (simp add: sh_ok_def cong: map_cong)
qed

lemma evictToTarget_ok:
  assumes "sh_ok E f" and "0 \<le> target"
  shows "sh_ok E (evictToTarget target f) \<and> shBytes (evictToTarget target f) \<le> target"
  using assms(1)
proof (induction rule: evictToTarget_rule)
  case (stop g)
  with assms(2) pickVictim_None [of E g] sh_empty_bytes [of E g] show ?case by auto
next
  case (round g i)
  then show ?case by (auto intro: evictOne_props)
qed

lemma evictToTarget_sub:
  assumes "sh_ok E f"
  shows "shEntry E (evictToTarget target f) p \<in> {None, shEntry E f p} \<and>
    shClock (evictToTarget target f) = shClock f \<and> shMax (evictToTarget target f) = shMax f"
proof -
  let ?P = "\<lambda>g. sh_ok E g \<and> shEntry E g p \<in> {None, shEntry E f p} \<and>
      shClock g = shClock f \<and> shMax g = shMax f"
  have "?P (evictToTarget target f)"
    by (rule evictToTarget_rule [where P = ?P]) (use assms in \<open>auto simp: evictOne_props\<close>)
  then show ?thesis by simp
qed

text \<open>
  The most recently used path of its shard survives when 32 times its estimate fits in the
  target: while the loop runs, the fullest shard holds more than that one entry.
\<close>

lemma evictToTarget_keeps_front:
  assumes ok: "sh_ok E f" and front: "tLru (shard E p f) \<noteq> []" "hd (tLru (shard E p f)) = p"
    and e: "shEntry E f p = Some a"
    and fits: "int shardedFrontierShards * estimateAtomBytes p a \<le> target"
  shows "shEntry E (evictToTarget target f) p = Some a"
proof -
  let ?P = "\<lambda>g. sh_ok E g \<and> tLru (shard E p g) \<noteq> [] \<and> hd (tLru (shard E p g)) = p \<and> shEntry E g p = Some a"
  from ok front e have "?P f" by simp
  then show ?thesis
  proof (induction rule: evictToTarget_rule)
    case (round g i)
    show ?case
    proof (cases "shardFor E p = i")
      case True
      have t: "shShards g ! i = shard E p g" using True by (simp add: shard_def)
      from pickVictim_max [of E g i] round fits
      have big: "estimateAtomBytes p a < tBytes (shard E p g)" by (simp add: t shardedFrontierShards_def)
      obtain q qs where l: "tLru (shard E p g) = p # q # qs"
      proof (cases "tLru (shard E p g)")
        case Nil
        with round show ?thesis by simp
      next
        case (Cons x xs)
        with round have x: "x = p" by simp
        show ?thesis
        proof (cases xs)
          case Nil
          with Cons x round big tab_bytes_lruSum [of "shard E p g"] sh_ok_shard [of E g p] show ?thesis
            by (simp add: lruSum_def shEntry_def)
        qed (use Cons x that in simp)
      qed
      have "distinct (tLru (shard E p g))" using round sh_ok_shard [of E g p] tab_okD(3) by blast
      then have "p \<noteq> last (tLru (shard E p g))" by (auto simp: l)
      then show ?thesis
        using round evictOne_props [of E g i] True
        by (simp add: t l evictOne_def shard_setShard)
    next
      case False
      then show ?thesis
        using round evictOne_props [of E g i] by (simp add: evictOne_def shard_setShard)
    qed
  qed simp
qed

section \<open>Committing a write\<close>

lemma sameAtomContent_content:
  "sameAtomContent E a b \<Longrightarrow>
     sameContent E (aExpr a) (aExpr b) \<and> UnixNano (aExpiresAt a) = UnixNano (aExpiresAt b)"
  by (cases "aExpr a"; cases "aExpr b")
    (simp_all add: sameAtomContent_def sameContent_def split: if_splits)

lemma tabCommit_ok:
  "tab_ok t \<Longrightarrow> aPath a = path \<Longrightarrow> tabCommit E path a t = (c, h, t') \<Longrightarrow> tab_ok t'"
  by (auto simp: tabCommit_def tab_ok_touch tab_ok_write split: option.splits if_splits)

lemma tabCommit_entries:
  "tabCommit E path a t = (c, h, t') \<Longrightarrow>
     map_of (tEntries t') q = (if c = Stored \<and> q = path then Some a else map_of (tEntries t) q)"
  by (auto simp: tabCommit_def gomap split: option.splits if_splits)

lemma shCommit_tab:
  assumes "shCommit E a f = (c, h, f')"
  obtains t where "tabCommit E (aPath a) a (shard E (aPath a) f) = (c, h, t)"
    and "f' = setShard (shardFor E (aPath a)) t f"
  using assms by (auto simp: shCommit_def shard_def Let_def split: prod.splits)

lemma shCommit_ok:
  assumes ok: "sh_ok E f" and cm: "shCommit E a f = (c, h, f')"
  shows "sh_ok E f'"
  using cm
proof (rule shCommit_tab)
  fix t assume t: "tabCommit E (aPath a) a (shard E (aPath a) f) = (c, h, t)"
    and f': "f' = setShard (shardFor E (aPath a)) t f"
  have own: "shardFor E p = shardFor E (aPath a)" if "map_of (tEntries t) p \<noteq> None" for p
  proof (cases "p = aPath a")
    case False
    with that t have "map_of (tEntries (shard E (aPath a) f)) p \<noteq> None"
      by (simp add: tabCommit_entries)
    with ok show ?thesis unfolding sh_ok_def shard_def using shardFor_lt by blast
  qed simp
  show ?thesis
    unfolding f' by (rule sh_ok_setShard [OF ok shardFor_lt tabCommit_ok [OF sh_ok_shard [OF ok] _ t] own]) simp
qed

lemma shCommit_entry:
  assumes ok: "sh_ok E f" and cm: "shCommit E a f = (c, h, f')"
  shows "shEntry E f' q = (if c = Stored \<and> q = aPath a then Some a else shEntry E f q)"
  using cm
proof (rule shCommit_tab)
  fix t assume t: "tabCommit E (aPath a) a (shard E (aPath a) f) = (c, h, t)"
    and f': "f' = setShard (shardFor E (aPath a)) t f"
  show ?thesis
  proof (cases "shardFor E q = shardFor E (aPath a)")
    case True
    then have "shard E q f = shard E (aPath a) f" by (simp add: shard_def)
    with True show ?thesis
      by (simp add: f' shEntry_def shard_setShard [OF ok] tabCommit_entries [OF t])
  next
    case False
    then show ?thesis by (auto simp: f' shEntry_def shard_setShard [OF ok])
  qed
qed

text \<open>The three outcomes, by the resident atom.\<close>

lemma shCommit_outcome:
  "shCommit E a f = (c, h, f') \<Longrightarrow>
     (case shEntry E f (aPath a) of
        None \<Rightarrow> c = Stored \<and> h = aHash a
      | Some old \<Rightarrow>
          if aLogicalClock old > aLogicalClock a then c = Discarded \<and> h = aHash old
          else if aHash old \<noteq> aHash a \<and> sameAtomContent E old a then c = Deduped \<and> h = aHash old
          else c = Stored \<and> h = aHash a)"
  by (auto simp: shCommit_def shEntry_def shard_def tabCommit_def Let_def split: option.splits if_splits)

lemma shCommit_clocked:
  assumes ok: "sh_ok E f" and cl: "sh_clocked f" and a: "aLogicalClock a \<le> shClock f"
    and cm: "shCommit E a f = (c, h, f')"
  shows "sh_clocked f' \<and> shClock f' = shClock f \<and> shMax f' = shMax f"
  using cm
proof (rule shCommit_tab)
  fix t assume t: "tabCommit E (aPath a) a (shard E (aPath a) f) = (c, h, t)"
    and f': "f' = setShard (shardFor E (aPath a)) t f"
  have "shard E (aPath a) f \<in> set (shShards f)" using ok by (simp add: sh_ok_def shard_def)
  then have "aLogicalClock b \<le> shClock f" if "map_of (tEntries t) p = Some b" for p b
    using that cl a by (auto simp: tabCommit_entries [OF t] sh_clocked_def split: if_splits)
  then show ?thesis unfolding f' by (auto intro: sh_clocked_setShard [OF cl])
qed

lemma evictOne_clocked:
  assumes "sh_ok E f" and "sh_clocked f" and i: "i < shardedFrontierShards" "tLru (shShards f ! i) \<noteq> []"
  shows "sh_clocked (evictOne i f)"
  unfolding evictOne_def
proof (rule sh_clocked_setShard [OF assms(2)])
  fix p a assume "map_of (tEntries (tabEvictBack (shShards f ! i))) p = Some a"
  then have "map_of (tEntries (shShards f ! i)) p = Some a"
    by (auto simp: tabEvictBack_def Let_def gomap split: option.splits if_splits)
  moreover have "shShards f ! i \<in> set (shShards f)" using assms by (simp add: sh_ok_def)
  ultimately show "aLogicalClock a \<le> shClock f" using assms(2) by (auto simp: sh_clocked_def)
qed

lemma evictToTarget_clocked:
  assumes "sh_ok E f" and "sh_clocked f"
  shows "sh_clocked (evictToTarget target f)"
proof (rule evictToTarget_rule [where P = "\<lambda>g. sh_ok E g \<and> sh_clocked g"])
  fix g i assume g: "sh_ok E g \<and> sh_clocked g" and i: "pickVictim g = Some i"
  with pickVictim_Some [OF i] show "sh_ok E (evictOne i g) \<and> sh_clocked (evictOne i g)"
    using evictOne_clocked [of E g i] evictOne_props(1) [of E g i]
    by (auto simp: sh_ok_def [of E g])
qed (use assms in auto)


section \<open>The interface laws\<close>

definition shCur :: "ext \<Rightarrow> gotime \<Rightarrow> sharded \<Rightarrow> string \<Rightarrow> catom option" where
  "shCur E now f p = tabLive now (shard E p f) p"

definition sh_inv :: "ext \<Rightarrow> sharded \<Rightarrow> bool" where
  "sh_inv E f \<longleftrightarrow> sh_ok E f \<and> sh_clocked f"

definition sh_room :: "sharded \<Rightarrow> bool" where
  "sh_room f \<longleftrightarrow> shClock f \<noteq> - 1"

definition shStore :: "ext \<Rightarrow> sharded store" where
  "shStore E =
     \<lparr>sAppendAtom = shAppendAtom E, sGetCurrent = shGetCurrent E, sGetParents = shGetParents,
      sGetAtom = shGetAtom, sFrontierPaths = shFrontierPaths, sClose = shClose,
      sGetCurrentHash = shGetCurrentHash E, sFindChangedPaths = shFindChangedPaths E,
      sVerifyVersionVector = shVerifyVersionVector E\<rparr>"

lemma shCur_entry:
  "shCur E now f p = (case shEntry E f p of None \<Rightarrow> None
     | Some a \<Rightarrow> if expired now (aExpiresAt a) then None else Some a)"
  by (simp add: shCur_def shEntry_def tabLive_def)

lemma shMint_simps [simp]:
  "fst (shMint E now e path x f) = mintAtom E e path (shClock f + 1) now x"
  "snd (shMint E now e path x f) = f\<lparr>shClock := shClock f + 1\<rparr>"
  by (simp_all add: shMint_def Let_def)

lemma sh_ok_clock [simp]: "sh_ok E (f\<lparr>shClock := c\<rparr>) = sh_ok E f"
  by (simp add: sh_ok_def)

lemma shEntry_clock [simp]: "shEntry E (f\<lparr>shClock := c\<rparr>) p = shEntry E f p"
  by (simp add: shEntry_def shard_def)

lemma sh_clocked_mono: "sh_clocked f \<Longrightarrow> shClock f \<le> c \<Longrightarrow> sh_clocked (f\<lparr>shClock := c\<rparr>)"
  unfolding sh_clocked_def by (auto intro: order_trans)

lemma shAppendAtom_split:
  assumes "shAppendAtom E now e path ps x f = (Ok h, f')"
  obtains c g where "shCommit E (mintAtom E e path (shClock f + 1) now x) (f\<lparr>shClock := shClock f + 1\<rparr>) = (c, h, g)"
    and "f' = (if c = Stored then shEnforce g else g)"
  using assms by (auto simp: shAppendAtom_def shMint_def Let_def split: prod.splits)

lemma shEnforce_sub:
  assumes "sh_ok E f"
  shows "shEntry E (shEnforce f) p \<in> {None, shEntry E f p}" and "sh_ok E (shEnforce f)"
    and "shMax (shEnforce f) = shMax f" and "shClock (shEnforce f) = shClock f"
  using evictToTarget_sub [OF assms, of "target80 (shMax f)" p]
    evictToTarget_ok [OF assms, of "target80 (shMax f)"] assms
  by (auto simp: shEnforce_def)

lemma sh_inv_Append:
  assumes inv: "sh_inv E f" and room: "sh_room f" and ap: "shAppendAtom E now e path ps x f = (Ok h, f')"
  shows "sh_inv E f'" and "shClock f' = shClock f + 1" and "shMax f' = shMax f"
    and "q \<noteq> path \<Longrightarrow> shEntry E f' q \<in> {None, shEntry E f q}"
    and "shEntry E f' path = Some a \<Longrightarrow>
      aHash a = h \<and> sameContent E (aExpr a) e \<and> UnixNano (aExpiresAt a) = UnixNano x"
proof -
  let ?a = "mintAtom E e path (shClock f + 1) now x" and ?f = "f\<lparr>shClock := shClock f + 1\<rparr>"
  have lt: "b \<le> shClock f \<Longrightarrow> b < shClock f + 1" for b
    using room by (simp add: sh_room_def word_less_succ)
  have ok: "sh_ok E ?f" and cl: "sh_clocked ?f"
    using inv lt [of "shClock f"] by (auto simp: sh_inv_def intro!: sh_clocked_mono)
  obtain c g where cm: "shCommit E ?a ?f = (c, h, g)" and f': "f' = (if c = Stored then shEnforce g else g)"
    using shAppendAtom_split [OF ap] by blast
  have okg: "sh_ok E g" by (rule shCommit_ok [OF ok cm])
  have g: "sh_clocked g \<and> shClock g = shClock f + 1 \<and> shMax g = shMax f"
    using shCommit_clocked [OF ok cl _ cm] by simp
  have "sh_clocked (shEnforce g)" using g okg by (simp add: shEnforce_def evictToTarget_clocked)
  then show "sh_inv E f'" "shClock f' = shClock f + 1" "shMax f' = shMax f"
    using g okg shEnforce_sub [OF okg] by (auto simp: f' sh_inv_def)
  have ent: "shEntry E f' q \<in> {None, shEntry E g q}" for q
    using shEnforce_sub(1) [OF okg] by (auto simp: f')
  show "q \<noteq> path \<Longrightarrow> shEntry E f' q \<in> {None, shEntry E f q}"
    using ent [of q] shCommit_entry [OF ok cm, of q] by auto
  have nodisc: "\<not> aLogicalClock old > shClock f + 1" if "shEntry E f path = Some old" for old
    using lt [OF sh_clocked_shard [of E f path old]] inv that by (auto simp: sh_inv_def)
  have out: "case shEntry E f path of None \<Rightarrow> c = Stored \<and> h = aHash ?a
    | Some old \<Rightarrow> if aHash old \<noteq> aHash ?a \<and> sameAtomContent E old ?a then c = Deduped \<and> h = aHash old
        else c = Stored \<and> h = aHash ?a"
    using shCommit_outcome [OF cm] nodisc by (auto split: option.splits if_splits)
  show "aHash a = h \<and> sameContent E (aExpr a) e \<and> UnixNano (aExpiresAt a) = UnixNano x"
    if "shEntry E f' path = Some a"
    using ent [of path] that out shCommit_entry [OF ok cm, of path]
    by (auto split: option.splits if_splits dest: sameAtomContent_content)
qed

lemma shGetCurrent_entry:
  assumes ok: "sh_ok E f"
  shows "sh_ok E (snd (shGetCurrent E now p f))"
    and "shEntry E (snd (shGetCurrent E now p f)) q = shEntry E f q"
proof -
  have own: "shardFor E r = shardFor E p" if "map_of (tEntries (shard E p f)) r \<noteq> None" for r
    using ok that shardFor_lt unfolding sh_ok_def shard_def by blast
  have "sh_ok E (setShard (shardFor E p) (tabTouch p (shard E p f)) f)"
    by (rule sh_ok_setShard [OF ok]) (simp_all add: tab_ok_touch sh_ok_shard [OF ok] own)
  with ok show "sh_ok E (snd (shGetCurrent E now p f))"
    by (simp add: shGetCurrent_def split: option.split)
  have "shardFor E q = shardFor E p \<Longrightarrow> shard E q f = shard E p f" by (simp add: shard_def)
  then show "shEntry E (snd (shGetCurrent E now p f)) q = shEntry E f q"
    by (auto simp: shGetCurrent_def shEntry_def shard_setShard [OF ok] split: option.split)
qed

lemma sh_inv_GetCurrent: "sh_inv E f \<Longrightarrow> sh_inv E (snd (shGetCurrent E now p f))"
proof -
  assume inv: "sh_inv E f"
  then have "shard E p f \<in> set (shShards f)" by (simp add: sh_inv_def sh_ok_def shard_def)
  with inv have "sh_clocked (setShard (shardFor E p) (tabTouch p (shard E p f)) f)"
    by (intro sh_clocked_setShard) (auto simp: sh_inv_def sh_clocked_def)
  with inv shGetCurrent_entry(1) [of E f now p] show ?thesis
    by (auto simp: sh_inv_def shGetCurrent_def split: option.splits)
qed

lemma scanAtom_hash:
  "\<forall>t \<in> set ts. tab_ok t \<Longrightarrow> scanAtom now h ts = Some a \<Longrightarrow> aHash a = h"
  by (induction ts) (auto split: option.splits if_splits dest: tab_okD(7))

lemma scanAtom_cong:
  "list_all2 (\<lambda>t u. tHashToPath t = tHashToPath u \<and> tEntries t = tEntries u) ts us \<Longrightarrow>
     scanAtom now h ts = scanAtom now h us"
  by (induction rule: list_all2_induct) (auto split: option.split)

lemma shGetAtom_touch:
  assumes "sh_ok E f"
  shows "shGetAtom t h (snd (shGetCurrent E now p f)) = shGetAtom t h f"
proof -
  have "list_all2 (\<lambda>t u. tHashToPath t = tHashToPath u \<and> tEntries t = tEntries u)
      (shShards (setShard (shardFor E p) (tabTouch p (shard E p f)) f)) (shShards f)"
    using assms by (auto simp: list_all2_conv_all_nth nth_setShard shard_def)
  then show ?thesis
    by (auto simp: shGetAtom_def shGetCurrent_def intro: scanAtom_cong split: option.split)
qed

interpretation sh: store_appends "shStore E" "sh_inv E" "shCur E" E sh_room for E
proof (unfold_locales, goal_cases)
  case (1 f now p)
  then show ?case
    by (auto simp: shStore_def shGetCurrent_def shCur_def tabLive_def split: option.split)
next
  case (2 f now p)
  then show ?case by (simp add: shStore_def sh_inv_GetCurrent)
next
  case (3 f t now p q)
  then show ?case by (simp add: shStore_def shCur_entry sh_inv_def shGetCurrent_entry)
next
  case (4 f now p)
  then show ?case
    by (auto simp: shStore_def shGetCurrentHash_def shCur_def tabLive_def split: option.split)
next
  case (5 f now vv)
  then show ?case
    by (simp add: shStore_def shVerifyVersionVector_def shCur_def matches_def tabStale_live)
next
  case (6 f now vv)
  then show ?case by (simp add: shStore_def shFindChangedPaths_def shCur_def tabStale_live)
next
  case (7 f now h a)
  then show ?case
    using scanAtom_hash [of "shShards f"] by (auto simp: shStore_def shGetAtom_def sh_inv_def dest: sh_ok_all)
next
  case (8 f t h now p)
  then show ?case by (simp add: shStore_def shGetAtom_touch sh_inv_def)
next
  case (9 f now p a)
  then show ?case
    using tab_okD(6) [OF sh_ok_shard]
    by (auto simp: shCur_def tabLive_def sh_inv_def split: option.splits if_splits)
next
  case (10 f now e p ps x)
  then show ?case by (simp add: shStore_def shAppendAtom_def Let_def split: prod.splits)
next
  case (11 f now e p ps x h f')
  then show ?case by (auto simp: shStore_def intro: sh_inv_Append(1))
next
  case (12 f now e p ps x h f' q t)
  then show ?case using sh_inv_Append(4) [of E f now e p ps x h f' q]
    by (auto simp: shStore_def shCur_entry split: option.splits)
next
  case (13 f now e p ps x h f' t a)
  then show ?case using sh_inv_Append(5) [of E f now e p ps x h f' a]
    by (auto simp: shStore_def shCur_entry split: option.splits if_splits)
qed


section \<open>Sweeping\<close>

lemma tabSweep_drops:
  "tabSweep now t = fold (\<lambda>(p, a). tabDrop p a) (filter (\<lambda>(p, a). expired now (aExpiresAt a)) (tEntries t)) t"
proof -
  have "fold (\<lambda>(p, a) u. if expired now (aExpiresAt a) then tabDrop p a u else u) es u =
      fold (\<lambda>(p, a). tabDrop p a) (filter (\<lambda>(p, a). expired now (aExpiresAt a)) es) u" for es u
    by (induction es arbitrary: u) (auto split: prod.splits)
  then show ?thesis by (simp add: tabSweep_def)
qed

lemma tabSweep_ok:
  assumes "tab_ok t"
  shows "tab_ok (tabSweep now t)"
    and "map_of (tEntries (tabSweep now t)) q =
      (case map_of (tEntries t) q of None \<Rightarrow> None
       | Some a \<Rightarrow> if expired now (aExpiresAt a) then None else Some a)"
proof -
  let ?es = "filter (\<lambda>(p, a). expired now (aExpiresAt a)) (tEntries t)"
  have ok: "gomap_ok (tEntries t)" using assms by (rule tab_okD)
  have d: "distinct (map fst ?es)" using ok by (simp add: gomap_ok_def distinct_map_filter)
  have m: "\<And>p a. (p, a) \<in> set ?es \<Longrightarrow> map_of (tEntries t) p = Some a"
    using gomap_in_set [OF ok] by auto
  note drops = tab_ok_drops [OF assms d m]
  from drops show "tab_ok (tabSweep now t)" by (simp add: tabSweep_drops)
  have "q \<in> fst ` set ?es \<longleftrightarrow> (\<exists>a. map_of (tEntries t) q = Some a \<and> expired now (aExpiresAt a))"
    by (force simp: gomap_in_set [OF ok, symmetric])
  with drops show "map_of (tEntries (tabSweep now t)) q =
      (case map_of (tEntries t) q of None \<Rightarrow> None
       | Some a \<Rightarrow> if expired now (aExpiresAt a) then None else Some a)"
    by (auto simp: tabSweep_drops split: option.split)
qed

lemma sweepShard_props:
  assumes ok: "sh_ok E f" and i: "i < shardedFrontierShards"
  shows "sh_ok E (sweepShard now i f)"
    and "sh_clocked f \<Longrightarrow> sh_clocked (sweepShard now i f)"
    and "shEntry E (sweepShard now i f) p =
      (if shardFor E p = i then (case shEntry E f p of None \<Rightarrow> None
         | Some a \<Rightarrow> if expired now (aExpiresAt a) then None else Some a) else shEntry E f p)"
proof -
  from ok i have t: "tab_ok (shShards f ! i)" and mem: "shShards f ! i \<in> set (shShards f)"
    and own: "\<And>p. map_of (tEntries (shShards f ! i)) p \<noteq> None \<Longrightarrow> shardFor E p = i"
    by (auto simp: sh_ok_def)
  note e = tabSweep_ok(2) [OF t, of now]
  show "sh_ok E (sweepShard now i f)"
    unfolding sweepShard_def
    by (rule sh_ok_setShard [OF ok i tabSweep_ok(1) [OF t]]) (auto simp: e own split: option.splits)
  show "sh_clocked f \<Longrightarrow> sh_clocked (sweepShard now i f)"
    unfolding sweepShard_def
    by (rule sh_clocked_setShard) (use mem in \<open>auto simp: e sh_clocked_def split: option.splits if_splits\<close>)
  have "shardFor E p = i \<Longrightarrow> shard E p f = shShards f ! i" by (simp add: shard_def)
  then show "shEntry E (sweepShard now i f) p =
      (if shardFor E p = i then (case shEntry E f p of None \<Rightarrow> None
         | Some a \<Rightarrow> if expired now (aExpiresAt a) then None else Some a) else shEntry E f p)"
    by (simp add: shEntry_def sweepShard_def shard_setShard [OF ok] e)
qed

lemma shSweep_fold:
  assumes "sh_ok E f" and "set is \<subseteq> {..<shardedFrontierShards}"
  shows "sh_ok E (fold (sweepShard now) is f) \<and>
    (sh_clocked f \<longrightarrow> sh_clocked (fold (sweepShard now) is f)) \<and>
    shEntry E (fold (sweepShard now) is f) p =
      (if shardFor E p \<in> set is then (case shEntry E f p of None \<Rightarrow> None
         | Some a \<Rightarrow> if expired now (aExpiresAt a) then None else Some a) else shEntry E f p)"
  using assms
proof (induction "is" arbitrary: f)
  case (Cons i "is")
  then have i: "i < shardedFrontierShards" by simp
  note w = sweepShard_props [OF Cons.prems(1) i]
  from Cons.IH [OF w(1)] Cons.prems(2) w show ?case
    by (auto split: option.split)
qed simp

lemma expired_mono: "expired now x \<Longrightarrow> now \<le> t \<Longrightarrow> expired t x"
  by (auto simp: expired_def)

text \<open>
  C32: sweeping expired entries is invisible.  A reader at the time of the sweep or later
  sees the same frontier as if the sweep had not run: \<open>GetCurrent\<close> answers the same for
  every path, and \<open>VerifyVersionVector\<close> the same for every vector.
\<close>

theorem sh_sweep_invisible:
  assumes inv: "sh_inv E f" and t: "now \<le> t"
  shows "fst (shGetCurrent E t p (shSweep now f)) = fst (shGetCurrent E t p f) \<and>
    shVerifyVersionVector E t vv (shSweep now f) = shVerifyVersionVector E t vv f"
proof -
  have ok: "sh_ok E f" and l: "length (shShards f) = shardedFrontierShards"
    using inv by (auto simp: sh_inv_def sh_ok_def)
  have "set [0..<shardedFrontierShards] \<subseteq> {..<shardedFrontierShards}" by auto
  note sw = shSweep_fold [OF ok this, of now, folded l, folded shSweep_def]
  have inv': "sh_inv E (shSweep now f)" using sw inv by (auto simp: sh_inv_def)
  have cur: "shCur E t (shSweep now f) q = shCur E t f q" for q
    using sw [of q] expired_mono [OF _ t] by (auto simp: shCur_entry l split: option.split)
  show ?thesis
    using sh.GetCurrent_cur [OF inv', of t p] sh.GetCurrent_cur [OF inv, of t p]
      sh.Verify_cur [OF inv', of t vv] sh.Verify_cur [OF inv, of t vv] cur
    by (simp add: shStore_def matches_def)
qed

lemma sh_inv_new: "sh_inv E (NewShardedFrontierCacheWithLimit m)"
  by (simp add: sh_inv_def sh_ok_new sh_clocked_new)

lemma sh_room_new: "sh_room (NewShardedFrontierCacheWithLimit m)"
  by (simp add: sh_room_def NewShardedFrontierCacheWithLimit_def)

lemma shAppendAtom_Ok: "\<exists>h. shAppendAtom E now e path ps x f = (Ok h, snd (shAppendAtom E now e path ps x f))"
  by (simp add: shAppendAtom_def Let_def split: prod.splits)

theorem sh_sweep_invisible_witness:
  "let f = snd (shAppendAtom ext0 5 (EConst (VInt 7)) ''k'' [] 6 (NewShardedFrontierCacheWithLimit 1000)) in
     sh_inv ext0 f \<and> fst (shGetCurrent ext0 9 ''k'' (shSweep 8 f)) = fst (shGetCurrent ext0 9 ''k'' f)"
proof -
  let ?f = "snd (shAppendAtom ext0 5 (EConst (VInt 7)) ''k'' [] 6 (NewShardedFrontierCacheWithLimit 1000))"
  have inv: "sh_inv ext0 ?f"
    using shAppendAtom_Ok sh_inv_Append(1) [OF sh_inv_new sh_room_new] by metis
  with sh_sweep_invisible [OF inv, of 8 9] show ?thesis by (simp add: Let_def)
qed

section \<open>Reachable states\<close>

text \<open>
  The cache with its writers: the second component holds the atoms that were minted and not
  yet committed.  Every rule is one critical section of the code, so the relation has every
  interleaving of writers, readers, the rounds of the eviction loops and the sweeper.
\<close>

inductive sh_step :: "ext \<Rightarrow> sharded \<times> catom list \<Rightarrow> sharded \<times> catom list \<Rightarrow> bool" for E where
  mint: "sh_room f \<Longrightarrow> shMint E now e path x f = (a, f') \<Longrightarrow> sh_step E (f, ps) (f', a # ps)"
| commit: "a \<in> set ps \<Longrightarrow> shCommit E a f = (c, h, f') \<Longrightarrow> sh_step E (f, ps) (f', remove1 a ps)"
| evict: "i < shardedFrontierShards \<Longrightarrow> tLru (shShards f ! i) \<noteq> [] \<Longrightarrow>
    sh_step E (f, ps) (evictOne i f, ps)"
| get: "shGetCurrent E now path f = (r, f') \<Longrightarrow> sh_step E (f, ps) (f', ps)"
| sweep: "i < shardedFrontierShards \<Longrightarrow> sh_step E (f, ps) (sweepShard now i f, ps)"
| close: "shClose f = (r, f') \<Longrightarrow> sh_step E (f, ps) (f', ps)"

definition sh_run_ok :: "ext \<Rightarrow> sharded \<times> catom list \<Rightarrow> bool" where
  "sh_run_ok E s \<longleftrightarrow> sh_inv E (fst s) \<and> (\<forall>a \<in> set (snd s). aLogicalClock a \<le> shClock (fst s))"

lemma shGetCurrent_clock: "shClock (snd (shGetCurrent E now path f)) = shClock f"
  by (simp add: shGetCurrent_def split: option.split)

lemma sh_run_ok_step: "sh_step E s s' \<Longrightarrow> sh_run_ok E s \<Longrightarrow> sh_run_ok E s'"
proof (induction rule: sh_step.induct)
  case (mint f now e path x a f' ps)
  have lt: "c \<le> shClock f \<Longrightarrow> c \<le> shClock f + 1" for c
    using mint(1) by (simp add: sh_room_def word_less_succ less_imp_le)
  from mint(2) have "a = mintAtom E e path (shClock f + 1) now x" "f' = f\<lparr>shClock := shClock f + 1\<rparr>"
    by (auto simp: shMint_def Let_def)
  with mint(3) lt show ?case by (auto simp: sh_run_ok_def sh_inv_def intro!: sh_clocked_mono)
next
  case (commit a ps f c h f')
  then show ?case
    using shCommit_ok [OF _ commit(2)] shCommit_clocked [OF _ _ _ commit(2)]
    by (auto simp: sh_run_ok_def sh_inv_def dest: notin_set_remove1)
next
  case (evict i f ps)
  then show ?case
    by (auto simp: sh_run_ok_def sh_inv_def evictOne_any evictOne_clocked)
next
  case (get now path f r f' ps)
  then show ?case
    using sh_inv_GetCurrent [of E f now path] shGetCurrent_clock [of E now path f]
    by (auto simp: sh_run_ok_def)
next
  case (sweep i f ps now)
  then show ?case
    by (auto simp: sh_run_ok_def sh_inv_def sweepShard_props) (simp_all add: sweepShard_def)
next
  case (close f r f' ps)
  then show ?case
    by (auto simp: sh_run_ok_def sh_inv_def sh_ok_def sh_clocked_def shClose_def)
qed



section \<open>Writes\<close>

lemma shCommit_bytes: "shCommit E a f = (c, h, f') \<Longrightarrow> c \<noteq> Stored \<Longrightarrow> shBytes f' = shBytes f"
  by (auto simp: shCommit_def tabCommit_def Let_def split: option.splits if_splits)

text \<open>
  C12: the memory ceiling of the sharded cache.  A write that runs without interference
  leaves the estimated memory within the limit: a stored atom triggers eviction down to 80%
  as soon as 90% is reached, and a write that stores nothing does not change the count.
\<close>

theorem sh_append_bounded:
  assumes inv: "sh_inv E f" and room: "sh_room f" and le: "shCurrentBytes f \<le> shMax f"
    and ap: "shAppendAtom E now e path ps x f = (Ok h, f')"
  shows "sh_inv E f' \<and> shCurrentBytes f' \<le> shMax f'"
proof -
  let ?f = "f\<lparr>shClock := shClock f + 1\<rparr>"
  obtain c g where cm: "shCommit E (mintAtom E e path (shClock f + 1) now x) ?f = (c, h, g)"
    and f': "f' = (if c = Stored then shEnforce g else g)"
    using shAppendAtom_split [OF ap] by blast
  have ok: "sh_ok E g" using shCommit_ok [OF _ cm] inv by (simp add: sh_inv_def)
  have m: "0 < shMax g" "shMax f' = shMax g" using ok shEnforce_sub(3) [OF ok] by (auto simp: sh_ok_def f')
  have "shBytes f' \<le> shMax g"
  proof (cases "c = Stored")
    case True
    have "shBytes (evictToTarget (target80 (shMax g)) g) \<le> target80 (shMax g)"
      using evictToTarget_ok [OF ok] by simp
    with True m ceiling90_le [of "shMax g"] target80_le [of "shMax g"] show ?thesis
      by (simp add: f' shEnforce_def)
  next
    case False
    have "shMax g = shMax f" using shCommit_tab [OF cm] by fastforce
    with False le shCommit_bytes [OF cm] show ?thesis by (simp add: f' shCurrentBytes_def)
  qed
  with m sh_inv_Append(1) [OF inv room ap] show ?thesis by (simp add: shCurrentBytes_def)
qed

theorem sh_append_bounded_witness:
  "let f' = snd (shAppendAtom ext0 5 (EConst (VInt 7)) ''k'' [] zeroTime (NewShardedFrontierCacheWithLimit 1000))
   in shCurrentBytes f' \<le> shMax f'"
proof -
  let ?f = "NewShardedFrontierCacheWithLimit 1000"
  obtain h where ap: "shAppendAtom ext0 5 (EConst (VInt 7)) ''k'' [] zeroTime ?f =
      (Ok h, snd (shAppendAtom ext0 5 (EConst (VInt 7)) ''k'' [] zeroTime ?f))"
    using shAppendAtom_Ok by blast
  have "shCurrentBytes ?f \<le> shMax ?f"
    by (simp add: shCurrentBytes_def NewShardedFrontierCacheWithLimit_def)
  from sh_append_bounded [OF sh_inv_new sh_room_new this ap] show ?thesis by (simp add: Let_def)
qed




section \<open>Clock order and lock order\<close>

text \<open>Committing minted atoms one after the other, in the order of the list.\<close>

definition shCommits :: "ext \<Rightarrow> catom list \<Rightarrow> sharded \<Rightarrow> sharded" where
  "shCommits E as f = fold (\<lambda>a g. snd (snd (shCommit E a g))) as f"

definition newest :: "catom list \<Rightarrow> catom \<Rightarrow> bool" where
  "newest as m \<longleftrightarrow> m \<in> set as \<and> (\<forall>a \<in> set as. aLogicalClock a \<le> aLogicalClock m)"

lemma shCommits_Cons: "shCommits E (a # as) f = shCommits E as (snd (snd (shCommit E a f)))"
  by (simp add: shCommits_def)

lemma shCommit_newest:
  assumes ok: "sh_ok E f" and p: "aPath a = p"
    and old: "\<And>b. shEntry E f p = Some b \<Longrightarrow> newest bs b \<and> \<not> sameAtomContent E b a"
    and none: "shEntry E f p = None \<Longrightarrow> bs = []"
  shows "\<exists>m. shEntry E (snd (snd (shCommit E a f))) p = Some m \<and> newest (a # bs) m"
proof -
  obtain c h g where cm: "shCommit E a f = (c, h, g)" by (metis surj_pair)
  show ?thesis
  proof (cases "shEntry E f p")
    case None
    with shCommit_outcome [OF cm] shCommit_entry [OF ok cm, of p] p none show ?thesis
      by (simp add: cm newest_def)
  next
    case (Some b)
    note b = old [OF Some]
    show ?thesis
    proof (cases "aLogicalClock b > aLogicalClock a")
      case True
      with Some shCommit_outcome [OF cm] shCommit_entry [OF ok cm, of p] p b show ?thesis
        by (auto simp: cm newest_def)
    next
      case False
      with Some shCommit_outcome [OF cm] shCommit_entry [OF ok cm, of p] p b show ?thesis
        by (auto simp: cm newest_def)
    qed
  qed
qed

lemma shCommits_newest:
  assumes "sh_ok E f" and "\<forall>a \<in> set as. aPath a = p"
    and "\<And>b. shEntry E f p = Some b \<Longrightarrow> newest bs b" and "shEntry E f p = None \<Longrightarrow> bs = []"
    and "\<And>a b. a \<in> set (as @ bs) \<Longrightarrow> b \<in> set (as @ bs) \<Longrightarrow> a \<noteq> b \<Longrightarrow> \<not> sameAtomContent E a b"
    and "distinct (as @ bs)" and "as \<noteq> [] \<or> bs \<noteq> []"
  shows "\<exists>m. shEntry E (shCommits E as f) p = Some m \<and> newest (rev as @ bs) m"
  using assms
proof (induction as arbitrary: f bs)
  case Nil
  then show ?case by (cases "shEntry E f p") (auto simp: shCommits_def)
next
  case (Cons a as)
  let ?g = "snd (snd (shCommit E a f))"
  have ok: "sh_ok E ?g" using Cons.prems(1) shCommit_ok by (metis surjective_pairing)
  have "\<not> sameAtomContent E b a" if "shEntry E f p = Some b" for b
    using Cons.prems(3) [OF that] Cons.prems(5) [of b a] Cons.prems(6) by (auto simp: newest_def)
  then have ex: "\<exists>m. shEntry E ?g p = Some m \<and> newest (a # bs) m"
    using Cons.prems by (intro shCommit_newest) auto
  have "\<exists>m. shEntry E (shCommits E as ?g) p = Some m \<and> newest (rev as @ a # bs) m"
    by (rule Cons.IH [OF ok]) (use Cons.prems ex in auto)
  then show ?case by (simp add: shCommits_Cons)
qed


lemma shEntry_new [simp]: "shEntry E (NewShardedFrontierCacheWithLimit m) p = None"
  by (simp add: shEntry_def shard_def NewShardedFrontierCacheWithLimit_def emptyTab_def)

lemma mintAtom_neq: "c \<noteq> c' \<Longrightarrow> mintAtom E e p c now x \<noteq> mintAtom E e' p' c' now' x'"
  by (metis mintAtom_simps(3))


text \<open>
  C34: where the clock order is lost.  Guard 2 keeps the resident atom together with its old
  clock.  Three writers mint a value, another value, and the first value again; the third
  commits before the second.  It is dropped as a duplicate of the first, and the second
  then finds a resident with a lower clock and replaces it: the value with the highest clock
  is not the one that stays.
\<close>

theorem sh_dedup_loses_clock_order:
  assumes ok: "sh_ok E f" and fresh: "shEntry E f p = None"
    and paths: "aPath a1 = p" "aPath a2 = p" "aPath a3 = p"
    and clocks: "aLogicalClock a1 < aLogicalClock a2" "aLogicalClock a2 < aLogicalClock a3"
    and same: "sameAtomContent E a1 a3" and differ: "\<not> sameAtomContent E a1 a2"
    and nocoll: "aHash a1 \<noteq> aHash a3"
  shows "shEntry E (shCommits E [a1, a3, a2] f) p = Some a2"
proof -
  obtain c1 h1 f1 where c1: "shCommit E a1 f = (c1, h1, f1)" by (metis surj_pair)
  obtain c3 h3 f3 where c3: "shCommit E a3 f1 = (c3, h3, f3)" by (metis surj_pair)
  obtain c2 h2 f2 where c2: "shCommit E a2 f3 = (c2, h2, f2)" by (metis surj_pair)
  have ok1: "sh_ok E f1" and ok3: "sh_ok E f3" using ok c1 c3 shCommit_ok by blast+
  have e1: "shEntry E f1 p = Some a1"
    using shCommit_outcome [OF c1] shCommit_entry [OF ok c1, of p] paths fresh by simp
  have "\<not> aLogicalClock a1 > aLogicalClock a3" using clocks by (meson order.strict_trans not_less_iff_gr_or_eq)
  then have e3: "shEntry E f3 p = Some a1"
    using shCommit_outcome [OF c3] shCommit_entry [OF ok1 c3, of p] paths e1 same nocoll by simp
  have "\<not> aLogicalClock a1 > aLogicalClock a2" using clocks by (meson not_less_iff_gr_or_eq)
  then have "shEntry E f2 p = Some a2"
    using shCommit_outcome [OF c2] shCommit_entry [OF ok3 c2, of p] paths e3 differ by simp
  then show ?thesis by (simp add: shCommits_def c1 c3 c2)
qed

lemmas eval_atom = mintAtom_def ComputeHash_def atomPreimage_def eval_digest be64_def be32_def
  UnixNano_def zeroTime_def Let_def

theorem sh_dedup_loses_clock_order_witness:
  "\<exists>m. shEntry ext0 (shCommits ext0
       [mintAtom ext0 (EConst (VInt 7)) ''k'' 1 5 zeroTime,
        mintAtom ext0 (EConst (VInt 7)) ''k'' 3 5 zeroTime,
        mintAtom ext0 (EConst (VInt 8)) ''k'' 2 5 zeroTime]
       (NewShardedFrontierCacheWithLimit 1000)) ''k'' = Some m \<and> aExpr m = EConst (VInt 8)"
proof -
  let ?a1 = "mintAtom ext0 (EConst (VInt 7)) ''k'' 1 5 zeroTime"
  let ?a2 = "mintAtom ext0 (EConst (VInt 8)) ''k'' 2 5 zeroTime"
  let ?a3 = "mintAtom ext0 (EConst (VInt 7)) ''k'' 3 5 zeroTime"
  have "aHash ?a1 \<noteq> aHash ?a3" by (simp add: eval_atom)
  moreover have "sameAtomContent ext0 ?a1 ?a3" "\<not> sameAtomContent ext0 ?a1 ?a2"
    by (simp_all add: sameAtomContent_def)
  ultimately have "shEntry ext0 (shCommits ext0 [?a1, ?a3, ?a2] (NewShardedFrontierCacheWithLimit 1000)) ''k'' = Some ?a2"
    by (intro sh_dedup_loses_clock_order [OF sh_ok_new shEntry_new]) simp_all
  then show ?thesis by simp
qed

section \<open>Deduplication\<close>

text \<open>
  An identical write keeps every proof.  Writing the value and the deadline that a path
  already has answers with the hash that is there, and every version vector that was valid
  before is valid after, and the other way round.
\<close>

theorem sh_same_write_keeps_proofs:
  assumes inv: "sh_inv E f" and room: "sh_room f" and old: "shEntry E f path = Some old"
    and v: "aExpr old = EConst v" "v \<noteq> VNil"
    and nocoll: "aHash old \<noteq> aHash (mintAtom E (EConst v) path (shClock f + 1) now (aExpiresAt old))"
    and ap: "shAppendAtom E now (EConst v) path ps (aExpiresAt old) f = (Ok h, f')"
  shows "h = aHash old \<and> shVerifyVersionVector E t vv f' = shVerifyVersionVector E t vv f"
proof -
  let ?a = "mintAtom E (EConst v) path (shClock f + 1) now (aExpiresAt old)"
  let ?f = "f\<lparr>shClock := shClock f + 1\<rparr>"
  obtain c g where cm: "shCommit E ?a ?f = (c, h, g)" and f': "f' = (if c = Stored then shEnforce g else g)"
    using shAppendAtom_split [OF ap] by blast
  have ok: "sh_ok E ?f" using inv by (simp add: sh_inv_def)
  have "aLogicalClock old \<le> shClock f" using inv old by (auto simp: sh_inv_def intro: sh_clocked_shard)
  then have "\<not> aLogicalClock old > shClock f + 1"
    using room by (auto simp: sh_room_def dest: word_less_succ)
  moreover have "sameAtomContent E old ?a" using v by (simp add: sameAtomContent_def)
  ultimately have c: "c = Deduped" "h = aHash old"
    using shCommit_outcome [OF cm] old nocoll by (auto split: if_splits)
  then have "shEntry E f' q = shEntry E f q" for q
    using shCommit_entry [OF ok cm, of q] by (simp add: f')
  then have "shCur E t f' q = shCur E t f q" for q by (simp add: shCur_entry)
  with c sh.Verify_cur [OF inv, of t vv] sh.Verify_cur [OF sh_inv_Append(1) [OF inv room ap], of t vv]
  show ?thesis by (simp add: shStore_def matches_def)
qed

text \<open>A cache that holds one value under \<open>''k''\<close>, for the witnesses.\<close>

definition oneKey :: "Value \<Rightarrow> sharded" where
  "oneKey v = snd (snd (shCommit ext0 (mintAtom ext0 (EConst v) ''k'' 1 5 zeroTime)
     ((NewShardedFrontierCacheWithLimit 1000)\<lparr>shClock := 1\<rparr>)))"

lemma oneKey_props:
  "sh_inv ext0 (oneKey v)" "sh_room (oneKey v)" "shClock (oneKey v) = 1"
  "shEntry ext0 (oneKey v) ''k'' = Some (mintAtom ext0 (EConst v) ''k'' 1 5 zeroTime)"
proof -
  let ?a = "mintAtom ext0 (EConst v) ''k'' 1 5 zeroTime" and ?f = "(NewShardedFrontierCacheWithLimit 1000)\<lparr>shClock := 1\<rparr>"
  have ok: "sh_ok ext0 ?f" and cl: "sh_clocked ?f"
    by (simp_all add: sh_ok_new) (simp add: sh_clocked_def NewShardedFrontierCacheWithLimit_def emptyTab_def)
  obtain c h g where cm: "shCommit ext0 ?a ?f = (c, h, g)" by (metis surj_pair)
  from shCommit_clocked [OF ok cl _ cm] shCommit_ok [OF ok cm]
  show "sh_inv ext0 (oneKey v)" "sh_room (oneKey v)" "shClock (oneKey v) = 1"
    by (simp_all add: oneKey_def cm sh_inv_def sh_room_def)
  from shCommit_outcome [OF cm] shCommit_entry [OF ok cm, of "''k''"]
  show "shEntry ext0 (oneKey v) ''k'' = Some ?a" by (simp add: oneKey_def cm)
qed

theorem sh_same_write_keeps_proofs_witness:
  "fst (shAppendAtom ext0 6 (EConst (VInt 7)) ''k'' [] zeroTime (oneKey (VInt 7))) =
     Ok (aHash (mintAtom ext0 (EConst (VInt 7)) ''k'' 1 5 zeroTime))"
proof -
  let ?old = "mintAtom ext0 (EConst (VInt 7)) ''k'' 1 5 zeroTime"
  obtain h f' where ap: "shAppendAtom ext0 6 (EConst (VInt 7)) ''k'' [] (aExpiresAt ?old) (oneKey (VInt 7)) = (Ok h, f')"
    using shAppendAtom_Ok by blast
  have "aHash ?old \<noteq> aHash (mintAtom ext0 (EConst (VInt 7)) ''k'' (shClock (oneKey (VInt 7)) + 1) 6 (aExpiresAt ?old))"
    by (simp add: oneKey_props) (simp add: eval_atom)
  from sh_same_write_keeps_proofs [OF oneKey_props(1,2,4) _ _ this ap] ap show ?thesis by simp
qed

text \<open>
  Deduplication compares bytes, not types.  A list that holds one string serialises to
  the bytes of that string.  Overwriting it with the string is taken for a duplicate: the
  write reports success and the list stays.
\<close>

theorem sh_dedup_confuses_types:
  assumes ok: "sh_inv E f" and room: "sh_room f"
    and old: "shEntry E f path = Some old" "aExpr old = EConst (VArray [VString s])"
    and nocoll: "aHash old \<noteq> aHash (mintAtom E (EConst (VString s)) path (shClock f + 1) now (aExpiresAt old))"
    and ap: "shAppendAtom E now (EConst (VString s)) path ps (aExpiresAt old) f = (r, f')"
  shows "r = Ok (aHash old) \<and> shEntry E f' path = Some old"
proof -
  let ?a = "mintAtom E (EConst (VString s)) path (shClock f + 1) now (aExpiresAt old)"
  let ?f = "f\<lparr>shClock := shClock f + 1\<rparr>"
  obtain h where r: "r = Ok h" using ap by (auto simp: shAppendAtom_def Let_def split: prod.splits)
  obtain c g where cm: "shCommit E ?a ?f = (c, h, g)" and f': "f' = (if c = Stored then shEnforce g else g)"
    using shAppendAtom_split ap r by blast
  have okf: "sh_ok E ?f" using ok by (simp add: sh_inv_def)
  have "aLogicalClock old \<le> shClock f" using ok old by (auto simp: sh_inv_def intro: sh_clocked_shard)
  then have "\<not> aLogicalClock old > shClock f + 1"
    using room by (auto simp: sh_room_def dest: word_less_succ)
  moreover have "sameAtomContent E old ?a" using old by (simp add: sameAtomContent_def)
  ultimately have "c = Deduped" "h = aHash old"
    using shCommit_outcome [OF cm] old nocoll by (auto split: if_splits)
  with shCommit_entry [OF okf cm, of path] old show ?thesis by (simp add: f' r)
qed

theorem sh_dedup_confuses_types_witness:
  "\<exists>f' a. snd (shAppendAtom ext0 6 (EConst (VString ''abc'')) ''k'' [] zeroTime (oneKey (VArray [VString ''abc'']))) = f' \<and>
     shEntry ext0 f' ''k'' = Some a \<and> aExpr a = EConst (VArray [VString ''abc''])"
proof -
  let ?f = "oneKey (VArray [VString ''abc''])"
  let ?old = "mintAtom ext0 (EConst (VArray [VString ''abc''])) ''k'' 1 5 zeroTime"
  obtain r f' where ap: "shAppendAtom ext0 6 (EConst (VString ''abc'')) ''k'' [] (aExpiresAt ?old) ?f = (r, f')"
    by fastforce
  have "aHash ?old \<noteq> aHash (mintAtom ext0 (EConst (VString ''abc'')) ''k'' (shClock ?f + 1) 6 (aExpiresAt ?old))"
    by (simp add: oneKey_props) (simp add: eval_atom)
  from sh_dedup_confuses_types [OF oneKey_props(1,2,4) _ this ap] ap show ?thesis by auto
qed

end
