(* ===== verification/EngineProps.thy ===== *)
theory EngineProps
  imports Engine Sharded
begin

text \<open>
  Correctness of \<open>ComposeProof\<close> and \<open>ReduceIncremental\<close>: what a composed proof holds, that
  it satisfies the invariant of cached proofs, what the incremental path costs, and the
  statements for the frontier caches.
\<close>

section \<open>The tree that is built\<close>

definition builtNode :: "(string \<Rightarrow> catom option) \<Rightarrow> pnode \<Rightarrow> bool" where
  "builtNode C n \<longleftrightarrow> pnCached n = VNil \<and> \<not> pnDirty n \<and>
     (\<exists>a. C (pnSourcePath n) = Some a \<and> pnExpr n = aExpr a \<and> pnSourceHash n = aHash a) \<and>
     (pnChildren n \<noteq> [] \<longrightarrow> (\<exists>hs. pnExpr n = ECompose hs))"

text \<open>What building adds to the index.\<close>

definition indexedFrom :: "position \<Rightarrow> pnode \<Rightarrow> pathIndex \<Rightarrow> pathIndex \<Rightarrow> bool" where
  "indexedFrom pos n idx idx' \<longleftrightarrow> (\<forall>p. if p \<in> set (treePaths n)
     then \<exists>q m. nodeAt q n = Some m \<and> pnSourcePath m = p \<and> map_of idx' p = Some (pos @ q)
     else map_of idx' p = map_of idx p)"

definition indexedKids :: "position \<Rightarrow> nat \<Rightarrow> pnode list \<Rightarrow> pathIndex \<Rightarrow> pathIndex \<Rightarrow> bool" where
  "indexedKids pos i cs idx idx' \<longleftrightarrow> (\<forall>p. if p \<in> set (concat (map treePaths cs))
     then \<exists>j q m. j < length cs \<and> nodeAt q (cs ! j) = Some m \<and> pnSourcePath m = p \<and>
       map_of idx' p = Some (pos @ (i + j) # q)
     else map_of idx' p = map_of idx p)"

lemma indexedKids_Nil: "indexedKids pos i [] idx idx"
  by (simp add: indexedKids_def)

lemma indexedKids_Cons:
  assumes c: "indexedFrom (pos @ [i]) c idx idx1" and cs: "indexedKids pos (Suc i) cs idx1 idx2"
  shows "indexedKids pos i (c # cs) idx idx2"
  unfolding indexedKids_def
proof
  fix p
  show "if p \<in> set (concat (map treePaths (c # cs)))
     then \<exists>j q m. j < length (c # cs) \<and> nodeAt q ((c # cs) ! j) = Some m \<and> pnSourcePath m = p \<and>
       map_of idx2 p = Some (pos @ (i + j) # q)
     else map_of idx2 p = map_of idx p"
  proof (cases "p \<in> set (concat (map treePaths cs))")
    case True
    with cs obtain j q m where "j < length cs" "nodeAt q (cs ! j) = Some m" "pnSourcePath m = p"
      "map_of idx2 p = Some (pos @ (Suc i + j) # q)" unfolding indexedKids_def by metis
    then have "Suc j < length (c # cs) \<and> nodeAt q ((c # cs) ! Suc j) = Some m \<and> pnSourcePath m = p \<and>
       map_of idx2 p = Some (pos @ (i + Suc j) # q)" by simp
    with True show ?thesis by auto
  next
    case False
    with cs have e: "map_of idx2 p = map_of idx1 p" unfolding indexedKids_def by metis
    show ?thesis
    proof (cases "p \<in> set (treePaths c)")
      case True
      with c obtain q m where "nodeAt q c = Some m" "pnSourcePath m = p" "map_of idx1 p = Some ((pos @ [i]) @ q)"
        unfolding indexedFrom_def by metis
      then have "0 < length (c # cs) \<and> nodeAt q ((c # cs) ! 0) = Some m \<and> pnSourcePath m = p \<and>
         map_of idx2 p = Some (pos @ (i + 0) # q)" by (simp add: e)
      with True show ?thesis by (metis (no_types, lifting) Un_iff concat.simps(2) list.map(2) set_append)
    next
      case nc: False
      with c e have "map_of idx2 p = map_of idx p" unfolding indexedFrom_def by metis
      with False nc show ?thesis by simp
    qed
  qed
qed

lemma indexedFrom_Node:
  assumes "indexedKids pos 0 cs (AList.update p pos idx) idx'"
  shows "indexedFrom pos (PNode e cs v d m mv h p) idx idx'"
  unfolding indexedFrom_def
proof
  fix r
  let ?n = "PNode e cs v d m mv h p"
  show "if r \<in> set (treePaths ?n)
     then \<exists>q k. nodeAt q ?n = Some k \<and> pnSourcePath k = r \<and> map_of idx' r = Some (pos @ q)
     else map_of idx' r = map_of idx r"
  proof (cases "r \<in> set (concat (map treePaths cs))")
    case True
    with assms obtain j q k where "j < length cs" "nodeAt q (cs ! j) = Some k" "pnSourcePath k = r"
      "map_of idx' r = Some (pos @ (0 + j) # q)" unfolding indexedKids_def by metis
    then have "nodeAt (j # q) ?n = Some k \<and> pnSourcePath k = r \<and> map_of idx' r = Some (pos @ j # q)" by simp
    with True show ?thesis by auto
  next
    case False
    with assms have e: "map_of idx' r = map_of (AList.update p pos idx) r"
      unfolding indexedKids_def by metis
    show ?thesis
    proof (cases "r = p")
      case True
      then have "nodeAt [] ?n = Some ?n \<and> pnSourcePath ?n = r \<and> map_of idx' r = Some (pos @ [])"
        using e by (simp add: gomap)
      with True show ?thesis by auto
    next
      case nr: False
      with False e show ?thesis by (simp add: gomap)
    qed
  qed
qed

context engine_reads
begin

definition builtFrom :: "(string \<Rightarrow> catom option) \<Rightarrow> gotime \<Rightarrow> nat \<Rightarrow> bool" where
  "builtFrom C now k \<longleftrightarrow> (\<forall>path pos idx s res idx' s'. inv s \<longrightarrow> cur now s = C \<longrightarrow>
     buildProofNode st now k path pos idx s = Some (res, idx', s') \<longrightarrow>
     same s s' \<and> (case res of None \<Rightarrow> C path = None \<and> idx' = idx
       | Some n \<Rightarrow> allNodes (builtNode C) n \<and> pnSourcePath n = path \<and> indexedFrom pos n idx idx'))"

lemma buildChildren_spec:
  assumes k: "builtFrom C now k"
  shows "inv s \<Longrightarrow> cur now s = C \<Longrightarrow> buildChildren st now k hs pos i idx s = Some (cs, idx', s') \<Longrightarrow>
     same s s' \<and> list_all (allNodes (builtNode C)) cs \<and> indexedKids pos i cs idx idx'"
proof (induction hs arbitrary: i idx s cs)
  case Nil
  then show ?case by (auto simp: same_refl indexedKids_Nil)
next
  case (Cons h hs)
  show ?case
  proof (cases "sGetAtom st now h s")
    case None
    with Cons show ?thesis by simp
  next
    case (Some a)
    with Cons.prems(3) obtain r idx1 s1 where b: "buildProofNode st now k (aPath a) (pos @ [i]) idx s = Some (r, idx1, s1)"
      by (auto split: option.splits)
    with k Cons.prems have one: "same s s1" "case r of None \<Rightarrow> C (aPath a) = None \<and> idx1 = idx
       | Some n \<Rightarrow> allNodes (builtNode C) n \<and> pnSourcePath n = aPath a \<and> indexedFrom (pos @ [i]) n idx idx1"
      unfolding builtFrom_def by blast+
    then have s1: "inv s1" "cur now s1 = C" using Cons.prems by (auto simp: same_def)
    show ?thesis
    proof (cases r)
      case None
      with Cons.prems(3) Some b Cons.IH [OF s1] one show ?thesis by (auto intro: same_trans)
    next
      case r: (Some c)
      with Cons.prems(3) Some b obtain cs2 where
        "buildChildren st now k hs pos (Suc i) idx1 s1 = Some (cs2, idx', s')" "cs = c # cs2"
        by (auto split: option.splits)
      with Cons.IH [OF s1] one r show ?thesis by (auto intro: same_trans indexedKids_Cons)
    qed
  qed
qed

lemma build_spec: "builtFrom C now k"
proof (induction k)
  case 0
  then show ?case by (simp add: builtFrom_def)
next
  case (Suc k)
  show ?case
    unfolding builtFrom_def
  proof (intro allI impI)
    fix path pos idx s res idx' s'
    assume inv: "inv s" and C: "cur now s = C"
      and b: "buildProofNode st now (Suc k) path pos idx s = Some (res, idx', s')"
    obtain g s1 where g: "sGetCurrent st now path s = (g, s1)" by fastforce
    then have gc: "g = C path" and s1: "same s s1"
      using GetCurrent_cur [OF inv, of now path] same_GetCurrent [OF inv, of now path] C by auto
    then have s1': "inv s1" "cur now s1 = C" using C by (auto simp: same_def)
    show "same s s' \<and> (case res of None \<Rightarrow> C path = None \<and> idx' = idx
       | Some n \<Rightarrow> allNodes (builtNode C) n \<and> pnSourcePath n = path \<and> indexedFrom pos n idx idx')"
    proof (cases g)
      case None
      with b g gc s1 show ?thesis by auto
    next
      case (Some a)
      let ?node = "\<lambda>cs. PNode (aExpr a) cs VNil False 0 False (aHash a) path"
      show ?thesis
      proof (cases "\<exists>hs. aExpr a = ECompose hs")
        case True
        then obtain hs where hs: "aExpr a = ECompose hs" by blast
        with b g Some obtain cs where
          cs: "buildChildren st now k hs pos 0 (AList.update path pos idx) s1 = Some (cs, idx', s')"
          and res: "res = Some (?node cs)"
          by (auto simp: Let_def split: option.splits)
        note kids = buildChildren_spec [OF Suc.IH s1' cs]
        with hs Some gc s1 res show ?thesis
          by (auto simp: builtNode_def intro: same_trans indexedFrom_Node)
      next
        case False
        then have "res = Some (?node []) \<and> idx' = AList.update path pos idx \<and> s' = s1"
          using b g Some by (cases "aExpr a") (auto simp: Let_def)
        with Some gc s1 show ?thesis
          by (auto simp: builtNode_def intro: indexedFrom_Node indexedKids_Nil)
      qed
    qed
  qed
qed

end


section \<open>A composed proof satisfies the invariant\<close>

lemma distinct_concat_apart:
  "distinct (concat xss) \<Longrightarrow> i < length xss \<Longrightarrow> j < length xss \<Longrightarrow>
     x \<in> set (xss ! i) \<Longrightarrow> x \<in> set (xss ! j) \<Longrightarrow> i = j"
proof (induction xss arbitrary: i j)
  case (Cons xs xss)
  have out: "x \<notin> set xs" if "k < length xss" "x \<in> set (xss ! k)" for k
    using Cons.prems(1) that by (auto dest: nth_mem)
  from Cons out show ?case by (cases i; cases j) auto
qed simp

lemma distinct_position:
  "distinct (treePaths t) \<Longrightarrow> nodeAt q t = Some n \<Longrightarrow> nodeAt q' t = Some n' \<Longrightarrow>
     pnSourcePath n = pnSourcePath n' \<Longrightarrow> q = q'"
proof (induction t arbitrary: q q' rule: pnode_induct)
  case (Node e cs v d m mv h p)
  have below: "pnSourcePath k \<in> set (treePaths (cs ! i))" if "i < length cs" "nodeAt r (cs ! i) = Some k" for i r k
    using that treePaths_set by blast
  have root: "p \<notin> set (treePaths (cs ! i))" if "i < length cs" for i
    using Node.prems(1) nth_mem [OF that] by auto
  have kids: "distinct (concat (map treePaths cs))" using Node.prems(1) by simp
  then have d: "distinct (treePaths (cs ! i))" if "i < length cs" for i
    using that by (simp add: distinct_concat_iff)
  show ?case
  proof (cases q; cases q')
    fix i r j r' assume q: "q = i # r" "q' = j # r'"
    with Node.prems have i: "i < length cs" "nodeAt r (cs ! i) = Some n"
      and j: "j < length cs" "nodeAt r' (cs ! j) = Some n'" by (auto split: if_splits)
    have "i = j"
      using distinct_concat_apart [OF kids, of i j "pnSourcePath n"] below [OF i] below [OF j] i j Node.prems(4)
      by simp
    moreover from this have "r = r'" using Node.IH [of "cs ! i" r r'] d i j Node.prems(4) by auto
    ultimately show ?thesis by (simp add: q)
  qed (use Node.prems root below in \<open>force split: if_splits\<close>)+
qed

lemma built_ready: "allNodes (builtNode C) n \<Longrightarrow> readyTree C n"
proof -
  assume b: "allNodes (builtNode C) n"
  have m: "marksOk n"
    using b
  proof (induction n rule: pnode_induct)
    case (Node e cs v d m mv h p)
    have "\<not> pnDirty c" if "c \<in> set cs" for c
      using Node.prems that by (auto simp: list_all_iff builtNode_def dest!: allNodes_self)
    with Node show ?case by (auto simp: marksOk_Node list_all_iff list_ex_iff builtNode_def)
  qed
  have "syncedNode C k \<and> cachedOk k \<and> stableNode C k" if k: "builtNode C k" for k
  proof -
    have "exprOf C k = pnExpr k" "hashOf C k = pnSourceHash k"
      using k by (auto simp: builtNode_def exprOf_def hashOf_def)
    with k show ?thesis by (simp add: builtNode_def syncedNode_def cachedOk_def stableNode_def)
  qed
  with b have "allNodes (\<lambda>k. syncedNode C k \<and> cachedOk k \<and> stableNode C k) n" by (rule allNodes_mono)
  with m show ?thesis by (auto simp: readyTree_def allNodes_iff)
qed

lemma refTree_reread: "refTree (\<lambda>_. None) n' = refTree C n \<Longrightarrow> refTree C n' = refTree C n"
proof (induction n' arbitrary: n rule: pnode_induct)
  case (Node e cs v d m mv h p)
  obtain e2 cs2 v2 d2 m2 mv2 h2 p2 where n: "n = PNode e2 cs2 v2 d2 m2 mv2 h2 p2" by (cases n)
  have kids: "map (refTree (\<lambda>_. None)) cs = map (refTree C) cs2" using Node.prems by (simp add: n)
  have "map (refTree C) cs = map (refTree C) cs2"
  proof (rule nth_equalityI)
    show l: "length (map (refTree C) cs) = length (map (refTree C) cs2)" using kids by (metis length_map)
    fix i assume "i < length (map (refTree C) cs)"
    then show "map (refTree C) cs ! i = map (refTree C) cs2 ! i"
      using Node.IH [of "cs ! i" "cs2 ! i"] kids l by (metis length_map nth_map nth_mem)
  qed
  with Node.prems show ?case by (auto simp: n exprOf_def hashOf_def split: option.splits if_splits)
qed

context engine_reads
begin

lemma captureVersionVector_spec:
  assumes "inv s" and "cur now s p = Some a"
  shows "\<exists>s'. captureVersionVector st now [a] s = (if p \<noteq> [] then [(p, aHash a)] else [], s') \<and> same s s'"
proof -
  have p: "aPath a = p" by (rule cur_path [OF assms])
  obtain g s1 where g: "sGetCurrent st now p s = (g, s1)" by fastforce
  with assms have "g = Some a" "same s s1"
    using GetCurrent_cur [OF assms(1), of now p] same_GetCurrent [OF assms(1), of now p] by auto
  with g p assms show ?thesis by (auto simp: captureVersionVector_def same_refl)
qed

lemma addTreePaths_spec:
  assumes "inv s" and "gomap_ok vv"
  shows "map_of (addTreePaths st now ps vv s) p =
      (case map_of vv p of Some h \<Rightarrow> Some h
       | None \<Rightarrow> if p \<in> set ps \<and> p \<noteq> [] then map_option aHash (cur now s p) else None) \<and>
    gomap_ok (addTreePaths st now ps vv s)"
  using assms(2)
proof (induction ps arbitrary: vv)
  case Nil
  then show ?case by (simp split: option.split)
next
  case (Cons q ps)
  let ?vv = "if q \<noteq> [] \<and> map_of vv q = None then
      (case sGetCurrentHash st now q s of Some h \<Rightarrow> AList.update q h vv | None \<Rightarrow> vv) else vv"
  have "gomap_ok ?vv" using Cons.prems by (simp split: option.split)
  from Cons.IH [OF this] show ?case
    by (auto simp: GetCurrentHash_cur [OF assms(1)] gomap split: option.splits if_splits)
qed

lemma addTreePaths_same:
  assumes "inv s" and "inv s'" and "cur now s' = cur now s"
  shows "addTreePaths st now ps vv s' = addTreePaths st now ps vv s"
  by (induction ps arbitrary: vv) (simp_all add: GetCurrentHash_cur assms)

lemma mapCurrent_same: "inv s \<Longrightarrow> same s (snd (mapCurrent st now vv ps s))"
proof (induction ps arbitrary: s)
  case (Cons p ps)
  let ?g = "snd (sGetCurrent st now p s)"
  have g: "same s ?g" by (rule same_GetCurrent [OF Cons.prems])
  then have "same s (snd (mapCurrent st now vv ps ?g))"
    using Cons.IH [of ?g] by (auto simp: same_def)
  with Cons.IH [OF Cons.prems] show ?case by (auto simp: Let_def split: prod.splits)
qed (simp add: same_refl)

lemma ComputeVersionMerkleRoot_same: "inv s \<Longrightarrow> same s (snd (ComputeVersionMerkleRoot E st now vv s))"
  using mapCurrent_same [of s now vv "sortStrings (map fst vv)"]
  by (auto simp: ComputeVersionMerkleRoot_def Let_def split: prod.splits)

text \<open>The stages of a composition that succeeded.\<close>

lemma ComposeProof_stages:
  assumes inv: "inv s" and cp: "ComposeProof E st st now k path mode s = (Ok pr, s')"
  obtains a root idx vv v n' z where "cur now s path = Some a"
    and "allNodes (builtNode (cur now s)) root" "pnSourcePath root = path" "indexedFrom [] root [] idx"
    and "vv = addTreePaths st now (map fst idx) (if path \<noteq> [] then [(path, aHash a)] else []) s"
    and "reduceP (cur now s) root zeroStats = (Ok v, n', z)" and "same s s'" and "\<not> hasNil v"
    and "mpValue pr = v" "mpVV pr = vv" "mpPathToNode pr = idx" "mpStats pr = z"
      "mpRootNode pr = Some (snd (ComputeMerkleRoot E n'))"
    and "\<exists>s0 s0'. same s s0 \<and> buildProofNode st now k path [] [] s0 = Some (Some root, idx, s0')"
proof -
  obtain g s1 where g: "sGetCurrent st now path s = (g, s1)" by fastforce
  then have gc: "g = cur now s path" and s1: "same s s1"
    using GetCurrent_cur [OF inv, of now path] same_GetCurrent [OF inv, of now path] by auto
  then have s1': "inv s1" "cur now s1 = cur now s" by (auto simp: same_def)
  from cp g obtain a where a: "g = Some a" by (auto simp: ComposeProof_def gatherCausalClosure_def split: option.splits)
  with cp g obtain r idx s2 where b: "buildProofNode st now k path [] [] s1 = Some (r, idx, s2)"
    by (auto simp: ComposeProof_def gatherCausalClosure_def split: option.splits)
  have built: "same s1 s2" "case r of None \<Rightarrow> cur now s path = None \<and> idx = []
       | Some n \<Rightarrow> allNodes (builtNode (cur now s)) n \<and> pnSourcePath n = path \<and> indexedFrom [] n [] idx"
    using build_spec [of "cur now s" now k] b s1' unfolding builtFrom_def by blast+
  with a gc obtain root where root: "r = Some root" "allNodes (builtNode (cur now s)) root"
    "pnSourcePath root = path" "indexedFrom [] root [] idx" by (cases r) auto
  have s2: "inv s2" "cur now s2 = cur now s" using built s1' by (auto simp: same_def)
  obtain s3 where c: "captureVersionVector st now [a] s2 = (if path \<noteq> [] then [(path, aHash a)] else [], s3)"
    and s3: "same s2 s3"
    using captureVersionVector_spec [OF s2(1), of now path a] a gc s2(2) by auto
  have s3': "inv s3" "cur now s3 = cur now s" using s3 s2 by (auto simp: same_def)
  define vv where "vv = addTreePaths st now (map fst idx) (if path \<noteq> [] then [(path, aHash a)] else []) s3"
  have vv: "vv = addTreePaths st now (map fst idx) (if path \<noteq> [] then [(path, aHash a)] else []) s"
    unfolding vv_def by (rule addTreePaths_same [OF inv s3'(1) s3'(2)])
  obtain mr s4 where m: "ComputeVersionMerkleRoot E st now vv s3 = (mr, s4)" by fastforce
  then have s4: "same s3 s4" using ComputeVersionMerkleRoot_same [OF s3'(1), of E now vv] by simp
  then have s4': "inv s4" "cur now s4 = cur now s" using s3' by (auto simp: same_def)
  obtain v0 n' z where p: "reduceP (cur now s) root zeroStats = (v0, n', z)" by (metis surj_pair)
  obtain s5 where d: "reduceDirty st now root s4 zeroStats = (v0, n', s5, z)" "same s4 s5"
    using reduceDirty_P(1) [OF s4', of root zeroStats] p by auto
  note all = cp g a b root(1) c vv_def [symmetric] m d(1)
  obtain v where v: "v0 = Ok v" "\<not> hasNil v"
    using all by (cases v0) (auto simp: ComposeProof_def gatherCausalClosure_def Let_def split: if_splits)
  with all have pr: "s' = s5" "mpValue pr = v" "mpVV pr = vv" "mpPathToNode pr = idx" "mpStats pr = z"
    "mpRootNode pr = Some (snd (ComputeMerkleRoot E n'))"
    by (auto simp: ComposeProof_def gatherCausalClosure_def Let_def)
  have "same s s'" using s1 built(1) s3 s4 d(2) by (auto simp: pr(1) same_def)
  moreover have "\<exists>s0 s0'. same s s0 \<and> buildProofNode st now k path [] [] s0 = Some (Some root, idx, s0')"
    using s1 b root(1) by blast
  ultimately show ?thesis using a gc root vv p v pr by (intro that) auto
qed

lemma ComposeProof_ok:
  assumes inv: "inv s" and cp: "ComposeProof E st st now k path mode s = (Ok pr, s')"
  shows "\<exists>root. mpRootNode pr = Some root \<and> same s s' \<and> pnSourcePath root = path \<and>
    freshVal (cur now s) root = Ok (mpValue pr) \<and>
    (\<exists>tree s0 s0'. allNodes (builtNode (cur now s)) tree \<and> refTree (\<lambda>_. None) root = refTree (cur now s) tree \<and>
       same s s0 \<and> buildProofNode st now k path [] [] s0 = Some (Some tree, mpPathToNode pr, s0')) \<and>
    (distinct (treePaths root) \<and> [] \<notin> set (treePaths root) \<longrightarrow> proofOk pr root)"
  using assms
proof (rule ComposeProof_stages)
  let ?C = "cur now s"
  fix a tree idx vv v n' z
  assume a: "?C path = Some a" and b: "allNodes (builtNode ?C) tree" and p: "pnSourcePath tree = path"
    and i: "indexedFrom [] tree [] idx"
    and vv: "vv = addTreePaths st now (map fst idx) (if path \<noteq> [] then [(path, aHash a)] else []) s"
    and r: "reduceP ?C tree zeroStats = (Ok v, n', z)" and same: "same s s'"
    and pr: "mpValue pr = v" "mpVV pr = vv" "mpPathToNode pr = idx" "mpRootNode pr = Some (snd (ComputeMerkleRoot E n'))"
    and bld: "\<exists>s0 s0'. same s s0 \<and> buildProofNode st now k path [] [] s0 = Some (Some tree, idx, s0')"
  let ?root = "snd (ComputeMerkleRoot E n')"
  note rc = reduceP_correct(1) [OF built_ready [OF b] r]
  have t: "refTree (\<lambda>_. None) ?root = refTree ?C tree" "allNodes cachedOk ?root"
    using rc refTree_strip strip_ComputeMerkleRoot allNodes_strip [of cachedOk, OF cachedOk_strip]
    by (metis reducedTree_def)+
  have tp: "treePaths ?root = treePaths tree" using t treePaths_refTree by metis
  have st: "storedVal ?root = Ok v" using storedVal_refTree [OF t(1)] rc by simp
  have fv: "freshVal ?C ?root = Ok v" using rc refTree_reread [OF t(1)] freshVal_refTree(1) by metis
  have path: "pnSourcePath ?root = path" using t(1) p by (metis refTree_simps(3))
  have "proofOk pr ?root" if d: "distinct (treePaths ?root)" and ne: "[] \<notin> set (treePaths ?root)"
  proof -
    have idx: "p \<in> set (map fst idx) \<longleftrightarrow> p \<in> set (treePaths tree)" for p
      using i map_of_eq_None_iff [of idx p] unfolding indexedFrom_def by (metis list.set_map map_of.simps(1) option.distinct(1))
    have base: "gomap_ok (if path \<noteq> [] then [(path, aHash a)] else [])" by (simp add: gomap_ok_def)
    note sp = addTreePaths_spec [OF inv base, of now "map fst idx", folded vv]
    have "path \<in> set (treePaths tree)" using p by (cases tree) auto
    with sp idx a ne tp have dom: "map_of vv p = (if p \<in> set (treePaths tree) then map_option aHash (?C p) else None)" for p
      by (auto split: if_splits)
    have nodes: "pnSourcePath n \<noteq> [] \<and> map_of idx (pnSourcePath n) = Some q \<and>
        map_of vv (pnSourcePath n) = Some (pnSourceHash n)" if n: "nodeAt q ?root = Some n" for q n
    proof -
      have "nodeAt q (refTree ?C tree) = Some (refTree (\<lambda>_. None) n)"
        using n t(1) nodeAt_refTree [of q "\<lambda>_. None" ?root] by simp
      then obtain m where m: "nodeAt q tree = Some m" "refTree ?C m = refTree (\<lambda>_. None) n"
        by (auto simp: nodeAt_refTree)
      then have eq: "pnSourcePath m = pnSourcePath n" "hashOf ?C m = pnSourceHash n"
        by (metis refTree_simps(3), metis refTree_simps(2) hashOf_None)
      have bm: "builtNode ?C m" using b m(1) by (auto simp: allNodes_iff)
      have mem: "pnSourcePath m \<in> set (treePaths tree)" using m(1) treePaths_set by blast
      then obtain q' m' where "nodeAt q' tree = Some m'" "pnSourcePath m' = pnSourcePath m"
        "map_of idx (pnSourcePath m) = Some q'" using i unfolding indexedFrom_def by (metis append_Nil)
      moreover from this have "q' = q" using distinct_position [of tree q' m' q m] d m(1) tp by simp
      moreover have "hashOf ?C m = pnSourceHash m" "?C (pnSourcePath m) \<noteq> None"
        "map_option aHash (?C (pnSourcePath m)) = Some (pnSourceHash m)"
        using bm by (auto simp: builtNode_def hashOf_def)
      ultimately show ?thesis using mem dom [of "pnSourcePath m"] eq ne tp by auto
    qed
    have "nodeAt pos ?root \<noteq> None" if "map_of idx p = Some pos" for p pos
    proof -
      have "p \<in> set (treePaths tree)" using idx that by (force dest: map_of_SomeD)
      then have "nodeAt pos tree \<noteq> None" using i that unfolding indexedFrom_def by (metis append_Nil option.distinct(1) option.inject)
      then show ?thesis using t(1) nodeAt_refTree by (metis option.map_disc_iff)
    qed
    moreover have "fst ` set vv \<subseteq> set (treePaths ?root)"
      using dom tp by (metis (no_types, lifting) dom_map_of_conv_image_fst domIff subsetI)
    ultimately show ?thesis using nodes t(2) st sp pr by (auto simp: proofOk_def)
  qed
  moreover have "\<exists>tree s0 s0'. allNodes (builtNode ?C) tree \<and> refTree (\<lambda>_. None) ?root = refTree ?C tree \<and>
       same s s0 \<and> buildProofNode st now k path [] [] s0 = Some (Some tree, mpPathToNode pr, s0')"
    using b t(1) bld pr(3) by blast
  ultimately show ?thesis using pr same path fv by auto
qed

end


section \<open>Composition returns\<close>

text \<open>
  A set of paths whose atoms are constants or compositions over paths of the set, with a
  rank that decreases from a composition to its parts.  \<open>C\<close> is the frontier, \<open>G\<close> finds an
  atom by its hash.
\<close>

definition composable ::
    "(string \<Rightarrow> nat) \<Rightarrow> string set \<Rightarrow> (string \<Rightarrow> catom option) \<Rightarrow> (hash \<Rightarrow> catom option) \<Rightarrow> bool" where
  "composable rank P C G \<longleftrightarrow> (\<forall>p \<in> P. \<exists>a. C p = Some a \<and>
     (case aExpr a of
        EConst v \<Rightarrow> \<not> hasNil v
      | ECompose hs \<Rightarrow> (\<forall>h \<in> set hs. \<forall>b. G h = Some b \<longrightarrow> aPath b \<in> P \<and> rank (aPath b) < rank p)
      | _ \<Rightarrow> False))"

context engine_reads
begin

abbreviation getAtomAt :: "gotime \<Rightarrow> 's \<Rightarrow> hash \<Rightarrow> catom option" where
  "getAtomAt now s \<equiv> \<lambda>h. sGetAtom st now h s"

lemma same_getAtom: "same s s' \<Longrightarrow> getAtomAt now s' = getAtomAt now s \<and> cur now s' = cur now s \<and> inv s'"
  by (simp add: same_def)

lemma buildChildren_total:
  assumes k: "\<And>path pos idx s. inv s \<Longrightarrow> composable rank P (cur now s) (getAtomAt now s) \<Longrightarrow> path \<in> P \<Longrightarrow> rank path < k \<Longrightarrow>
      \<exists>n idx' s'. buildProofNode st now k path pos idx s = Some (Some n, idx', s') \<and> set (treePaths n) \<subseteq> P"
  shows "inv s \<Longrightarrow> composable rank P (cur now s) (getAtomAt now s) \<Longrightarrow>
     (\<And>h b. h \<in> set hs \<Longrightarrow> sGetAtom st now h s = Some b \<Longrightarrow> aPath b \<in> P \<and> rank (aPath b) < k) \<Longrightarrow>
     \<exists>cs idx' s'. buildChildren st now k hs pos i idx s = Some (cs, idx', s') \<and>
       set (concat (map treePaths cs)) \<subseteq> P"
proof (induction hs arbitrary: i idx s)
  case (Cons h hs)
  show ?case
  proof (cases "sGetAtom st now h s")
    case None
    have "\<exists>cs idx' s'. buildChildren st now k hs pos i idx s = Some (cs, idx', s') \<and>
        set (concat (map treePaths cs)) \<subseteq> P"
      by (rule Cons.IH [OF Cons.prems(1,2)]) (use Cons.prems(3) in auto)
    with None show ?thesis by simp
  next
    case (Some b)
    then obtain n idx1 s1 where b: "buildProofNode st now k (aPath b) (pos @ [i]) idx s = Some (Some n, idx1, s1)"
      "set (treePaths n) \<subseteq> P"
      using k [OF Cons.prems(1,2)] Cons.prems(3) by (metis list.set_intros(1))
    then have s1: "same s s1" using build_spec [of "cur now s" now k] Cons.prems(1) unfolding builtFrom_def by blast
    then have "inv s1" "composable rank P (cur now s1) (getAtomAt now s1)" "\<And>h. sGetAtom st now h s1 = sGetAtom st now h s"
      using Cons.prems(2) same_getAtom [OF s1, of now] by (auto dest: fun_cong)
    with Cons.prems(3) obtain cs idx2 s2 where
      "buildChildren st now k hs pos (Suc i) idx1 s1 = Some (cs, idx2, s2)" "set (concat (map treePaths cs)) \<subseteq> P"
      using Cons.IH [of s1] by (metis list.set_intros(2))
    with b Some show ?thesis by auto
  qed
qed simp

lemma build_total:
  "inv s \<Longrightarrow> composable rank P (cur now s) (getAtomAt now s) \<Longrightarrow> path \<in> P \<Longrightarrow> rank path < k \<Longrightarrow>
     \<exists>n idx' s'. buildProofNode st now k path pos idx s = Some (Some n, idx', s') \<and> set (treePaths n) \<subseteq> P"
proof (induction k arbitrary: path pos idx s)
  case (Suc k)
  from Suc.prems(2,3) obtain a where a: "cur now s path = Some a"
    and e: "case aExpr a of EConst v \<Rightarrow> \<not> hasNil v | ECompose hs \<Rightarrow> (\<forall>h \<in> set hs. \<forall>b.
      sGetAtom st now h s = Some b \<longrightarrow> aPath b \<in> P \<and> rank (aPath b) < rank path) | _ \<Rightarrow> False"
    unfolding composable_def by blast
  obtain g s1 where g: "sGetCurrent st now path s = (g, s1)" by fastforce
  then have gc: "g = Some a" and s1: "same s s1"
    using GetCurrent_cur [OF Suc.prems(1), of now path] same_GetCurrent [OF Suc.prems(1), of now path] a by auto
  show ?case
  proof (cases "aExpr a")
    case (EConst v)
    with g gc Suc.prems(3) show ?thesis by (simp add: Let_def)
  next
    case (ECompose hs)
    have "\<exists>cs idx' s'. buildChildren st now k hs pos 0 (AList.update path pos idx) s1 = Some (cs, idx', s') \<and>
        set (concat (map treePaths cs)) \<subseteq> P"
    proof (rule buildChildren_total [of rank P now k s1 hs])
      show "inv s1" "composable rank P (cur now s1) (getAtomAt now s1)" using same_getAtom [OF s1, of now] Suc.prems(2) by simp_all
      show "aPath b \<in> P \<and> rank (aPath b) < k" if "h \<in> set hs" "sGetAtom st now h s1 = Some b" for h b
        using that e ECompose s1 Suc.prems(4) by (fastforce simp: same_def)
    qed (use Suc.IH in blast)
    then obtain cs idx' s' where "buildChildren st now k hs pos 0 (AList.update path pos idx) s1 = Some (cs, idx', s')"
      "set (concat (map treePaths cs)) \<subseteq> P" by blast
    with g gc ECompose Suc.prems(3) show ?thesis by (simp add: Let_def)
  qed (use e in auto)
qed simp

end

lemma composable_plain:
  "composable rank P C G \<Longrightarrow> p \<in> P \<Longrightarrow> C p = Some a \<Longrightarrow>
     case aExpr a of EConst v \<Rightarrow> \<not> hasNil v | ECompose hs \<Rightarrow> True | _ \<Rightarrow> False"
  unfolding composable_def by (drule bspec, assumption, cases "aExpr a") auto

text \<open>A tree of constants and compositions has a value without nil.\<close>

definition plainNode :: "pnode \<Rightarrow> bool" where
  "plainNode n \<longleftrightarrow> (case pnExpr n of EConst v \<Rightarrow> \<not> hasNil v | ECompose hs \<Rightarrow> True | _ \<Rightarrow> False)"

lemma set_update_rec: "kv \<in> set (AList.update k v m) \<Longrightarrow> kv = (k, v) \<or> kv \<in> set m"
  by (induction m) (auto split: if_splits)

lemma plain_value:
  "allNodes plainNode n \<Longrightarrow> \<exists>v. storedVal n = Ok v \<and> \<not> hasNil v"
proof (induction n rule: pnode_induct)
  case (Node e cs v d m mv h p)
  have kids: "\<exists>v. storedVal c = Ok v \<and> \<not> hasNil v" if "c \<in> set cs" for c
    using Node that by (auto simp: list_all_iff)
  have rec: "\<exists>r. freshRec (\<lambda>_. None) ds acc = Ok r \<and> \<not> hasNil (VRecord r)"
    if "set ds \<subseteq> set cs" "\<not> hasNil (VRecord acc)" for ds acc
    using that
  proof (induction ds arbitrary: acc)
    case (Cons c ds)
    obtain w where w: "storedVal c = Ok w" "\<not> hasNil w" using kids [of c] Cons.prems by auto
    then have "\<not> hasNil (VRecord (AList.update (pnSourcePath c) w acc))"
      using Cons.prems(2) by (auto dest!: set_update_rec)
    with Cons w show ?case by simp
  qed simp
  have "plainNode (PNode e cs v d m mv h p)" using Node.prems by simp
  then consider (const) w where "e = EConst w" "\<not> hasNil w" | (comp) hs where "e = ECompose hs"
    by (cases e) (auto simp: plainNode_def)
  then show ?case
  proof cases
    case const
    then show ?thesis by (simp add: freshVal.simps)
  next
    case comp
    from rec [of cs "[]"] obtain r where "freshRec (\<lambda>_. None) cs [] = Ok r" "\<not> hasNil (VRecord r)" by auto
    with comp show ?thesis by (simp add: freshVal.simps)
  qed
qed

context engine_reads
begin

lemma ComposeProof_total:
  assumes inv: "inv s" and comp: "composable rank P (cur now s) (getAtomAt now s)"
    and p: "path \<in> P" and k: "rank path < k"
  shows "\<exists>pr s'. ComposeProof E st st now k path mode s = (Ok pr, s') \<and> set (treePaths (the (mpRootNode pr))) \<subseteq> P"
proof -
  let ?C = "cur now s"
  obtain a where a: "?C path = Some a" using comp p unfolding composable_def by blast
  obtain s1 where g: "sGetCurrent st now path s = (Some a, s1)" and s1: "same s s1"
    using GetCurrent_cur [OF inv, of now path] same_GetCurrent [OF inv, of now path] a
    by (cases "sGetCurrent st now path s") auto
  note f1 = same_getAtom [OF s1, of now]
  obtain n idx s2 where b: "buildProofNode st now k path [] [] s1 = Some (Some n, idx, s2)"
    and sub: "set (treePaths n) \<subseteq> P"
    using build_total [of s1 rank P now path k "[]" "[]"] f1 comp p k by auto
  have built: "same s1 s2" "allNodes (builtNode ?C) n"
    using build_spec [of ?C now k] b f1 unfolding builtFrom_def by fastforce+
  note f2 = same_getAtom [OF built(1), of now]
  obtain s3 where c: "captureVersionVector st now [a] s2 = (if path \<noteq> [] then [(path, aHash a)] else [], s3)" "same s2 s3"
    using captureVersionVector_spec [of s2 now path a] f1 f2 a by auto
  define vv where "vv = addTreePaths st now (map fst idx) (if path \<noteq> [] then [(path, aHash a)] else []) s3"
  obtain mr s4 where m: "ComputeVersionMerkleRoot E st now vv s3 = (mr, s4)" by fastforce
  have s4: "same s3 s4" using ComputeVersionMerkleRoot_same [of s3 E now vv] m same_getAtom [OF c(2), of now] by simp
  note f4 = same_getAtom [OF c(2), of now] same_getAtom [OF s4, of now]
  obtain r n' z where red: "reduceP ?C n zeroStats = (r, n', z)" by (metis surj_pair)
  obtain s5 where d: "reduceDirty st now n s4 zeroStats = (r, n', s5, z)"
    using reduceDirty_P(1) [of s4 now ?C n zeroStats] red f1 f2 f4 by auto
  note rc = reduceP_correct(1) [OF built_ready [OF built(2)] red]
  have "plainNode k" if "nodeAt q n = Some k" for q k
  proof -
    have "pnSourcePath k \<in> set (treePaths n)" using that treePaths_set by blast
    with sub have "pnSourcePath k \<in> P" by blast
    moreover have "builtNode ?C k" using built(2) that by (auto simp: allNodes_iff)
    ultimately obtain a where "?C (pnSourcePath k) = Some a" "pnExpr k = aExpr a" and
      "case aExpr a of EConst v \<Rightarrow> \<not> hasNil v | ECompose hs \<Rightarrow> True | _ \<Rightarrow> False"
      using composable_plain [OF comp] by (auto simp: builtNode_def)
    then show ?thesis by (simp add: plainNode_def)
  qed
  then obtain v where v: "storedVal n = Ok v" "\<not> hasNil v" using plain_value [of n] by (auto simp: allNodes_iff)
  have "allNodes (syncedNode ?C) n"
    using built_ready [OF built(2)] built(2) by (auto simp: readyTree_def allNodes_iff builtNode_def)
  then have "r = Ok v" using rc v storedVal_refTree refTree_synced by metis
  moreover from this rc have "treePaths (snd (ComputeMerkleRoot E n')) = treePaths n"
    by (metis reducedTree_def refTree_strip strip_ComputeMerkleRoot treePaths_refTree)
  ultimately show ?thesis using g b c m d v sub vv_def
    by (simp add: ComposeProof_def gatherCausalClosure_def Let_def)
qed

end

section \<open>The cost of the incremental path\<close>

fun countNodes :: "(pnode \<Rightarrow> bool) \<Rightarrow> pnode \<Rightarrow> nat" where
  "countNodes P (PNode e cs v d m mv h p) =
     (if P (PNode e cs v d m mv h p) then 1 else 0) + sum_list (map (countNodes P) cs)"

lemma countNodes_eq:
  "countNodes P n = (if P n then 1 else 0) + sum_list (map (countNodes P) (pnChildren n))"
  by (cases n) simp

abbreviation needsWork :: "pnode \<Rightarrow> bool" where
  "needsWork n \<equiv> pnDirty n \<or> pnCached n = VNil"

lemma miss_simps [simp]: "rsCacheMisses (miss z) = rsCacheMisses z + 1" "rsCacheMisses (hit z) = rsCacheMisses z"
  by (simp_all add: miss_def hit_def)

lemma reduceP_misses:
  "reduceP C n z = (r, n', z') \<Longrightarrow> rsCacheMisses z' \<le> rsCacheMisses z + countNodes needsWork n"
  "reducePs C cs rec z = (q, cs', z') \<Longrightarrow>
     rsCacheMisses z' \<le> rsCacheMisses z + sum_list (map (countNodes needsWork) cs)"
proof (induction C n z and C cs rec z arbitrary: r n' z' and q cs' z' rule: reduceP_reducePs.induct)
  case (1 C n z)
  show ?case
  proof (cases "\<not> pnDirty n \<and> pnCached n \<noteq> VNil")
    case True
    with 1(5) show ?thesis by (auto simp: reduceP.simps [of C n z])
  next
    case False
    note IH = 1(1-4) [OF False]
    from False have c: "countNodes needsWork n = 1 + sum_list (map (countNodes needsWork) (pnChildren n))"
      by (subst countNodes_eq) auto
    show ?thesis
      using 1(5) False c IH
      by (fastforce simp: reduceP.simps [of C n z] split: expr.splits list.splits prod.splits result.splits option.splits)
  qed
next
  case (3 C c cs rec z)
  then show ?case by (fastforce split: prod.splits result.splits)
qed simp


lemma countNodes_markPath:
  "countNodes needsWork (markPath pos t) \<le> countNodes needsWork t + length pos + 1"
proof (induction pos t rule: markPath.induct)
  case (1 e cs v d m mv h p)
  then show ?case by simp
next
  case (2 i "is" e cs v d m mv h p)
  show ?case
  proof (cases "i < length cs")
    case True
    let ?f = "countNodes needsWork"
    have le: "?f (cs ! i) \<le> sum_list (map ?f cs)"
      using True elem_le_sum_list [of i "map ?f cs"] by simp
    have "sum_list (map ?f (cs[i := markPath is (cs ! i)])) =
        sum_list (map ?f cs) + ?f (markPath is (cs ! i)) - ?f (cs ! i)"
      using True by (simp add: map_update sum_list_update)
    with 2 [OF True] le True show ?thesis by simp
  qed simp
qed

lemma countNodes_Reset: "allNodes (\<lambda>n. pnCached n \<noteq> VNil) t \<Longrightarrow> countNodes needsWork (ResetDirty t) = 0"
  by (induction t rule: pnode_induct) (auto simp: list_all_iff)

lemma countNodes_propagate:
  "marksOk t \<Longrightarrow> \<forall>pos \<in> set ps. nodeAt pos t \<noteq> None \<Longrightarrow>
     countNodes needsWork (fold PropagateDirtyUp ps t) \<le> countNodes needsWork t + (\<Sum>pos\<leftarrow>ps. length pos + 1)"
proof (induction ps arbitrary: t)
  case (Cons pos ps)
  then have u: "PropagateDirtyUp pos t = markPath pos t" using PropagateDirtyUp_mark by auto
  have ex: "\<forall>q \<in> set ps. nodeAt q (markPath pos t) \<noteq> None"
    using Cons.prems nodeAt_stripped [of "markPath pos t" t] by auto
  from Cons.IH [OF marksOk_markPath [OF Cons.prems(1), of pos] ex] countNodes_markPath [of pos t] show ?case
    by (simp add: u)
qed simp

lemma sum_map_filter:
  "(\<Sum>q\<leftarrow>List.map_filter f xs. length q + 1) \<le> (\<Sum>x\<leftarrow>xs. length (the (f x)) + (1::nat))"
  by (induction xs) (auto simp: List.map_filter_simps split: option.split)

context engine_reads
begin

lemma ReduceIncremental_cost:
  assumes inv: "inv s" and ok: "proofOk pr root" and cached: "allNodes (\<lambda>n. pnCached n \<noteq> VNil) root"
    and ri: "ReduceIncremental E st now k pr s = (r, pr', s')"
  shows "rsCacheMisses (mpStats pr') \<le>
    (\<Sum>p\<leftarrow>changedPaths (cur now s) (mpVV pr). length (the (map_of (mpPathToNode pr) p)) + 1)"
proof (cases "sVerifyVersionVector st now (mpVV pr) s")
  case True
  with ri show ?thesis by (auto simp: ReduceIncremental_def zeroStats_def)
next
  case False
  let ?C = "cur now s"
  let ?ch = "changedPaths ?C (mpVV pr)" and ?z = "zeroStats\<lparr>rsChangedPaths := length (changedPaths ?C (mpVV pr))\<rparr>"
  let ?ps = "List.map_filter (map_of (mpPathToNode pr)) ?ch"
  let ?t = "markChanged ?ch (mpPathToNode pr) root"
  obtain r0 n' z where p: "reduceP ?C ?t ?z = (r0, n', z)" by (metis surj_pair)
  obtain s1 where d: "reduceDirty st now ?t s ?z = (r0, n', s1, z)"
    using reduceDirty_P(1) [OF inv refl, of now ?t ?z] p by auto
  have "mpStats pr' = z"
    using ri False d by (cases r0)
      (auto simp: ReduceIncremental_def FindChanged_changedPaths [OF inv] proofOkD(1) [OF ok] Let_def)
  moreover have "\<forall>pos \<in> set ?ps. nodeAt pos (ResetDirty root) \<noteq> None"
    using ok by (auto simp: nodeAt_ResetDirty proofOk_def List.map_filter_def)
  then have "countNodes needsWork ?t \<le> (\<Sum>pos\<leftarrow>?ps. length pos + 1)"
    using countNodes_propagate [OF marksOk_ResetDirty] countNodes_Reset [OF cached]
    by (fastforce simp: markChanged_fold)
  ultimately show ?thesis
    using reduceP_misses(1) [OF p] sum_map_filter [of "map_of (mpPathToNode pr)" ?ch] by (simp add: zeroStats_def)
qed

lemma ReduceIncremental_arms:
  assumes inv: "inv s" and ok: "proofOk pr root" and f: "faithful (cur now s) root"
    and stable: "allNodes (stableNode (cur now s)) root"
    and ri: "ReduceIncremental E st now k pr s = (Ok v, pr', s')"
    and live: "\<And>p. p \<in> set (treePaths root) \<Longrightarrow> cur now s p \<noteq> None"
  shows "sVerifyVersionVector st now (mpVV pr') s'"
proof -
  obtain pr2 s2 where "ReduceIncremental E st now k pr s = (liftInc (freshVal (cur now s) root), pr2, s2)"
    and s2: "same s s2" and good: "\<forall>v. freshVal (cur now s) root = Ok v \<longrightarrow> mpValue pr2 = v \<and>
       (\<exists>root'. proofOk pr2 root' \<and> refTree (\<lambda>_. None) root' = refTree (cur now s) root)"
    using ReduceIncremental_spec [OF inv ok f stable] by metis
  with ri have eq: "pr2 = pr'" "s2 = s'" and "liftInc (freshVal (cur now s) root) = Ok v" by auto
  then have "freshVal (cur now s) root = Ok v" by (auto simp: liftInc_def split: result.splits)
  with good eq obtain root' where ok': "proofOk pr' root'"
    and t: "refTree (\<lambda>_. None) root' = refTree (cur now s) root" by blast
  have "map_option aHash (cur now s p) = Some h" if "(p, h) \<in> set (mpVV pr')" for p h
  proof -
    have m: "map_of (mpVV pr') p = Some h" using that proofOkD(4) [OF ok'] gomap_in_set by metis
    then obtain q n where n: "nodeAt q root' = Some n" "pnSourcePath n = p" using proofOkD(9) [OF ok'] by blast
    with m have h: "pnSourceHash n = h" using proofOkD(7) [OF ok' n(1)] by simp
    have "nodeAt q (refTree (cur now s) root) = Some (refTree (\<lambda>_. None) n)"
      using n(1) t nodeAt_refTree [of q "\<lambda>_. None" root'] by simp
    then obtain m where m: "nodeAt q root = Some m" "refTree (cur now s) m = refTree (\<lambda>_. None) n"
      by (auto simp: nodeAt_refTree)
    then have e: "pnSourcePath m = p" "hashOf (cur now s) m = h"
      by (metis n(2) refTree_simps(3), metis h refTree_simps(2) hashOf_None)
    have "p \<in> set (treePaths root)" using m(1) e(1) treePaths_set by blast
    with live obtain a where "cur now s p = Some a" by blast
    with e proofOkD(5) [OF ok m(1)] show ?thesis by (simp add: hashOf_def)
  qed
  moreover have "inv s'" "cur now s' = cur now s" using s2 eq by (auto simp: same_def)
  ultimately show ?thesis by (auto simp: Verify_cur matches_def list_all_iff)
qed

end


section \<open>The caches as stores of the engine\<close>

interpretation fcEng: engine_reads "fcStore E" fc_ok fcCur for E
  by unfold_locales

interpretation shEng: engine_reads "shStore E" "sh_inv E" "shCur E" for E
  by unfold_locales

text \<open>Trees of one node, and of a composition with one part.\<close>

context engine_reads
begin

lemma build_leaf:
  assumes "inv s" and "cur now s p = Some a" and "aExpr a = EConst v"
  shows "\<exists>s'. buildProofNode st now (Suc k) p pos idx s =
    Some (Some (PNode (EConst v) [] VNil False 0 False (aHash a) p), AList.update p pos idx, s')"
  using assms GetCurrent_cur [OF assms(1), of now p]
  by (cases "sGetCurrent st now p s") (auto simp: Let_def)

lemma build_gone:
  assumes inv: "inv s" and r: "cur now s r = Some a" "aExpr a = ECompose [h]" and b: "sGetAtom st now h s = None"
  shows "\<exists>idx s'. buildProofNode st now (Suc k) r [] [] s =
    Some (Some (PNode (ECompose [h]) [] VNil False 0 False (aHash a) r), idx, s')"
proof -
  obtain s1 where g: "sGetCurrent st now r s = (Some a, s1)" and s1: "same s s1"
    using GetCurrent_cur [OF inv, of now r] same_GetCurrent [OF inv, of now r] r
    by (cases "sGetCurrent st now r s") auto
  then have "sGetAtom st now h s1 = None" using b by (simp add: same_def)
  with g r(2) show ?thesis by (simp add: Let_def)
qed

lemma build_pair:
  assumes inv: "inv s" and r: "cur now s r = Some a" "aExpr a = ECompose [h]"
    and b: "sGetAtom st now h s = Some b" "aPath b = x" and x: "cur now s x = Some c" "aExpr c = EConst v"
  shows "\<exists>idx s'. buildProofNode st now (Suc (Suc k)) r [] [] s =
    Some (Some (PNode (ECompose [h]) [PNode (EConst v) [] VNil False 0 False (aHash c) x]
      VNil False 0 False (aHash a) r), idx, s')"
proof -
  obtain s1 where g: "sGetCurrent st now r s = (Some a, s1)" and s1: "same s s1"
    using GetCurrent_cur [OF inv, of now r] same_GetCurrent [OF inv, of now r] r
    by (cases "sGetCurrent st now r s") auto
  then have f: "inv s1" "cur now s1 x = Some c" "sGetAtom st now h s1 = Some b"
    using x(1) b(1) by (auto simp: same_def)
  show ?thesis
    using build_leaf [OF f(1,2) x(2), of k "[0]" "AList.update r [] []"] g r(2) f(3) b(2)
    by (auto simp: Let_def)
qed

end

lemma refTree_twice: "refTree C (refTree (\<lambda>_. None) n) = refTree C n"
proof (induction n rule: pnode_induct)
  case (Node e cs v d m mv h p)
  then show ?case by (auto simp: exprOf_def hashOf_def split: option.split)
qed

section \<open>A cache with a composition\<close>

text \<open>
  The example of the witnesses: \<open>x\<close> holds 7, \<open>r\<close> composes the atom of \<open>x\<close>; then \<open>x\<close> is
  overwritten with 8.
\<close>

definition atomX1 :: catom where "atomX1 = mintAtom ext0 (EConst (VInt 7)) ''x'' 1 5 zeroTime"
definition atomR :: catom where "atomR = mintAtom ext0 (ECompose [aHash atomX1]) ''r'' 2 5 zeroTime"
definition atomX2 :: catom where "atomX2 = mintAtom ext0 (EConst (VInt 8)) ''x'' 3 5 zeroTime"

definition exBefore :: sharded where
  "exBefore = shCommits ext0 [atomX1, atomR] ((NewShardedFrontierCacheWithLimit 100000)\<lparr>shClock := 3\<rparr>)"

definition exAfter :: sharded where
  "exAfter = shCommits ext0 [atomX2] exBefore"

lemma example_hashes: "aHash atomX1 \<noteq> aHash atomX2" "aHash atomX1 \<noteq> aHash atomR" "aHash atomX2 \<noteq> aHash atomR"
  by (simp_all add: atomX1_def atomX2_def atomR_def eval_atom hashBytes_def)

lemma shCommit_stored:
  assumes inv: "sh_inv E f" and clk: "aLogicalClock a \<le> shClock f"
    and st: "\<And>old. shEntry E f (aPath a) = Some old \<Longrightarrow>
      \<not> aLogicalClock old > aLogicalClock a \<and> \<not> sameAtomContent E old a"
  shows "sh_inv E (snd (snd (shCommit E a f)))" "shClock (snd (snd (shCommit E a f))) = shClock f"
    "shEntry E (snd (snd (shCommit E a f))) q = (if q = aPath a then Some a else shEntry E f q)"
    "map_of (tHashToPath (shard E (aPath a) (snd (snd (shCommit E a f))))) (aHash a) = Some (aPath a)"
proof -
  have ok: "sh_ok E f" "sh_clocked f" using inv by (auto simp: sh_inv_def)
  obtain c h g where cm: "shCommit E a f = (c, h, g)" by (metis surj_pair)
  have c: "c = Stored" using shCommit_outcome [OF cm] st by (auto split: option.splits if_splits)
  show "sh_inv E (snd (snd (shCommit E a f)))" "shClock (snd (snd (shCommit E a f))) = shClock f"
    using shCommit_ok [OF ok(1) cm] shCommit_clocked [OF ok clk cm] by (auto simp: cm sh_inv_def)
  show "shEntry E (snd (snd (shCommit E a f))) q = (if q = aPath a then Some a else shEntry E f q)"
    using shCommit_entry [OF ok(1) cm, of q] c by (simp add: cm)
  obtain t where t: "tabCommit E (aPath a) a (shard E (aPath a) f) = (c, h, t)" "g = setShard (shardFor E (aPath a)) t f"
    using shCommit_tab [OF cm] by blast
  then show "map_of (tHashToPath (shard E (aPath a) (snd (snd (shCommit E a f))))) (aHash a) = Some (aPath a)"
    using c by (auto simp: cm shard_setShard [OF ok(1)] tabCommit_def tabWrite_index split: option.splits if_splits)
qed

lemma atom_simps [simp]:
  "aPath atomX1 = ''x''" "aPath atomX2 = ''x''" "aPath atomR = ''r''"
  "aExpr atomX1 = EConst (VInt 7)" "aExpr atomX2 = EConst (VInt 8)" "aExpr atomR = ECompose [aHash atomX1]"
  "aLogicalClock atomX1 = 1" "aLogicalClock atomX2 = 3" "aLogicalClock atomR = 2"
  "aExpiresAt atomX1 = zeroTime" "aExpiresAt atomX2 = zeroTime" "aExpiresAt atomR = zeroTime"
  by (simp_all add: atomX1_def atomX2_def atomR_def)

lemma example_states:
  "sh_inv ext0 exBefore" "sh_inv ext0 exAfter"
  "shEntry ext0 exBefore q = (if q = ''r'' then Some atomR else if q = ''x'' then Some atomX1 else None)"
  "shEntry ext0 exAfter q = (if q = ''x'' then Some atomX2 else if q = ''r'' then Some atomR else None)"
  "map_of (tHashToPath (shard ext0 ''x'' exBefore)) (aHash atomX1) = Some ''x''"
proof -
  let ?f0 = "(NewShardedFrontierCacheWithLimit 100000)\<lparr>shClock := 3\<rparr>"
  have i0: "sh_inv ext0 ?f0" by (simp add: sh_inv_def sh_ok_new)
      (simp add: sh_clocked_def NewShardedFrontierCacheWithLimit_def emptyTab_def)
  note c1 = shCommit_stored [OF i0, of atomX1, simplified]
  let ?f1 = "snd (snd (shCommit ext0 atomX1 ?f0))"
  have i1: "sh_inv ext0 ?f1" "shClock ?f1 = 3" and e1: "\<And>q. shEntry ext0 ?f1 q = (if q = ''x'' then Some atomX1 else None)"
    using c1 by (simp_all add: word_le_nat_alt)
  let ?f2 = "snd (snd (shCommit ext0 atomR ?f1))"
  have f2: "?f2 = exBefore" by (simp add: exBefore_def shCommits_def)
  note c2 = shCommit_stored [OF i1(1), of atomR, simplified, unfolded i1(2) f2]
  show i2: "sh_inv ext0 exBefore" and e2: "shEntry ext0 exBefore q = (if q = ''r'' then Some atomR else if q = ''x'' then Some atomX1 else None)" for q
    using c2 e1 by (simp_all add: word_le_nat_alt)
  have k2: "shClock exBefore = 3" using c2 e1 by (simp add: word_le_nat_alt)
  have f3: "snd (snd (shCommit ext0 atomX2 exBefore)) = exAfter" by (simp add: exAfter_def shCommits_def)
  have ns: "\<not> sameAtomContent ext0 atomX1 atomX2" by (simp add: sameAtomContent_def)
  note c3 = shCommit_stored [OF i2, of atomX2, simplified, unfolded k2 f3]
  show "sh_inv ext0 exAfter" "shEntry ext0 exAfter q = (if q = ''x'' then Some atomX2 else if q = ''r'' then Some atomR else None)"
    using c3 e2 ns by (simp_all add: word_less_nat_alt word_le_nat_alt)
  obtain c h g where cm: "shCommit ext0 atomR ?f1 = (c, h, g)" by (metis surj_pair)
  then have g: "g = exBefore" using f2 by simp
  from shCommit_tab [OF cm] obtain t where t: "exBefore = setShard (shardFor ext0 ''r'') t ?f1"
    unfolding g by (metis atom_simps(3))
  have ok1: "sh_ok ext0 ?f1" using i1(1) by (simp add: sh_inv_def)
  have "shardFor ext0 ''x'' \<noteq> shardFor ext0 ''r''"
    by (simp add: shardFor_def shardedFrontierShards_def eval_digest)
  then have "shard ext0 ''x'' exBefore = shard ext0 ''x'' ?f1"
    unfolding t by (simp add: shard_setShard [OF ok1] del: word_neq_0_conv)
  then show "map_of (tHashToPath (shard ext0 ''x'' exBefore)) (aHash atomX1) = Some ''x''"
    using c1(4) by (simp add: word_le_nat_alt)
qed

text \<open>In a frontier cache an atom is found by its hash only while it is current.\<close>

lemma scanAtom_entry:
  "\<forall>t \<in> set ts. tab_ok t \<Longrightarrow> scanAtom now h ts = Some a \<Longrightarrow>
     \<exists>t \<in> set ts. \<exists>p. map_of (tEntries t) p = Some a \<and> aHash a = h"
  by (induction ts) (auto split: option.splits if_splits dest: tab_okD(7))

lemma scanAtom_found:
  "\<exists>t \<in> set ts. \<exists>p a. map_of (tHashToPath t) h = Some p \<and> map_of (tEntries t) p = Some a \<Longrightarrow>
   \<forall>t \<in> set ts. \<forall>p a. map_of (tEntries t) p = Some a \<longrightarrow> \<not> expired now (aExpiresAt a) \<Longrightarrow>
     scanAtom now h ts \<noteq> None"
  by (induction ts) (auto split: option.splits if_splits)

lemma shGetAtom_current:
  assumes "sh_ok E f" and "shGetAtom now h f = Some a"
  shows "\<exists>p. shEntry E f p = Some a \<and> aHash a = h"
proof -
  from assms obtain t p where t: "t \<in> set (shShards f)" "map_of (tEntries t) p = Some a" "aHash a = h"
    using scanAtom_entry [of "shShards f" now h a] sh_ok_all [OF assms(1)] by (auto simp: shGetAtom_def)
  then obtain i where i: "i < length (shShards f)" "shShards f ! i = t" by (auto simp: in_set_conv_nth)
  with assms(1) t(2) have "shardFor E p = i" by (auto simp: sh_ok_def)
  with i t show ?thesis by (auto simp: shEntry_def shard_def)
qed

lemma example_reads:
  "shCur ext0 now exBefore = (\<lambda>q. if q = ''r'' then Some atomR else if q = ''x'' then Some atomX1 else None)"
  "shCur ext0 now exAfter = (\<lambda>q. if q = ''x'' then Some atomX2 else if q = ''r'' then Some atomR else None)"
  "shGetAtom now (aHash atomX1) exBefore = Some atomX1"
  "shGetAtom now (aHash atomX1) exAfter = None"
proof -
  show "shCur ext0 now exBefore = (\<lambda>q. if q = ''r'' then Some atomR else if q = ''x'' then Some atomX1 else None)"
    "shCur ext0 now exAfter = (\<lambda>q. if q = ''x'' then Some atomX2 else if q = ''r'' then Some atomR else None)"
    by (auto simp: shCur_entry example_states fun_eq_iff)
  have ok: "sh_ok ext0 exBefore" "sh_ok ext0 exAfter" using example_states by (auto simp: sh_inv_def)
  show "shGetAtom now (aHash atomX1) exAfter = None"
  proof (rule ccontr)
    assume "shGetAtom now (aHash atomX1) exAfter \<noteq> None"
    then obtain a where "shGetAtom now (aHash atomX1) exAfter = Some a" by blast
    from shGetAtom_current [OF ok(2) this] show False
      using example_hashes by (auto simp: example_states split: if_splits)
  qed
  have live: "\<not> expired now (aExpiresAt a)" if "t \<in> set (shShards exBefore)" "map_of (tEntries t) p = Some a" for t p a
  proof -
    from that obtain i where i: "i < length (shShards exBefore)" "shShards exBefore ! i = t" by (auto simp: in_set_conv_nth)
    with ok(1) that(2) have "shardFor ext0 p = i" by (auto simp: sh_ok_def)
    with i that have "shEntry ext0 exBefore p = Some a" by (auto simp: shEntry_def shard_def)
    then show ?thesis by (auto simp: example_states split: if_splits)
  qed
  have "shard ext0 ''x'' exBefore \<in> set (shShards exBefore)" using ok(1) by (simp add: sh_ok_def shard_def)
  moreover have "map_of (tEntries (shard ext0 ''x'' exBefore)) ''x'' = Some atomX1"
    using example_states(3) [of "''x''"] by (simp add: shEntry_def)
  ultimately have "shGetAtom now (aHash atomX1) exBefore \<noteq> None"
    unfolding shGetAtom_def using example_states(5) live by (intro scanAtom_found) blast+
  then obtain a where a: "shGetAtom now (aHash atomX1) exBefore = Some a" by blast
  from shGetAtom_current [OF ok(1) a] show "shGetAtom now (aHash atomX1) exBefore = Some atomX1"
    using a example_hashes by (auto simp: example_states split: if_splits)
qed

lemma example_composable:
  "composable (\<lambda>p. if p = ''r'' then 1 else 0) {''r'', ''x''} (shCur ext0 9 exBefore) (\<lambda>h. shGetAtom 9 h exBefore)"
  by (auto simp: composable_def example_reads)

definition exProof :: mproof where
  "exProof = (case fst (ComposeProof ext0 (shStore ext0) (shStore ext0) 9 2 ''r'' ModeDeductive exBefore) of Ok pr \<Rightarrow> pr)"

definition exRoot :: pnode where "exRoot = the (mpRootNode exProof)"

lemma exProof_compose:
  "\<exists>s'. ComposeProof ext0 (shStore ext0) (shStore ext0) 9 2 ''r'' ModeDeductive exBefore = (Ok exProof, s')"
proof -
  have "\<exists>pr s'. ComposeProof ext0 (shStore ext0) (shStore ext0) 9 2 ''r'' ModeDeductive exBefore = (Ok pr, s') \<and>
      set (treePaths (the (mpRootNode pr))) \<subseteq> {''r'', ''x''}"
    by (rule shEng.ComposeProof_total [OF example_states(1), where rank = "\<lambda>p. if p = ''r'' then 1 else 0"])
      (use example_composable in \<open>simp_all add: shStore_def\<close>)
  then show ?thesis by (auto simp: exProof_def)
qed

lemma exProof_ok:
  "proofOk exProof exRoot" "treePaths exRoot = [''r'', ''x'']" "mpValue exProof = VRecord [(''x'', VInt 7)]"
  "refTree (\<lambda>_. None) exRoot =
     PNode (ECompose [aHash atomX1]) [PNode (EConst (VInt 7)) [] VNil False 0 False (aHash atomX1) ''x'']
       VNil False 0 False (aHash atomR) ''r''"
proof -
  let ?C = "shCur ext0 9 exBefore"
  let ?t = "PNode (ECompose [aHash atomX1]) [PNode (EConst (VInt 7)) [] VNil False 0 False (aHash atomX1) ''x'']
       VNil False 0 False (aHash atomR) ''r''"
  obtain s' where cp: "ComposeProof ext0 (shStore ext0) (shStore ext0) 9 2 ''r'' ModeDeductive exBefore = (Ok exProof, s')"
    using exProof_compose by blast
  from shEng.ComposeProof_ok [OF example_states(1) cp] obtain root tree s0 s0' where
    root: "mpRootNode exProof = Some root" and fv: "freshVal ?C root = Ok (mpValue exProof)"
    and rt: "refTree (\<lambda>_. None) root = refTree ?C tree" and s0: "shEng.same ext0 exBefore s0"
    and b: "buildProofNode (shStore ext0) 9 2 ''r'' [] [] s0 = Some (Some tree, mpPathToNode exProof, s0')"
    and ok: "distinct (treePaths root) \<and> [] \<notin> set (treePaths root) \<longrightarrow> proofOk exProof root" by blast
  have r: "exRoot = root" using root by (simp add: exRoot_def)
  have f: "sh_inv ext0 s0" "shCur ext0 9 s0 = ?C" "\<And>h. sGetAtom (shStore ext0) 9 h s0 = shGetAtom 9 h exBefore"
    using s0 unfolding shEng.same_def by (auto simp: shStore_def)
  have "tree = ?t"
    using shEng.build_pair [OF f(1), where now = 9 and r = "''r''" and a = atomR and h = "aHash atomX1"
        and b = atomX1 and x = "''x''" and c = atomX1 and v = "VInt 7" and k = 0] b
    by (simp add: f example_reads numeral_2_eq_2)
  then have t: "refTree ?C tree = ?t" by (simp add: example_reads exprOf_def hashOf_def)
  then show rt': "refTree (\<lambda>_. None) exRoot = ?t" using rt by (simp add: r)
  then show tp: "treePaths exRoot = [''r'', ''x'']" using treePaths_refTree [of "\<lambda>_. None" exRoot] by simp
  then show "proofOk exProof exRoot" using ok by (simp add: r)
  from this have "storedVal exRoot = Ok (mpValue exProof)" by (rule proofOkD)
  moreover have "storedVal exRoot = storedVal ?t"
    using rt' freshVal_refTree(1) [of "\<lambda>_. None" exRoot] by simp
  ultimately show "mpValue exProof = VRecord [(''x'', VInt 7)]" by (simp add: freshVal.simps)
qed

lemma example_ready:
  "faithful (shCur ext0 9 exAfter) exRoot" "allNodes (stableNode (shCur ext0 9 exAfter)) exRoot"
  "freshVal (shCur ext0 9 exAfter) exRoot = Ok (VRecord [(''x'', VInt 8)])"
proof -
  let ?C = "shCur ext0 9 exAfter"
  let ?x = "PNode (EConst (VInt 7)) [] VNil False 0 False (aHash atomX1) ''x''"
  let ?t = "PNode (ECompose [aHash atomX1]) [?x] VNil False 0 False (aHash atomR) ''r''"
  note rt = exProof_ok(4)
  have nodes: "q = [] \<or> q = [0]" if "nodeAt q ?t = Some n" for q n
    using that by (cases q; cases "tl q") (auto split: if_splits)
  have node: "refTree (\<lambda>_. None) n = ?t \<or> refTree (\<lambda>_. None) n = ?x" if "nodeAt q exRoot = Some n" for q n
  proof -
    have "nodeAt q ?t = Some (refTree (\<lambda>_. None) n)"
      using that nodeAt_refTree [of q "\<lambda>_. None" exRoot] rt by simp
    with nodes [OF this] show ?thesis by auto
  qed
  have fields: "pnExpr n = ECompose [aHash atomX1] \<and> pnSourceHash n = aHash atomR \<and> pnSourcePath n = ''r'' \<or>
      pnExpr n = EConst (VInt 7) \<and> pnSourceHash n = aHash atomX1 \<and> pnSourcePath n = ''x'' \<and> pnChildren n = []"
    if "nodeAt q exRoot = Some n" for q n
    using node [OF that] by (cases n) (auto simp: exprOf_def hashOf_def)
  show "faithful ?C exRoot"
    unfolding faithful_def
  proof (intro allI impI)
    fix q n a assume n: "nodeAt q exRoot = Some n" and a: "?C (pnSourcePath n) = Some a" "aHash a = pnSourceHash n"
    from fields [OF n] show "aExpr a = pnExpr n"
      using a example_hashes by (auto simp: example_reads split: if_splits)
  qed
  have "stableNode ?C n" if n: "nodeAt q exRoot = Some n" for q n
    using fields [OF n] by (auto simp: stableNode_def exprOf_def example_reads)
  then show "allNodes (stableNode ?C) exRoot" by (auto simp: allNodes_iff)
  have "refTree ?C exRoot = refTree ?C (refTree (\<lambda>_. None) exRoot)" by (simp add: refTree_twice)
  then have "freshVal ?C exRoot = freshVal ?C ?t" using freshVal_refTree(1) rt by metis
  then show "freshVal ?C exRoot = Ok (VRecord [(''x'', VInt 8)])"
    by (simp add: freshVal.simps exprOf_def example_reads)
qed

definition exTree :: pnode where
  "exTree = PNode (ECompose [aHash atomX1]) [PNode (EConst (VInt 7)) [] (VInt 7) False 0 False (aHash atomX1) ''x'']
     (VRecord [(''x'', VInt 7)]) False 0 False (aHash atomR) ''r''"

definition exCached :: mproof where
  "exCached = \<lparr>mpQueryHash = aHash atomR, mpQueryPath = ''r'', mpMode = ModeDeductive, mpValue = VRecord [(''x'', VInt 7)],
     mpValueHash = 0, mpVV = [(''r'', aHash atomR), (''x'', aHash atomX1)], mpMerkleRoot = 0, mpNodeCache = [],
     mpPathToNode = [(''r'', []), (''x'', [0])], mpProofTree = ECompose [aHash atomX1], mpRootNode = Some exTree,
     mpStats = zeroStats, mpLastVerifiedAt = 0, mpAccessCount = 0\<rparr>"

lemma exCached_ok: "proofOk exCached exTree" "allNodes (\<lambda>n. pnCached n \<noteq> VNil) exTree"
proof -
  have nodes: "q = [] \<or> q = [0]" if "nodeAt q exTree = Some n" for q n
    using that by (cases q; cases "tl q") (auto simp: exTree_def split: if_splits)
  have at: "nodeAt [] exTree = Some exTree" "nodeAt [0] exTree = Some (hd (pnChildren exTree))"
    by (simp_all add: exTree_def)
  show "proofOk exCached exTree"
    unfolding proofOk_def
  proof (intro conjI allI impI)
    fix q n assume n: "nodeAt q exTree = Some n"
    from nodes [OF n] n show "pnSourcePath n \<noteq> []" "map_of (mpPathToNode exCached) (pnSourcePath n) = Some q"
      "map_of (mpVV exCached) (pnSourcePath n) = Some (pnSourceHash n)"
      by (auto simp: at exTree_def exCached_def)
  qed (auto simp: exCached_def exTree_def cachedOk_def freshVal.simps exprOf_def gomap_ok_def split: if_splits)
  show "allNodes (\<lambda>n. pnCached n \<noteq> VNil) exTree" by (simp add: exTree_def)
qed

section \<open>Properties\<close>

text \<open>
  C2: the incremental read is exact.  For a cached proof that satisfies its invariant, over
  a frontier where equal hashes mean equal expressions and the inner nodes of the proof are
  still compositions, \<open>ReduceIncremental\<close> returns the value of the whole tree re-read
  against the current frontier, although it only reduces the nodes above changed paths.
  It leaves the frontier as it was, and the proof it leaves satisfies the invariant again.
\<close>

theorem sh_incremental_exact:
  assumes "sh_inv E f" and "proofOk pr root" and "faithful (shCur E now f) root"
    and "allNodes (stableNode (shCur E now f)) root"
  shows "\<exists>pr' f'. ReduceIncremental E (shStore E) now k pr f = (liftInc (freshVal (shCur E now f) root), pr', f') \<and>
    sh_inv E f' \<and> shCur E now f' = shCur E now f \<and>
    (\<forall>v. freshVal (shCur E now f) root = Ok v \<longrightarrow> mpValue pr' = v \<and>
       (\<exists>root'. proofOk pr' root' \<and> refTree (\<lambda>_. None) root' = refTree (shCur E now f) root))"
  using shEng.ReduceIncremental_spec [OF assms, of E k] unfolding shEng.same_def by fast

theorem sh_incremental_exact_witness:
  "fst (ReduceIncremental ext0 (shStore ext0) 9 2 exProof exAfter) = Ok (VRecord [(''x'', VInt 8)])"
  using sh_incremental_exact [OF example_states(2) exProof_ok(1) example_ready(1,2), of 2] example_ready(3)
  by (auto simp: liftInc_def)



text \<open>
  C8: composition returns.  If the paths below \<open>path\<close> hold constants or compositions, and
  some rank decreases from every composition to its parts, then \<open>ComposeProof\<close> returns a
  proof; a recursion depth above the rank of the path is enough.
\<close>

theorem sh_compose_returns:
  assumes "sh_inv E f" and "composable rank P (shCur E now f) (\<lambda>h. shGetAtom now h f)"
    and "path \<in> P" and "rank path < k"
  shows "\<exists>pr f'. ComposeProof E (shStore E) (shStore E) now k path mode f = (Ok pr, f')"
  using shEng.ComposeProof_total [OF assms(1), of rank P now path k] assms(2-4) by (simp add: shStore_def) blast

theorem sh_compose_returns_witness:
  "\<exists>pr f'. ComposeProof ext0 (shStore ext0) (shStore ext0) 9 2 ''r'' ModeDeductive exBefore = (Ok pr, f')"
  by (rule sh_compose_returns [OF example_states(1) example_composable]) simp_all

text \<open>
  C15: the cost of an incremental read.  The number of nodes that are reduced is at most the
  sum, over the changed paths, of the length of the way from their node to the root.
\<close>

theorem sh_incremental_cost:
  assumes "sh_inv E f" and "proofOk pr root" and "allNodes (\<lambda>n. pnCached n \<noteq> VNil) root"
    and "ReduceIncremental E (shStore E) now k pr f = (r, pr', f')"
  shows "rsCacheMisses (mpStats pr') \<le>
    (\<Sum>p\<leftarrow>changedPaths (shCur E now f) (mpVV pr). length (the (map_of (mpPathToNode pr) p)) + 1)"
  by (rule shEng.ReduceIncremental_cost [OF assms])

theorem sh_incremental_cost_witness:
  "rsCacheMisses (mpStats (fst (snd (ReduceIncremental ext0 (shStore ext0) 9 2 exCached exAfter)))) \<le> 2"
proof -
  obtain r pr' f' where ri: "ReduceIncremental ext0 (shStore ext0) 9 2 exCached exAfter = (r, pr', f')" by (metis surj_pair)
  have "rsCacheMisses (mpStats pr') \<le> 2"
    using sh_incremental_cost [OF example_states(2) exCached_ok ri] example_hashes
    by (simp add: changedPaths_def example_reads exCached_def)
  then show ?thesis by (simp add: ri)
qed

text \<open>
  C14: an incremental read arms the fast path.  If every path of the proof is still there,
  the version vector that the read leaves is the current one: the next read at the same
  frontier returns the value without reducing anything.
\<close>

theorem sh_incremental_arms_fast_path:
  assumes "sh_inv E f" and "proofOk pr root" and "faithful (shCur E now f) root"
    and "allNodes (stableNode (shCur E now f)) root"
    and "ReduceIncremental E (shStore E) now k pr f = (Ok v, pr', f')"
    and "\<And>p. p \<in> set (treePaths root) \<Longrightarrow> shCur E now f p \<noteq> None"
  shows "shVerifyVersionVector E now (mpVV pr') f'"
  using shEng.ReduceIncremental_arms [OF assms(1-6)] by (simp add: shStore_def)

theorem sh_incremental_arms_fast_path_witness:
  "\<exists>pr' f'. ReduceIncremental ext0 (shStore ext0) 9 2 exProof exAfter = (Ok (VRecord [(''x'', VInt 8)]), pr', f') \<and>
     shVerifyVersionVector ext0 9 (mpVV pr') f'"
proof -
  obtain pr' f' where r: "ReduceIncremental ext0 (shStore ext0) 9 2 exProof exAfter = (Ok (VRecord [(''x'', VInt 8)]), pr', f')"
    using shEng.ReduceIncremental_spec [OF example_states(2) exProof_ok(1) example_ready(1,2), of ext0 2] example_ready(3)
    by (auto simp: liftInc_def)
  have "shCur ext0 9 exAfter p \<noteq> None" if "p \<in> set (treePaths exRoot)" for p
    using that by (auto simp: exProof_ok example_reads)
  then have "shVerifyVersionVector ext0 9 (mpVV pr') f'"
    by (rule sh_incremental_arms_fast_path [OF example_states(2) exProof_ok(1) example_ready(1,2) r])
  with r show ?thesis by blast
qed

text \<open>
  C33: a cached proof and a new one can disagree.  After \<open>x\<close>, a part of the composition
  \<open>r\<close>, was overwritten, the cached proof of \<open>r\<close> answers with the new value of \<open>x\<close>, and a
  proof composed at the same moment has no field \<open>x\<close> at all: the composition names the old
  atom by its hash, and the cache finds atoms only while they are current.
\<close>

theorem sh_cold_and_cached_disagree:
  "fst (ReduceIncremental ext0 (shStore ext0) 9 2 exProof exAfter) = Ok (VRecord [(''x'', VInt 8)]) \<and>
   (\<exists>pr f'. ComposeProof ext0 (shStore ext0) (shStore ext0) 9 2 ''r'' ModeDeductive exAfter = (Ok pr, f') \<and>
      mpValue pr = VRecord [])"
proof
  show "fst (ReduceIncremental ext0 (shStore ext0) 9 2 exProof exAfter) = Ok (VRecord [(''x'', VInt 8)])"
    using shEng.ReduceIncremental_spec [OF example_states(2) exProof_ok(1) example_ready(1,2), of ext0 2] example_ready(3)
    by (auto simp: liftInc_def)
  let ?C = "shCur ext0 9 exAfter"
  have "composable (\<lambda>p. 0) {''r''} ?C (\<lambda>h. shGetAtom 9 h exAfter)"
    by (simp add: composable_def example_reads)
  then obtain pr f' where cp: "ComposeProof ext0 (shStore ext0) (shStore ext0) 9 2 ''r'' ModeDeductive exAfter = (Ok pr, f')"
    using shEng.ComposeProof_total [OF example_states(2), of "\<lambda>p. 0" "{''r''}" 9 "''r''" 2 ext0 ModeDeductive]
    by (auto simp: shStore_def)
  from shEng.ComposeProof_ok [OF example_states(2) cp] obtain root tree s0 s0' where
    fv: "freshVal ?C root = Ok (mpValue pr)" and rt: "refTree (\<lambda>_. None) root = refTree ?C tree"
    and s0: "shEng.same ext0 exAfter s0"
    and b: "buildProofNode (shStore ext0) 9 2 ''r'' [] [] s0 = Some (Some tree, mpPathToNode pr, s0')" by blast
  have f: "sh_inv ext0 s0" "shCur ext0 9 s0 = ?C" "\<And>h. sGetAtom (shStore ext0) 9 h s0 = shGetAtom 9 h exAfter"
    using s0 unfolding shEng.same_def by (auto simp: shStore_def)
  have "pnChildren tree = []" "pnExpr tree = ECompose [aHash atomX1]" "pnSourcePath tree = ''r''"
    using shEng.build_gone [OF f(1), where now = 9 and r = "''r''" and a = atomR and h = "aHash atomX1" and k = 1] b
    by (auto simp: f example_reads numeral_2_eq_2)
  then have "freshVal ?C tree = Ok (VRecord [])" by (simp add: freshVal.simps exprOf_def example_reads)
  then have "mpValue pr = VRecord []" using fv refTree_reread [OF rt] freshVal_refTree(1) by (metis result.inject(1))
  with cp show "\<exists>pr f'. ComposeProof ext0 (shStore ext0) (shStore ext0) 9 2 ''r'' ModeDeductive exAfter = (Ok pr, f') \<and>
      mpValue pr = VRecord []" by blast
qed

end
