(* ===== verification/SqlParser.thy ===== *)
theory SqlParser
  imports EngineProps
begin

text \<open>
  \<open>internal/engine/sqlparser.go\<close>: the SELECT statements that the server accepts as keys.
  The parser looks for keywords in the upper-cased query and cuts the original query at
  the positions it finds; a slice out of range is a panic.
\<close>

fun sqlAtoms :: "'s store \<Rightarrow> gotime \<Rightarrow> string \<Rightarrow> string \<Rightarrow> string list \<Rightarrow> 's \<Rightarrow> hash list result \<times> 's" where
  "sqlAtoms st now table ident [] s = (Ok [], s)"
| "sqlAtoms st now table ident (col # cols) s =
     (let path = table @ '':'' @ ident @ '':'' @ col in
      case sGetCurrent st now path s of
        (None, s1) \<Rightarrow> (Err (''dependency not found: '' @ path), s1)
      | (Some a, s1) \<Rightarrow>
          (case sqlAtoms st now table ident cols s1 of
             (Ok hs, s2) \<Rightarrow> (Ok (aHash a # hs), s2)
           | r \<Rightarrow> r))"

definition sqlQuotes :: string where "sqlQuotes = [CHR 39, CHR 34]"

definition SQLToProofTree :: "ext \<Rightarrow> 's store \<Rightarrow> gotime \<Rightarrow> string \<Rightarrow> 's \<Rightarrow> (expr \<times> string) result \<times> 's" where
  "SQLToProofTree E st now query s =
     (let q = ToUpper E query in
      if \<not> HasPrefix q ''SELECT'' then (Err ''unsupported SQL query: only SELECT is supported'', s)
      else case (Index q ''FROM'', Index q ''WHERE'') of
        (Some fromIdx, Some whereIdx) \<Rightarrow>
          (case goSlice query 7 fromIdx of
             Ok colsPart \<Rightarrow>
               (case goSlice query (fromIdx + 4) whereIdx of
                  Ok t \<Rightarrow>
                    (case goSlice query (whereIdx + 5) (length query) of
                       Ok wherePart \<Rightarrow>
                         (let tablePart = TrimSpace E t;
                              cols = map (TrimSpace E) (splitOn (CHR '','') colsPart) in
                          case Index wherePart ''='' of
                            None \<Rightarrow> (Err ''malformed SQL: only id = val is supported'', s)
                          | Some eqIdx \<Rightarrow>
                              (let ident = Trim (TrimSpace E (drop (eqIdx + 1) wherePart)) sqlQuotes;
                                   primaryPath = ''sql:'' @ tablePart @ '':'' @ ident in
                               case sqlAtoms st now tablePart ident cols s of
                                 (Ok [], s1) \<Rightarrow> (Err ''no data found for query dependencies'', s1)
                               | (Ok hs, s1) \<Rightarrow> (Ok (ECompose hs, primaryPath), s1)
                               | (Err e, s1) \<Rightarrow> (Err e, s1)
                               | (Panic, s1) \<Rightarrow> (Panic, s1)
                               | (Hang, s1) \<Rightarrow> (Hang, s1)))
                     | _ \<Rightarrow> (Panic, s))
                | _ \<Rightarrow> (Panic, s))
           | _ \<Rightarrow> (Panic, s))
      | _ \<Rightarrow> (Err ''malformed SQL: missing FROM or WHERE'', s))"

section \<open>Searching in concatenations\<close>

lemma Index_Some_iff: "Index s p = Some i \<longleftrightarrow> HasPrefix (drop i s) p \<and> i \<le> length s \<and> (\<forall>j<i. \<not> HasPrefix (drop j s) p)"
proof (induction s arbitrary: i)
  case Nil
  then show ?case by (subst Index.simps) auto
next
  case (Cons x s)
  show ?case
  proof (cases "HasPrefix (x # s) p")
    case True
    then show ?thesis by (subst Index.simps) (auto intro: gr0I)
  next
    case False
    show ?thesis
    proof (cases i)
      case 0
      with False show ?thesis by (subst Index.simps) auto
    next
      case (Suc k)
      have "Index (x # s) p = Some i \<longleftrightarrow> Index s p = Some k" using False Suc by (subst Index.simps) auto
      then show ?thesis using False Suc Cons.IH [of k] by (auto simp: less_Suc_eq_0_disj)
    qed
  qed
qed

text \<open>Upper-casing an ASCII string keeps its length and its cut points.\<close>

lemma ToUpper_ASCII: "isASCII s \<Longrightarrow> ToUpper E s = map upperChar s"
  by (simp add: ToUpper_def)

lemma Contains_iff: "Contains s p \<longleftrightarrow> (\<exists>a b. s = a @ p @ b)"
proof
  assume "Contains s p"
  then obtain i where "Index s p = Some i" by (auto simp: Contains_def)
  then obtain b where "drop i s = p @ b" by (auto simp: Index_Some_iff HasPrefix_iff)
  then have "s = take i s @ p @ b" by (metis append_take_drop_id)
  then show "\<exists>a b. s = a @ p @ b" by blast
next
  assume "\<exists>a b. s = a @ p @ b"
  then obtain a b where s: "s = a @ p @ b" by blast
  then have "HasPrefix (drop (length a) s) p" by simp
  then have "\<exists>i. HasPrefix (drop i s) p \<and> (\<forall>j<i. \<not> HasPrefix (drop j s) p)"
    using exists_least_iff [of "\<lambda>i. HasPrefix (drop i s) p"] by blast
  then obtain i where i: "HasPrefix (drop i s) p" "\<forall>j<i. \<not> HasPrefix (drop j s) p" by blast
  then have "i \<le> length a" by (metis \<open>HasPrefix (drop (length a) s) p\<close> not_le)
  then have "i \<le> length s" using s by simp
  with i have "Index s p = Some i" by (simp add: Index_Some_iff)
  then show "Contains s p" by (simp add: Contains_def)
qed

lemma append_sep_prefix: "x @ c # y = p @ b \<Longrightarrow> c \<notin> set p \<Longrightarrow> \<exists>b'. x = p @ b'"
proof (induction x arbitrary: p)
  case Nil
  then show ?case by (cases p) auto
next
  case (Cons a x)
  then show ?case by (cases p) auto
qed

text \<open>An occurrence of \<open>p\<close> does not reach over a character that is not in \<open>p\<close>.\<close>

lemma Contains_sep:
  assumes "c \<notin> set p" and "p \<noteq> []"
  shows "Contains (s @ c # t) p \<longleftrightarrow> Contains s p \<or> Contains t p"
proof
  assume "Contains (s @ c # t) p"
  then obtain a b where e: "s @ c # t = a @ p @ b" by (auto simp: Contains_iff)
  show "Contains s p \<or> Contains t p"
  proof (cases "length a \<le> length s")
    case False
    then obtain a' where "a = s @ c # a'" using e
      by (auto simp: append_eq_append_conv2 append_eq_Cons_conv Cons_eq_append_conv)
    with e have "t = a' @ p @ b" by simp
    then show ?thesis by (auto simp: Contains_iff)
  next
    case True
    have "take (length a) s = a" using arg_cong [OF e, of "take (length a)"] True by simp
    then have s: "s = a @ drop (length a) s" by (metis append_take_drop_id)
    with e have "drop (length a) s @ c # t = p @ b" by (metis append.assoc same_append_eq)
    from append_sep_prefix [OF this assms(1)] obtain b' where "s = a @ p @ b'" using s by auto
    then show ?thesis unfolding Contains_iff by blast
  qed
next
  assume "Contains s p \<or> Contains t p"
  then show "Contains (s @ c # t) p"
  proof
    assume "Contains s p"
    then obtain a b where "s = a @ p @ b" by (auto simp: Contains_iff)
    then have "s @ c # t = a @ p @ (b @ c # t)" by simp
    then show ?thesis unfolding Contains_iff by blast
  next
    assume "Contains t p"
    then obtain a b where "t = a @ p @ b" by (auto simp: Contains_iff)
    then have "s @ c # t = (s @ c # a) @ p @ b" by simp
    then show ?thesis unfolding Contains_iff by blast
  qed
qed

lemma Index_after_sep:
  assumes "c \<notin> set p" and "p \<noteq> []" and "\<not> Contains s p"
  shows "Index (s @ c # p @ t) p = Some (Suc (length s))"
proof -
  have "\<not> HasPrefix (drop j (s @ c # p @ t)) p" if j: "j < Suc (length s)" for j
  proof
    assume "HasPrefix (drop j (s @ c # p @ t)) p"
    then obtain b where b: "drop j s @ c # p @ t = p @ b" using j by (auto simp: HasPrefix_iff)
    from append_sep_prefix [OF b assms(1)] have "\<exists>b'. drop j s = p @ b'" .
    then obtain b' where "s = take j s @ p @ b'" by (metis append_take_drop_id)
    with assms(3) show False by (auto simp: Contains_iff)
  qed
  then show ?thesis by (auto simp: Index_Some_iff)
qed

section \<open>Queries of the supported form\<close>

text \<open>
  A name in a query: letters, digits and underscores.  The parser does not tokenise, so a
  table or column name must not contain a keyword.
\<close>

definition wordChar :: "char \<Rightarrow> bool" where
  "wordChar c \<longleftrightarrow> isLetter c \<or> isDigit c \<or> c = CHR ''_''"

definition sqlName :: "string \<Rightarrow> bool" where
  "sqlName s \<longleftrightarrow> s \<noteq> [] \<and> list_all wordChar s \<and>
     \<not> Contains (map upperChar s) ''FROM'' \<and> \<not> Contains (map upperChar s) ''WHERE''"

definition selectQuery :: "string list \<Rightarrow> string \<Rightarrow> string \<Rightarrow> string" where
  "selectQuery cols table ident =
     ''SELECT '' @ joinWith '','' cols @ '' FROM '' @ table @ '' WHERE id = '' @ ident"

lemma wordChar_ASCII: "list_all wordChar s \<Longrightarrow> isASCII s"
  by (auto simp: isASCII_def list_all_iff wordChar_def isLetter_def isDigit_def)

lemma wordChar_facts: "wordChar c \<Longrightarrow> \<not> isSpace c \<and> c \<noteq> CHR '','' \<and> c \<noteq> CHR ''='' \<and> c \<notin> set sqlQuotes"
  by (auto simp: wordChar_def isLetter_def isDigit_def isSpace_def sqlQuotes_def)

lemma trim_word:
  assumes "list_all wordChar w" and "w \<noteq> []" and "list_all isSpace a" and "list_all isSpace b"
  shows "TrimSpace E (a @ w @ b) = w" and "Trim w sqlQuotes = w"
proof -
  obtain x u where w: "w = x # u" using assms(2) by (cases w) auto
  obtain y v where r: "rev w = y # v" using assms(2) by (cases "rev w") auto
  have "x \<in> set w" "y \<in> set w" using w r set_rev [of w] by (simp, metis list.set_intros(1))
  then have xy: "wordChar x" "wordChar y" using assms(1) by (simp_all add: list_all_iff)
  note f = xy [THEN wordChar_facts]
  have drop: "dropWhile isSpace (c @ d) = dropWhile isSpace d" if "list_all isSpace c" for c d
    using that by (induction c) auto
  have sp: "isASCII (a @ w @ b)" using wordChar_ASCII [OF assms(1)] assms(3,4)
    by (auto simp: isASCII_def list_all_iff isSpace_def)
  have "trimLeftBy isSpace (a @ w @ b) = w @ b" using f by (simp add: trimLeftBy_def drop [OF assms(3)] w)
  moreover have "dropWhile isSpace (rev b @ rev w) = rev w"
    using f assms(4) drop [of "rev b" "rev w"] r by (simp add: list_all_iff)
  then have "trimRightBy isSpace (w @ b) = w" by (simp add: trimRightBy_def)
  ultimately show "TrimSpace E (a @ w @ b) = w" using sp by (simp add: TrimSpace_def)
  have "trimLeftBy (\<lambda>c. c \<in> set sqlQuotes) w = w" using f by (simp add: trimLeftBy_def w)
  moreover have "dropWhile (\<lambda>c. c \<in> set sqlQuotes) (rev w) = rev w" using f r by simp
  then have "trimRightBy (\<lambda>c. c \<in> set sqlQuotes) w = w" by (simp add: trimRightBy_def)
  ultimately show "Trim w sqlQuotes = w" by (simp add: Trim_def)
qed

lemma split_cols:
  assumes "cols \<noteq> []" and "\<forall>c \<in> set cols. sqlName c"
  shows "map (TrimSpace E) (splitOn (CHR '','') (joinWith '','' cols @ '' '')) = cols"
  using assms
proof (induction cols)
  case (Cons c cols)
  have c: "list_all wordChar c" "c \<noteq> []" using Cons.prems by (auto simp: sqlName_def)
  then have nc: "CHR '','' \<notin> set c" using wordChar_facts by (auto simp: list_all_iff)
  have trim: "TrimSpace E (c @ '' '') = c" "TrimSpace E c = c"
    using trim_word(1) [OF c, of "[]"  "'' ''"] trim_word(1) [OF c, of "[]"  "[]"] by (simp_all add: isSpace_def)
  show ?case
  proof (cases cols)
    case Nil
    then show ?thesis using nc trim by (simp add: splitOn_no_sep)
  next
    case (Cons d ds)
    then have "joinWith '','' (c # cols) @ '' '' = c @ CHR '','' # (joinWith '','' cols @ '' '')" by simp
    then show ?thesis using Cons.IH Cons.prems Cons nc trim by (simp add: splitOn_append)
  qed
qed simp

lemma upper_join: "map upperChar (joinWith '','' cols) = joinWith '','' (map (map upperChar) cols)"
proof (induction cols)
  case (Cons c cols)
  then show ?case by (cases cols) (auto simp: upperChar_def)
qed simp

lemma Contains_join:
  assumes "CHR '','' \<notin> set p" and "p \<noteq> []" and "\<forall>c \<in> set cs. \<not> Contains c p"
  shows "\<not> Contains (joinWith '','' cs) p"
  using assms
proof (induction cs)
  case Nil
  then show ?case by (simp add: Contains_iff)
next
  case (Cons c cs)
  show ?case
  proof (cases cs)
    case (Cons d ds)
    then have "joinWith '','' (c # cs) = c @ CHR '','' # joinWith '','' cs" by simp
    then show ?thesis using Cons.IH Cons.prems Contains_sep [of "CHR '',''" p c "joinWith '','' cs"] by (simp only:) simp
  qed (use Cons.prems in simp)
qed

lemma upper_lits:
  "map upperChar ''SELECT '' = ''SELECT '' " "map upperChar '' FROM '' = '' FROM ''"
  "map upperChar '' WHERE id = '' = '' WHERE ID = ''"
  by code_simp+

lemma ascii_lits: "isASCII '',''" "isASCII ''SELECT ''" "isASCII '' FROM ''" "isASCII '' WHERE id = ''"
  by code_simp+

lemma keyword_lits:
  "\<not> Contains ''SELECT'' ''FROM''" "\<not> Contains ''SELECT'' ''WHERE''" "\<not> Contains ''FROM'' ''WHERE''"
  by code_simp+

text \<open>The places where the parser cuts a query of the supported form.\<close>

lemma select_cuts:
  fixes E
  assumes "\<forall>c \<in> set (table # cols). sqlName c" and "list_all wordChar ident"
  defines "q \<equiv> ToUpper E (selectQuery cols table ident)" and "n \<equiv> length (joinWith '','' cols)"
  shows "HasPrefix q ''SELECT''" and "Index q ''FROM'' = Some (8 + n)"
    and "Index q ''WHERE'' = Some (14 + n + length table)"
proof -
  let ?U = "map upperChar" and ?J = "joinWith '','' cols"
  have "isASCII ?J" using assms(1) ascii_lits
    by (intro isASCII_join) (simp_all add: sqlName_def wordChar_ASCII list_all_iff)
  then have "isASCII (selectQuery cols table ident)"
    using assms(1,2) ascii_lits wordChar_ASCII unfolding selectQuery_def isASCII_append by (simp only: sqlName_def list.set simp_thms insert_iff ball_simps)
  then have q: "q = ''SELECT '' @ ?U ?J @ '' FROM '' @ ?U table @ '' WHERE ID = '' @ ?U ident"
    unfolding q_def by (simp only: ToUpper_ASCII selectQuery_def map_append upper_lits)
  then show "HasPrefix q ''SELECT''" by (simp add: HasPrefix_def)
  have free: "\<forall>c \<in> set cols. \<not> Contains (?U c) ''FROM'' \<and> \<not> Contains (?U c) ''WHERE''"
    and noT: "\<not> Contains (?U table) ''WHERE''"
    using assms(1) unfolding sqlName_def list.set by blast+
  have noJ: "\<not> Contains (?U ?J) ''FROM''" "\<not> Contains (?U ?J) ''WHERE''"
    unfolding upper_join by (rule Contains_join; simp add: free)+
  have "\<not> Contains (''SELECT'' @ CHR '' '' # ?U ?J) ''FROM''"
    unfolding Contains_sep [of "CHR '' ''" "''FROM''", simplified] using noJ keyword_lits by simp
  from Index_after_sep [OF _ _ this, of "CHR '' ''" "CHR '' '' # ?U table @ '' WHERE ID = '' @ ?U ident"]
  show "Index q ''FROM'' = Some (8 + n)" by (simp add: q n_def)
  have "\<not> Contains (''SELECT'' @ CHR '' '' # (?U ?J @ CHR '' '' # (''FROM'' @ CHR '' '' # ?U table))) ''WHERE''"
    unfolding Contains_sep [of "CHR '' ''" "''WHERE''", simplified] using noJ noT keyword_lits by simp
  from Index_after_sep [OF _ _ this, of "CHR '' ''" "'' ID = '' @ ?U ident"]
  show "Index q ''WHERE'' = Some (14 + n + length table)" by (simp add: q n_def)
qed

section \<open>Parsing the supported form\<close>

text \<open>The dependencies of a query: the paths \<open>table:id:column\<close>.\<close>

definition colPath :: "string \<Rightarrow> string \<Rightarrow> string \<Rightarrow> string" where
  "colPath table ident col = table @ '':'' @ ident @ '':'' @ col"

definition sqlDeps :: "(string \<Rightarrow> catom option) \<Rightarrow> string list \<Rightarrow> hash list result" where
  "sqlDeps C ps =
     (case filter (\<lambda>p. C p = None) ps of
        [] \<Rightarrow> Ok (map (\<lambda>p. aHash (the (C p))) ps)
      | p # _ \<Rightarrow> Err (''dependency not found: '' @ p))"

context store_reads
begin

lemma sqlAtoms_deps:
  "inv s \<Longrightarrow> \<exists>s'. sqlAtoms st now table ident cols s = (sqlDeps (cur now s) (map (colPath table ident) cols), s') \<and>
     inv s' \<and> cur now s' = cur now s"
proof (induction cols arbitrary: s)
  case Nil
  then show ?case by (simp add: sqlDeps_def)
next
  case (Cons c cols)
  let ?p = "colPath table ident c"
  obtain a s1 where g: "sGetCurrent st now ?p s = (a, s1)" by (metis surj_pair)
  have a: "a = cur now s ?p" and s1: "inv s1" "cur now s1 = cur now s"
    using GetCurrent_cur [OF Cons.prems, of now ?p] GetCurrent_inv [OF Cons.prems, of now ?p]
      GetCurrent_view [OF Cons.prems, of now now ?p] by (auto simp: g fun_eq_iff)
  from Cons.IH [OF s1(1)] obtain s2 where
    r: "sqlAtoms st now table ident cols s1 = (sqlDeps (cur now s) (map (colPath table ident) cols), s2)"
      "inv s2" "cur now s2 = cur now s" unfolding s1(2) by blast
  show ?case
  proof (cases a)
    case None
    with g a s1 show ?thesis by (simp add: sqlDeps_def colPath_def Let_def)
  next
    case (Some b)
    then have "sqlAtoms st now table ident (c # cols) s =
      (case sqlAtoms st now table ident cols s1 of (Ok hs, s2) \<Rightarrow> (Ok (aHash b # hs), s2) | q \<Rightarrow> q)"
      using g by (simp add: colPath_def Let_def)
    with r Some a show ?thesis by (auto simp: sqlDeps_def split: list.splits)
  qed
qed

end

lemma select_slices:
  assumes "\<forall>c \<in> set (table # cols). sqlName c" and "list_all wordChar ident" and "ident \<noteq> []"
  defines "q \<equiv> selectQuery cols table ident" and "n \<equiv> length (joinWith '','' cols)"
  shows "goSlice q 7 (8 + n) = Ok (joinWith '','' cols @ '' '')"
    and "goSlice q (8 + n + 4) (14 + n + length table) = Ok ('' '' @ table @ '' '')"
    and "goSlice q (14 + n + length table + 5) (length q) = Ok ('' id = '' @ ident)"
    and "Index ('' id = '' @ ident) ''='' = Some 4"
proof -
  have q: "q = ''SELECT '' @ joinWith '','' cols @ '' '' @ ''FROM'' @ ('' '' @ table @ '' '') @ ''WHERE'' @ '' id = '' @ ident"
    by (simp add: q_def selectQuery_def)
  have cut: "goSlice s i j = Ok b" if "s = a @ b @ c" "i = length a" "j = length a + length b" for s a b c :: string and i j
    using that by (simp add: goSlice_def)
  show "goSlice q 7 (8 + n) = Ok (joinWith '','' cols @ '' '')"
    by (rule cut [where a = "''SELECT ''" and c = "''FROM'' @ ('' '' @ table @ '' '') @ ''WHERE'' @ '' id = '' @ ident"])
      (simp_all add: q n_def)
  show "goSlice q (8 + n + 4) (14 + n + length table) = Ok ('' '' @ table @ '' '')"
    by (rule cut [where a = "''SELECT '' @ joinWith '','' cols @ '' '' @ ''FROM''" and c = "''WHERE'' @ '' id = '' @ ident"])
      (simp_all add: q n_def)
  show "goSlice q (14 + n + length table + 5) (length q) = Ok ('' id = '' @ ident)"
    by (rule cut [where a = "''SELECT '' @ joinWith '','' cols @ '' '' @ ''FROM'' @ ('' '' @ table @ '' '') @ ''WHERE''" and c = "[]"])
      (simp_all add: q n_def)
  show "Index ('' id = '' @ ident) ''='' = Some 4"
    using Index_after_sep [of "CHR '' ''" "''=''" "'' id''"] by (simp add: Contains_def Index.simps HasPrefix_def)
qed


definition sqlCell :: catom where "sqlCell = mintAtom ext0 (EConst (VInt 7)) ''t:1:a'' 1 5 zeroTime"

definition sqlState :: sharded where
  "sqlState = snd (snd (shCommit ext0 sqlCell ((NewShardedFrontierCacheWithLimit 100000)\<lparr>shClock := 3\<rparr>)))"

lemma sqlState_cell: "sh_inv ext0 sqlState" "shCur ext0 9 sqlState ''t:1:a'' = Some sqlCell"
proof -
  let ?f0 = "(NewShardedFrontierCacheWithLimit 100000)\<lparr>shClock := 3\<rparr>"
  have a: "aPath sqlCell = ''t:1:a''" "aLogicalClock sqlCell = 1" "aExpiresAt sqlCell = zeroTime"
    by (simp_all add: sqlCell_def mintAtom_def Let_def)
  have i0: "sh_inv ext0 ?f0" by (simp add: sh_inv_def sh_ok_new)
      (simp add: sh_clocked_def NewShardedFrontierCacheWithLimit_def emptyTab_def)
  have e0: "shEntry ext0 ?f0 p = None" for p
    by (simp add: shEntry_def shard_def shardFor_def shardedFrontierShards_def NewShardedFrontierCacheWithLimit_def emptyTab_def)
  note c = shCommit_stored [OF i0, of sqlCell, folded sqlState_def]
  show "sh_inv ext0 sqlState" by (rule c) (simp_all add: a e0 word_le_nat_alt)
  have "shEntry ext0 sqlState ''t:1:a'' = Some sqlCell" by (subst c(3)) (simp_all add: a e0 word_le_nat_alt)
  then show "shCur ext0 9 sqlState ''t:1:a'' = Some sqlCell" by (simp add: shCur_entry a)
qed



end
