(* ===== verification/ProofCache.thy ===== *)
theory ProofCache
  imports Engine
begin

text \<open>
  The cache of materialized proofs, \<open>internal/engine/cache.go\<close>: a fixed number of shards,
  chosen by the hash of the key, each an LRU cache of bounded capacity.

  As in theory \<open>Table\<close>, a list element is identified by the key of the entry it holds:
  \<open>pcEntries\<close> gives the proof of the element that \<open>entries[key]\<close> points to, and \<open>pcLru\<close>
  is the list of the keys, front first.
\<close>

record cacheShard =
  pcEntries :: "(hash, mproof) gomap"
  pcLru :: "hash list"
  pcCapacity :: int

type_synonym proofCache = "cacheShard list"

definition newCacheShard :: "int \<Rightarrow> cacheShard" where
  "newCacheShard capacity = \<lparr>pcEntries = [], pcLru = [], pcCapacity = capacity\<rparr>"

text \<open>\<open>make\<close> panics on a negative number of shards.\<close>

definition NewProofCache :: "int \<Rightarrow> int \<Rightarrow> proofCache result" where
  "NewProofCache shards capacityPerShard =
     (if shards < 0 then Panic else Ok (replicate (nat shards) (newCacheShard capacityPerShard)))"

text \<open>\<open>shard\<close>: \<open>h % 0\<close> panics.\<close>

definition cacheShardOf :: "hash \<Rightarrow> proofCache \<Rightarrow> nat result" where
  "cacheShardOf key pc =
     (if pc = [] then Panic else Ok (unat (HashFast key) mod length pc))"

definition shardGet :: "hash \<Rightarrow> cacheShard \<Rightarrow> mproof option \<times> cacheShard" where
  "shardGet key s =
     (case map_of (pcEntries s) key of
        Some p \<Rightarrow> (Some p, s\<lparr>pcLru := moveToFront key (pcLru s)\<rparr>)
      | None \<Rightarrow> (None, s))"

definition shardEvict :: "cacheShard \<Rightarrow> cacheShard" where
  "shardEvict s =
     (if int (length (pcLru s)) \<ge> pcCapacity s \<and> pcLru s \<noteq> [] then
        s\<lparr>pcEntries := AList.delete (last (pcLru s)) (pcEntries s), pcLru := butlast (pcLru s)\<rparr>
      else s)"

definition shardSet :: "hash \<Rightarrow> mproof \<Rightarrow> cacheShard \<Rightarrow> cacheShard" where
  "shardSet key p s =
     (case map_of (pcEntries s) key of
        Some _ \<Rightarrow> s\<lparr>pcLru := moveToFront key (pcLru s), pcEntries := AList.update key p (pcEntries s)\<rparr>
      | None \<Rightarrow>
          (let s1 = shardEvict s in
           s1\<lparr>pcLru := key # pcLru s1, pcEntries := AList.update key p (pcEntries s1)\<rparr>))"

definition shardDelete :: "hash \<Rightarrow> cacheShard \<Rightarrow> cacheShard" where
  "shardDelete key s =
     (case map_of (pcEntries s) key of
        Some _ \<Rightarrow> s\<lparr>pcEntries := AList.delete key (pcEntries s), pcLru := removeElem key (pcLru s)\<rparr>
      | None \<Rightarrow> s)"

definition pcGet :: "hash \<Rightarrow> proofCache \<Rightarrow> (mproof option \<times> proofCache) result" where
  "pcGet key pc =
     bind_result (cacheShardOf key pc) (\<lambda>i.
       let (p, s) = shardGet key (pc ! i) in Ok (p, pc[i := s]))"

definition pcSet :: "hash \<Rightarrow> mproof \<Rightarrow> proofCache \<Rightarrow> proofCache result" where
  "pcSet key p pc =
     bind_result (cacheShardOf key pc) (\<lambda>i. Ok (pc[i := shardSet key p (pc ! i)]))"

definition pcDelete :: "hash \<Rightarrow> proofCache \<Rightarrow> proofCache result" where
  "pcDelete key pc =
     bind_result (cacheShardOf key pc) (\<lambda>i. Ok (pc[i := shardDelete key (pc ! i)]))"

section \<open>The abstract LRU cache\<close>

text \<open>
  What the cache promises: a list of entries, the most recently used first, of bounded
  length.  A hit moves its entry to the front, a store puts its entry there and the list is
  cut at the capacity.
\<close>

type_synonym lruSpec = "(hash \<times> mproof) list"

definition lruGet :: "hash \<Rightarrow> lruSpec \<Rightarrow> mproof option \<times> lruSpec" where
  "lruGet k l =
     (case map_of l k of
        None \<Rightarrow> (None, l)
      | Some p \<Rightarrow> (Some p, (k, p) # AList.delete k l))"

definition lruSet :: "nat \<Rightarrow> hash \<Rightarrow> mproof \<Rightarrow> lruSpec \<Rightarrow> lruSpec" where
  "lruSet n k p l = take n ((k, p) # AList.delete k l)"

definition lruDelete :: "hash \<Rightarrow> lruSpec \<Rightarrow> lruSpec" where
  "lruDelete k l = AList.delete k l"

definition absShard :: "cacheShard \<Rightarrow> lruSpec" where
  "absShard s = map (\<lambda>k. (k, the (map_of (pcEntries s) k))) (pcLru s)"

text \<open>A shard with capacity zero or less still holds the last proof stored.\<close>

definition shardRoom :: "cacheShard \<Rightarrow> nat" where
  "shardRoom s = max 1 (nat (pcCapacity s))"

definition shardOk :: "cacheShard \<Rightarrow> bool" where
  "shardOk s \<longleftrightarrow> gomap_ok (pcEntries s) \<and> distinct (pcLru s) \<and>
     set (pcLru s) = fst ` set (pcEntries s) \<and> length (pcLru s) \<le> shardRoom s"

lemma shardOk_new [simp]: "shardOk (newCacheShard c)"
  by (simp add: shardOk_def newCacheShard_def)

lemma shardOk_key: "shardOk s \<Longrightarrow> k \<in> set (pcLru s) \<longleftrightarrow> (\<exists>p. map_of (pcEntries s) k = Some p)"
  by (simp add: shardOk_def dom_map_of_eq [symmetric] dom_def)

lemma map_of_absShard:
  assumes "shardOk s"
  shows "map_of (absShard s) k = map_of (pcEntries s) k"
proof (cases "k \<in> set (pcLru s)")
  case True
  then have "map_of (absShard s) k = Some (the (map_of (pcEntries s) k))"
    by (simp add: absShard_def map_of_map_restrict)
  with True shardOk_key [OF assms] show ?thesis by auto
next
  case False
  then have "map_of (absShard s) k = None"
    by (simp add: absShard_def map_of_map_restrict)
  with False shardOk_key [OF assms, of k] show ?thesis by (cases "map_of (pcEntries s) k") auto
qed

lemma length_absShard [simp]: "length (absShard s) = length (pcLru s)"
  by (simp add: absShard_def)

lemma absShard_delete:
  "AList.delete k (absShard s) = map (\<lambda>k. (k, the (map_of (pcEntries s) k))) (removeAll k (pcLru s))"
  by (simp add: absShard_def AList.delete_eq filter_map removeAll_filter_not_eq comp_def)

lemma length_moveToFront: "distinct xs \<Longrightarrow> length (moveToFront k xs) = length xs"
  by (simp add: moveToFront_def length_removeAll_less distinct_remove1_removeAll [symmetric] length_remove1)
    (metis One_nat_def Suc_pred length_pos_if_in_set)

lemma shardOk_touch:
  "shardOk s \<Longrightarrow> shardOk (s\<lparr>pcLru := moveToFront k (pcLru s)\<rparr>)"
  by (simp add: shardOk_def shardRoom_def length_moveToFront)

lemma absShard_touch:
  "k \<in> set (pcLru s) \<Longrightarrow> absShard (s\<lparr>pcLru := moveToFront k (pcLru s)\<rparr>) =
     (k, the (map_of (pcEntries s) k)) # AList.delete k (absShard s)"
  unfolding absShard_delete by (simp add: absShard_def moveToFront_def)

lemma shardGet_refines:
  assumes "shardOk s" and "shardGet k s = (p, s')"
  shows "lruGet k (absShard s) = (p, absShard s') \<and> shardOk s' \<and> pcCapacity s' = pcCapacity s"
proof (cases "map_of (pcEntries s) k")
  case None
  with assms show ?thesis by (auto simp: shardGet_def lruGet_def map_of_absShard)
next
  case (Some q)
  then have k: "k \<in> set (pcLru s)" using shardOk_key [OF assms(1)] by blast
  from Some assms(2) have "p = Some q" "s' = s\<lparr>pcLru := moveToFront k (pcLru s)\<rparr>" by (auto simp: shardGet_def)
  with k Some assms(1) show ?thesis
    by (simp add: lruGet_def map_of_absShard absShard_touch shardOk_touch)
qed

lemma shardEvict_refines:
  assumes "shardOk s"
  shows "absShard (shardEvict s) = take (shardRoom s - 1) (absShard s) \<and> gomap_ok (pcEntries (shardEvict s)) \<and>
    distinct (pcLru (shardEvict s)) \<and> set (pcLru (shardEvict s)) = fst ` set (pcEntries (shardEvict s)) \<and>
    length (pcLru (shardEvict s)) < shardRoom s \<and> pcCapacity (shardEvict s) = pcCapacity s"
proof (cases "int (length (pcLru s)) \<ge> pcCapacity s \<and> pcLru s \<noteq> []")
  case True
  let ?x = "last (pcLru s)"
  have len: "length (pcLru s) = shardRoom s" using True assms by (cases "pcLru s") (auto simp: shardOk_def shardRoom_def)
  have d: "distinct (pcLru s)" and x: "?x \<notin> set (butlast (pcLru s))"
    using assms True by (auto simp: shardOk_def) (metis append_butlast_last_id distinct_append disjoint_iff list.set_intros(1))
  have "set (butlast (pcLru s)) = set (pcLru s) - {?x}"
    using x True by (metis Diff_insert_absorb Un_insert_right append_butlast_last_id list.set(2) set_append set_empty2 sup_bot.right_neutral)
  moreover have "absShard (shardEvict s) = map (\<lambda>k. (k, the (map_of (pcEntries s) k))) (butlast (pcLru s))"
    using True x by (auto simp: shardEvict_def absShard_def gomap)
  then have "absShard (shardEvict s) = take (shardRoom s - 1) (absShard s)"
    by (simp add: absShard_def butlast_conv_take len take_map)
  ultimately show ?thesis using True assms d len
    by (auto simp: shardEvict_def shardOk_def distinct_butlast shardRoom_def)
next
  case False
  then have "length (pcLru s) < shardRoom s" using assms by (auto simp: shardRoom_def)
  with False assms show ?thesis by (auto simp: shardEvict_def shardOk_def)
qed

lemma shardSet_refines:
  assumes "shardOk s"
  shows "absShard (shardSet k p s) = lruSet (shardRoom s) k p (absShard s) \<and> shardOk (shardSet k p s) \<and>
    pcCapacity (shardSet k p s) = pcCapacity s"
proof (cases "map_of (pcEntries s) k")
  case None
  then have k: "k \<notin> set (pcLru s)" using shardOk_key [OF assms] by auto
  then have d: "AList.delete k (absShard s) = absShard s" unfolding absShard_delete by (simp add: absShard_def)
  let ?e = "shardEvict s"
  note e = shardEvict_refines [OF assms]
  have sub: "set (pcLru ?e) \<subseteq> set (pcLru s)" by (auto simp: shardEvict_def dest: in_set_butlastD)
  have pos: "0 < shardRoom s" by (simp add: shardRoom_def)
  have "absShard (shardSet k p s) = (k, p) # absShard ?e"
    using None k sub by (auto simp: shardSet_def Let_def absShard_def gomap)
  also have "\<dots> = lruSet (shardRoom s) k p (absShard s)"
    using pos e by (cases "shardRoom s") (simp_all add: lruSet_def d)
  finally show ?thesis using None k sub e
    by (auto simp: shardSet_def Let_def shardOk_def shardRoom_def dom_update [unfolded dom_map_of_eq])
next
  case (Some q)
  then have k: "k \<in> set (pcLru s)" using shardOk_key [OF assms] by blast
  let ?s = "s\<lparr>pcLru := moveToFront k (pcLru s)\<rparr>"
  have "shardSet k p s = ?s\<lparr>pcEntries := AList.update k p (pcEntries s)\<rparr>" using Some by (simp add: shardSet_def)
  moreover have "absShard (?s\<lparr>pcEntries := AList.update k p (pcEntries s)\<rparr>) = (k, p) # AList.delete k (absShard s)"
    using k unfolding absShard_delete by (simp add: absShard_def moveToFront_def gomap)
  moreover have "Suc (length (removeAll k (pcLru s))) = length (pcLru s)"
    using length_moveToFront [of "pcLru s" k] k assms by (simp add: moveToFront_def shardOk_def)
  then have "length ((k, p) # AList.delete k (absShard s)) \<le> shardRoom s"
    using assms unfolding absShard_delete by (simp add: shardOk_def)
  ultimately show ?thesis using shardOk_touch [OF assms, of k] k
    by (auto simp: lruSet_def shardOk_def shardRoom_def dom_update [unfolded dom_map_of_eq])
qed

lemma shardDelete_refines:
  assumes "shardOk s"
  shows "absShard (shardDelete k s) = lruDelete k (absShard s) \<and> shardOk (shardDelete k s) \<and>
    pcCapacity (shardDelete k s) = pcCapacity s"
proof (cases "map_of (pcEntries s) k")
  case None
  then have "k \<notin> set (pcLru s)" using shardOk_key [OF assms] by auto
  with None assms show ?thesis by (simp add: shardDelete_def lruDelete_def absShard_delete) (simp add: absShard_def)
next
  case (Some q)
  with assms have "length (removeElem k (pcLru s)) \<le> shardRoom s"
    by (auto simp: removeElem_def shardOk_def intro: order_trans [OF length_removeAll_less_eq])
  with Some assms show ?thesis
    by (auto simp: shardDelete_def lruDelete_def absShard_delete shardOk_def shardRoom_def)
      (auto simp: absShard_def removeElem_def gomap)
qed

section \<open>Sequences of operations\<close>

datatype pcOp = PGet hash | PSet hash mproof | PDelete hash

fun opKey :: "pcOp \<Rightarrow> hash" where
  "opKey (PGet k) = k"
| "opKey (PSet k p) = k"
| "opKey (PDelete k) = k"

fun pcStep :: "pcOp \<Rightarrow> proofCache \<Rightarrow> (mproof option \<times> proofCache) result" where
  "pcStep (PGet k) pc = pcGet k pc"
| "pcStep (PSet k p) pc = bind_result (pcSet k p pc) (\<lambda>pc'. Ok (None, pc'))"
| "pcStep (PDelete k) pc = bind_result (pcDelete k pc) (\<lambda>pc'. Ok (None, pc'))"

fun pcRun :: "pcOp list \<Rightarrow> proofCache \<Rightarrow> (mproof option list \<times> proofCache) result" where
  "pcRun [] pc = Ok ([], pc)"
| "pcRun (c # cs) pc =
     bind_result (pcStep c pc) (\<lambda>(r, pc'). bind_result (pcRun cs pc') (\<lambda>(rs, pc''). Ok (r # rs, pc'')))"

fun lruStep :: "nat \<Rightarrow> pcOp \<Rightarrow> lruSpec \<Rightarrow> mproof option \<times> lruSpec" where
  "lruStep n (PGet k) l = lruGet k l"
| "lruStep n (PSet k p) l = (None, lruSet n k p l)"
| "lruStep n (PDelete k) l = (None, lruDelete k l)"

fun lruRun :: "nat \<Rightarrow> pcOp list \<Rightarrow> lruSpec list \<Rightarrow> mproof option list \<times> lruSpec list" where
  "lruRun n [] ls = ([], ls)"
| "lruRun n (c # cs) ls =
     (let i = unat (HashFast (opKey c)) mod length ls; (r, l) = lruStep n c (ls ! i);
          (rs, ls') = lruRun n cs (ls[i := l]) in (r # rs, ls'))"

definition pcOk :: "int \<Rightarrow> proofCache \<Rightarrow> bool" where
  "pcOk c pc \<longleftrightarrow> pc \<noteq> [] \<and> (\<forall>s \<in> set pc. shardOk s \<and> pcCapacity s = c)"

lemma pcStep_refines:
  assumes "pcOk c pc"
  shows "\<exists>r pc'. pcStep a pc = Ok (r, pc') \<and> pcOk c pc' \<and> length pc' = length pc \<and>
    (let i = unat (HashFast (opKey a)) mod length pc; (q, l) = lruStep (max 1 (nat c)) a (map absShard pc ! i) in
     r = q \<and> map absShard pc' = (map absShard pc)[i := l])"
proof -
  let ?i = "unat (HashFast (opKey a)) mod length pc"
  have i: "?i < length pc" using assms by (simp add: pcOk_def)
  then have s: "shardOk (pc ! ?i)" "pcCapacity (pc ! ?i) = c" using assms by (auto simp: pcOk_def)
  have room: "shardRoom (pc ! ?i) = max 1 (nat c)" using s(2) by (simp add: shardRoom_def)
  have ne: "pc \<noteq> []" using assms by (simp add: pcOk_def)
  have upd: "pcOk c (pc[?i := t])" if "shardOk t" "pcCapacity t = c" for t
    using that assms set_update_subset_insert [of pc ?i t] by (auto simp: pcOk_def)
  show ?thesis
  proof (cases a)
    case (PGet k)
    obtain q t where g: "shardGet k (pc ! ?i) = (q, t)" by (metis surj_pair)
    from shardGet_refines [OF s(1) this] show ?thesis
      using PGet g i ne s upd by (simp add: pcGet_def cacheShardOf_def map_update)
  next
    case (PSet k p)
    then show ?thesis using shardSet_refines [OF s(1), of k p] i ne s room upd
      by (simp add: pcSet_def cacheShardOf_def map_update)
  next
    case (PDelete k)
    then show ?thesis using shardDelete_refines [OF s(1), of k] i ne s upd
      by (simp add: pcDelete_def cacheShardOf_def map_update)
  qed
qed

lemma pcRun_refines:
  assumes "pcOk c pc"
  shows "\<exists>rs pc'. pcRun cs pc = Ok (rs, pc') \<and> pcOk c pc' \<and>
    lruRun (max 1 (nat c)) cs (map absShard pc) = (rs, map absShard pc')"
  using assms
proof (induction cs arbitrary: pc)
  case (Cons a cs)
  from pcStep_refines [OF Cons.prems, of a] obtain r pc' where
    p: "pcStep a pc = Ok (r, pc')" "pcOk c pc'" "length pc' = length pc"
    and l: "let i = unat (HashFast (opKey a)) mod length pc; (q, l) = lruStep (max 1 (nat c)) a (map absShard pc ! i) in
     r = q \<and> map absShard pc' = (map absShard pc)[i := l]" by blast
  from Cons.IH [OF p(2)] obtain rs pc'' where
    "pcRun cs pc' = Ok (rs, pc'')" "pcOk c pc''" "lruRun (max 1 (nat c)) cs (map absShard pc') = (rs, map absShard pc'')"
    by blast
  with p l show ?case by (auto simp: Let_def split: prod.splits)
qed simp

text \<open>
  C10: the proof cache refines an LRU cache.  From a new cache with at least one shard, every
  sequence of \<open>Get\<close>, \<open>Set\<close> and \<open>Delete\<close> runs without a panic and gives the answers of the
  abstract cache, in which a shard is a list of entries ordered by last use and cut at the
  capacity; no shard ever holds more proofs than its capacity, or one if the capacity is
  not positive.
\<close>

theorem proof_cache_refines_lru:
  assumes "NewProofCache n c = Ok pc" and "0 < n"
  shows "\<exists>rs pc'. pcRun cs pc = Ok (rs, pc') \<and>
    lruRun (max 1 (nat c)) cs (replicate (nat n) []) = (rs, map absShard pc') \<and>
    (\<forall>s \<in> set pc'. length (pcEntries s) \<le> max 1 (nat c))"
proof -
  have pc: "pc = replicate (nat n) (newCacheShard c)" using assms by (auto simp: NewProofCache_def split: if_splits)
  have "pcOk c pc" using assms(2) unfolding pc by (auto simp: pcOk_def newCacheShard_def [of c])
      (simp add: newCacheShard_def [symmetric])
  moreover have "map absShard pc = replicate (nat n) []" unfolding pc by (simp add: absShard_def newCacheShard_def)
  ultimately obtain rs pc' where r: "pcRun cs pc = Ok (rs, pc')" "pcOk c pc'"
    "lruRun (max 1 (nat c)) cs (replicate (nat n) []) = (rs, map absShard pc')" using pcRun_refines by metis
  have "length (pcEntries s) = length (pcLru s)" if "shardOk s" for s
    using that distinct_card [of "map fst (pcEntries s)"] distinct_card [of "pcLru s"] by (simp add: shardOk_def gomap_ok_def)
  with r show ?thesis by (auto simp: pcOk_def shardOk_def shardRoom_def)
qed

theorem proof_cache_refines_lru_witness:
  "\<forall>p. \<exists>pc'. pcRun [PSet 1 p, PSet 2 p, PGet 1, PGet 2] (replicate 1 (newCacheShard 1)) = Ok ([None, None, None, Some p], pc')"
proof
  fix p
  have "NewProofCache 1 1 = Ok (replicate 1 (newCacheShard 1))" by (simp add: NewProofCache_def)
  from proof_cache_refines_lru [OF this, of "[PSet 1 p, PSet 2 p, PGet 1, PGet 2]"]
  show "\<exists>pc'. pcRun [PSet 1 p, PSet 2 p, PGet 1, PGet 2] (replicate 1 (newCacheShard 1)) = Ok ([None, None, None, Some p], pc')"
    by (simp add: lruSet_def lruGet_def) blast
qed

end
