(* ===== verification/Intern.thy ===== *)
theory Intern
  imports Core
begin

text \<open>
  \<open>internal/core/intern.go\<close>: the global table that shares expression nodes.  A node refers to
  its children by the ID in their header (\<open>None\<close> is a nil child or a child without a
  header, on which the code panics), because the code compares children by ID only.

  \<open>Intern\<close> looks for an equal node under the read lock, and again under the write lock
  before it inserts; the second look and the insertion are one atomic step, and the first
  look has no effect, so the model performs the second one.
\<close>

datatype inode =
    IConst Value
  | IField string "uint64 option"
  | IEmbed "16 word" vec
  | ICompose "hash list"
  | IApply "uint64 option" "uint64 option"
  | IResonate "vec list"

fun nodeType :: "inode \<Rightarrow> nat" where
  "nodeType (IConst v) = 0"
| "nodeType (IField f s) = 1"
| "nodeType (IEmbed m v) = 2"
| "nodeType (ICompose hs) = 3"
| "nodeType (IApply f a) = 4"
| "nodeType (IResonate qs) = 5"

fun hashInput :: "ext \<Rightarrow> inode \<Rightarrow> string result" where
  "hashInput E (IConst v) = (if v = VNil then Panic else Ok (be64 (FastHash E v)))"
| "hashInput E (IField f s) = (case s of None \<Rightarrow> Panic | Some i \<Rightarrow> Ok (f @ be64 i))"
| "hashInput E (IEmbed m v) = Ok (be16 m @ be32 (hd v))"
| "hashInput E (ICompose hs) = Ok (concat (map hashBytes hs))"
| "hashInput E (IApply f a) =
     (case (f, a) of (Some i, Some j) \<Rightarrow> Ok (be64 i @ be64 j) | _ \<Rightarrow> Panic)"
| "hashInput E (IResonate qs) = Ok (be32 (of_nat (length qs)))"

definition structuralHash :: "ext \<Rightarrow> inode \<Rightarrow> uint64 result" where
  "structuralHash E n = bind_result (hashInput E n) (\<lambda>s. Ok (xxh E (char_of (nodeType n) # s)))"

text \<open>The equality of Go on float32 arrays: a NaN differs from itself, the two zeros are equal.\<close>

definition f32NaN :: "32 word \<Rightarrow> bool" where
  "f32NaN w \<longleftrightarrow> 0x7F800000 < take_bit 31 w"

definition f32eq :: "32 word \<Rightarrow> 32 word \<Rightarrow> bool" where
  "f32eq a b \<longleftrightarrow> \<not> f32NaN a \<and> \<not> f32NaN b \<and> (a = b \<or> (take_bit 31 a = 0 \<and> take_bit 31 b = 0))"

definition vecEq :: "vec \<Rightarrow> vec \<Rightarrow> bool" where
  "vecEq a b = list_all2 f32eq a b"

fun exprEqual :: "ext \<Rightarrow> inode \<Rightarrow> inode \<Rightarrow> bool" where
  "exprEqual E (IConst v) (IConst w) \<longleftrightarrow> Serialize E v = Serialize E w"
| "exprEqual E (IField f s) (IField g t) \<longleftrightarrow> f = g \<and> s = t"
| "exprEqual E (IEmbed m v) (IEmbed n w) \<longleftrightarrow> m = n \<and> vecEq v w"
| "exprEqual E (ICompose hs) (ICompose gs) \<longleftrightarrow> hs = gs"
| "exprEqual E (IApply f a) (IApply g b) \<longleftrightarrow> f = g \<and> a = b"
| "exprEqual E (IResonate qs) (IResonate rs) \<longleftrightarrow> list_all2 vecEq qs rs"
| "exprEqual E _ _ \<longleftrightarrow> False"

record internTable =
  itShards :: "(uint64, (uint64 \<times> inode) list) gomap list"
  itNextID :: uint64

definition newInternTable :: internTable where
  "newInternTable = \<lparr>itShards = replicate 256 [], itNextID = 0\<rparr>"

definition shardIx :: "uint64 \<Rightarrow> nat" where
  "shardIx h = unat (take_bit 8 h)"

definition bucket :: "uint64 \<Rightarrow> internTable \<Rightarrow> (uint64 \<times> inode) list" where
  "bucket h t = (case map_of (itShards t ! shardIx h) h of None \<Rightarrow> [] | Some b \<Rightarrow> b)"

definition setBucket :: "uint64 \<Rightarrow> (uint64 \<times> inode) list \<Rightarrow> internTable \<Rightarrow> internTable" where
  "setBucket h b t = t\<lparr>itShards := (itShards t)[shardIx h := AList.update h b (itShards t ! shardIx h)]\<rparr>"

definition Intern :: "ext \<Rightarrow> inode \<Rightarrow> internTable \<Rightarrow> ((uint64 \<times> inode) \<times> internTable) result" where
  "Intern E n t =
     bind_result (structuralHash E n) (\<lambda>h.
       case find (\<lambda>c. exprEqual E n (snd c)) (bucket h t) of
         Some c \<Rightarrow> Ok (c, t)
       | None \<Rightarrow>
           (let i = itNextID t + 1 in
            Ok ((i, n), setBucket h (bucket h t @ [(i, n)]) (t\<lparr>itNextID := i\<rparr>))))"

text \<open>\<open>NewEConst\<close>: the value of the node that the table returns.\<close>

definition NewEConst :: "ext \<Rightarrow> Value \<Rightarrow> internTable \<Rightarrow> (Value \<times> internTable) result" where
  "NewEConst E v t =
     bind_result (Intern E (IConst v) t) (\<lambda>((i, n), t').
       case n of IConst w \<Rightarrow> Ok (w, t') | _ \<Rightarrow> Panic)"

section \<open>The table invariant\<close>

definition tabAll :: "internTable \<Rightarrow> (uint64 \<times> inode) set" where
  "tabAll t = (\<Union>h. set (bucket h t))"

definition internOk :: "ext \<Rightarrow> internTable \<Rightarrow> bool" where
  "internOk E t \<longleftrightarrow> length (itShards t) = 256 \<and>
     (\<forall>h c. c \<in> set (bucket h t) \<longrightarrow> structuralHash E (snd c) = Ok h \<and> fst c \<le> itNextID t) \<and>
     (\<forall>h c g d. c \<in> set (bucket h t) \<longrightarrow> d \<in> set (bucket g t) \<longrightarrow> fst c = fst d \<longrightarrow> c = d) \<and>
     (\<forall>h c d. c \<in> set (bucket h t) \<longrightarrow> d \<in> set (bucket h t) \<longrightarrow> exprEqual E (snd c) (snd d) \<longrightarrow> c = d)"

lemma shardIx_less [simp]: "shardIx h < 256"
  using take_bit_nat_less_exp [of 8 "unat h"] by (simp add: shardIx_def unsigned_take_bit_eq)

lemma bucket_setBucket:
  "length (itShards t) = 256 \<Longrightarrow> bucket g (setBucket h b t) = (if g = h then b else bucket g t)"
  by (auto simp: bucket_def setBucket_def nth_list_update gomap)

lemma bucket_next [simp]: "bucket h (t\<lparr>itNextID := i\<rparr>) = bucket h t"
  by (simp add: bucket_def)

lemma setBucket_fields [simp]:
  "length (itShards (setBucket h b t)) = length (itShards t)" "itNextID (setBucket h b t) = itNextID t"
  by (simp_all add: setBucket_def)

lemma internOk_new: "internOk E newInternTable"
  by (simp add: internOk_def bucket_def newInternTable_def)

lemma f32eq_sym: "f32eq a b \<Longrightarrow> f32eq b a" by (auto simp: f32eq_def)
lemma f32eq_trans: "f32eq a b \<Longrightarrow> f32eq b c \<Longrightarrow> f32eq a c" by (auto simp: f32eq_def)

lemma vecEq_sym: "vecEq a b \<Longrightarrow> vecEq b a"
  unfolding vecEq_def using list_all2_conv_all_nth by (metis f32eq_sym)

lemma vecEq_trans: "vecEq a b \<Longrightarrow> vecEq b c \<Longrightarrow> vecEq a c"
  unfolding vecEq_def by (rule list_all2_trans [of f32eq f32eq f32eq]) (auto intro: f32eq_trans)

lemma exprEqual_sym: "exprEqual E a b \<Longrightarrow> exprEqual E b a"
  by (cases a; cases b) (auto intro: vecEq_sym simp: list_all2_conv_all_nth)

lemma exprEqual_trans: "exprEqual E a b \<Longrightarrow> exprEqual E b c \<Longrightarrow> exprEqual E a c"
  by (cases a; cases b; cases c) (auto intro: vecEq_trans list_all2_trans [of vecEq vecEq vecEq])

lemma Intern_cases:
  assumes "Intern E n t = Ok (c, t')"
  obtains h where "structuralHash E n = Ok h"
    and "c \<in> set (bucket h t)" and "exprEqual E n (snd c)" and "t' = t"
  | h where "structuralHash E n = Ok h" and "\<And>d. d \<in> set (bucket h t) \<Longrightarrow> \<not> exprEqual E n (snd d)"
    and "c = (itNextID t + 1, n)" and "t' = setBucket h (bucket h t @ [c]) (t\<lparr>itNextID := itNextID t + 1\<rparr>)"
proof -
  from assms obtain h where h: "structuralHash E n = Ok h" by (auto simp: Intern_def)
  show thesis
  proof (cases "find (\<lambda>c. exprEqual E n (snd c)) (bucket h t)")
    case None
    then have "\<not> exprEqual E n (snd d)" if "d \<in> set (bucket h t)" for d
      using that by (cases d) (auto simp: find_None_iff)
    moreover have "c = (itNextID t + 1, n)" "t' = setBucket h (bucket h t @ [c]) (t\<lparr>itNextID := itNextID t + 1\<rparr>)"
      using h None assms unfolding Intern_def Let_def by auto
    ultimately show thesis by (rule that(2) [OF h])
  next
    case (Some d)
    then have "d \<in> set (bucket h t)" "exprEqual E n (snd d)" by (auto simp: find_Some_iff)
    moreover have "c = d" "t' = t" using h Some assms unfolding Intern_def by simp_all
    ultimately show thesis using that(1) [OF h] by simp
  qed
qed

lemma Intern_ok:
  assumes ok: "internOk E t" and i: "Intern E n t = Ok (c, t')" and room: "itNextID t \<noteq> -1"
  shows "internOk E t'" and "\<exists>h. structuralHash E n = Ok h \<and> c \<in> set (bucket h t')"
    and "set (bucket g t) \<subseteq> set (bucket g t')" and "exprEqual E n n \<Longrightarrow> exprEqual E n (snd c)"
proof -
  have len: "length (itShards t) = 256" using ok by (simp add: internOk_def)
  have "internOk E t' \<and> (\<exists>h. structuralHash E n = Ok h \<and> c \<in> set (bucket h t')) \<and>
      set (bucket g t) \<subseteq> set (bucket g t') \<and> (exprEqual E n n \<longrightarrow> exprEqual E n (snd c))"
  proof (rule Intern_cases [OF i])
    fix h assume h: "structuralHash E n = Ok h" and no: "\<And>d. d \<in> set (bucket h t) \<Longrightarrow> \<not> exprEqual E n (snd d)"
      and c: "c = (itNextID t + 1, n)" and t': "t' = setBucket h (bucket h t @ [c]) (t\<lparr>itNextID := itNextID t + 1\<rparr>)"
    have b: "bucket g t' = (if g = h then bucket h t @ [c] else bucket g t)" for g
      unfolding t' using len by (simp add: bucket_setBucket)
    have lt: "fst d < itNextID t + 1" if "d \<in> set (bucket g t)" for d g
    proof (rule word_less_succ [OF room])
      show "fst d \<le> itNextID t" using ok that unfolding internOk_def by blast
    qed
    have old: "structuralHash E (snd d) = Ok g" "fst d \<le> itNextID t + 1" if d: "d \<in> set (bucket g t)" for d g
    proof -
      show "structuralHash E (snd d) = Ok g" using ok d unfolding internOk_def by blast
      show "fst d \<le> itNextID t + 1" using lt [OF d] by (rule less_imp_le)
    qed
    have ids: "d = e" if "d \<in> set (bucket g t)" "e \<in> set (bucket k t)" "fst d = fst e" for d e g k
      using ok that unfolding internOk_def by blast
    have eqs: "d = e" if "d \<in> set (bucket g t)" "e \<in> set (bucket g t)" "exprEqual E (snd d) (snd e)" for d e g
      using ok that unfolding internOk_def by blast
    have mem: "d \<in> set (bucket g t) \<or> g = h \<and> d = c" if "d \<in> set (bucket g t')" for d g
      using that by (auto simp: b split: if_splits)
    have new: "fst d \<noteq> fst c" if "d \<in> set (bucket g t)" for d g
      using lt [OF that] unfolding c by auto
    have neq: "\<not> exprEqual E (snd d) (snd c)" "\<not> exprEqual E (snd c) (snd d)" if "d \<in> set (bucket h t)" for d
      using no [OF that] exprEqual_sym [of E "snd d" "snd c"] by (auto simp: c)
    have "internOk E t'"
      unfolding internOk_def
    proof (intro conjI allI impI)
      show "length (itShards t') = 256" using len by (simp add: t')
    next
      fix g d assume "d \<in> set (bucket g t')"
      from mem [OF this] have "structuralHash E (snd d) = Ok g \<and> fst d \<le> itNextID t + 1"
      proof
        assume "d \<in> set (bucket g t)"
        then show ?thesis using old by blast
      next
        assume "g = h \<and> d = c"
        then show ?thesis by (simp add: c h)
      qed
      moreover have "itNextID t' = itNextID t + 1" by (simp add: t')
      ultimately show "structuralHash E (snd d) = Ok g" "fst d \<le> itNextID t'" by simp_all
    next
      fix g d k e assume "d \<in> set (bucket g t')" "e \<in> set (bucket k t')" "fst d = fst e"
      then show "d = e" using mem [of d g] mem [of e k] ids [of d g e k] new [of d g] new [of e k] by metis
    next
      fix g d e assume "d \<in> set (bucket g t')" "e \<in> set (bucket g t')" "exprEqual E (snd d) (snd e)"
      then show "d = e" using mem [of d g] mem [of e g] eqs [of d g e] neq [of d] neq [of e] by metis
    qed
    then show ?thesis using h by (auto simp: b c)
  qed (use ok in auto)
  then show "internOk E t'" "\<exists>h. structuralHash E n = Ok h \<and> c \<in> set (bucket h t')"
    "set (bucket g t) \<subseteq> set (bucket g t')" "exprEqual E n n \<Longrightarrow> exprEqual E n (snd c)" by blast+
qed

text \<open>
  C20: equal nodes are shared and only these.  Two nodes that are interned one after the other
  get the same ID exactly when they have the same structural hash and the code's comparison
  finds them equal.  (A vector with a NaN is not equal to itself and is never shared.)
\<close>

theorem intern_hash_consing:
  assumes "internOk E t" and "itNextID t \<notin> {-1, -2}" and "Intern E a t = Ok (x, t1)" and "Intern E b t1 = Ok (y, t2)"
    and "exprEqual E a a" and "exprEqual E b b"
  shows "fst x = fst y \<longleftrightarrow> structuralHash E a = structuralHash E b \<and> exprEqual E a b"
proof -
  have r: "itNextID t \<noteq> -1" using assms(2) by simp
  have "itNextID t + 1 \<noteq> -1"
  proof
    assume "itNextID t + 1 = -1"
    then have "itNextID t = -1 - 1" by (simp only: eq_diff_eq)
    with assms(2) show False by simp
  qed
  have "itNextID t1 = itNextID t \<or> itNextID t1 = itNextID t + 1" by (rule Intern_cases [OF assms(3)]) simp_all
  then have r1: "itNextID t1 \<noteq> -1" using r \<open>itNextID t + 1 \<noteq> -1\<close> by auto
  note x = Intern_ok [OF assms(1,3) r] and y = Intern_ok [OF Intern_ok(1) [OF assms(1,3) r] assms(4) r1]
  from x(2) obtain h where h: "structuralHash E a = Ok h" "x \<in> set (bucket h t2)" using y(3) by blast
  from y(2) obtain g where g: "structuralHash E b = Ok g" "y \<in> set (bucket g t2)" by blast
  have eq: "exprEqual E a (snd x)" "exprEqual E b (snd y)" using x(4) y(4) assms(5,6) by auto
  have ok2: "internOk E t2" by (rule y(1))
  show ?thesis
  proof
    assume "fst x = fst y"
    then have xy: "x = y" using ok2 h(2) g(2) unfolding internOk_def by blast
    then have "h = g" using ok2 h(2) g(2) unfolding internOk_def by (metis result.inject(1))
    then show "structuralHash E a = structuralHash E b \<and> exprEqual E a b"
      using h g eq xy exprEqual_sym exprEqual_trans by metis
  next
    assume s: "structuralHash E a = structuralHash E b \<and> exprEqual E a b"
    then have "exprEqual E (snd x) (snd y)" using eq exprEqual_sym exprEqual_trans by metis
    moreover have "g = h" using s h g by simp
    ultimately show "fst x = fst y" using ok2 h(2) g(2) unfolding internOk_def by blast
  qed
qed

theorem intern_hash_consing_witness:
  "\<exists>x t1 y t2. Intern ext0 (ICompose [1]) newInternTable = Ok (x, t1) \<and> Intern ext0 (ICompose [2]) t1 = Ok (y, t2) \<and> fst x \<noteq> fst y"
proof -
  have ex: "\<exists>x t'. Intern ext0 (ICompose hs) t = Ok (x, t')" for hs t
    by (cases "find (\<lambda>c. exprEqual ext0 (ICompose hs) (snd c)) (bucket (xxh ext0 (char_of (3::nat) # concat (map hashBytes hs))) t)")
      (simp_all add: Intern_def structuralHash_def Let_def)
  obtain x t1 where i1: "Intern ext0 (ICompose [1]) newInternTable = Ok (x, t1)" using ex by blast
  obtain y t2 where i2: "Intern ext0 (ICompose [2]) t1 = Ok (y, t2)" using ex by blast
  have "fst x \<noteq> fst y"
    using intern_hash_consing [OF internOk_new _ i1 i2] by (simp add: newInternTable_def)
  with i1 i2 show ?thesis by blast
qed

section \<open>Growth of the table\<close>

definition internSize :: "internTable \<Rightarrow> nat" where
  "internSize t = (\<Sum>m \<leftarrow> itShards t. \<Sum>(h, b) \<leftarrow> m. length b)"

fun internStrings :: "ext \<Rightarrow> string list \<Rightarrow> internTable \<Rightarrow> internTable result" where
  "internStrings E [] t = Ok t"
| "internStrings E (s # ss) t = bind_result (NewEConst E (VString s) t) (\<lambda>(v, t'). internStrings E ss t')"

lemma sum_lengths_update:
  "gomap_ok m \<Longrightarrow> (\<Sum>(h, b) \<leftarrow> AList.update k v m. length b) + (case map_of m k of None \<Rightarrow> 0 | Some b \<Rightarrow> length b) =
     (\<Sum>(h, b) \<leftarrow> m. length b) + length v"
  by (induction m) (auto simp: gomap_ok_def split: option.splits)

definition shardsOk :: "internTable \<Rightarrow> bool" where
  "shardsOk t \<longleftrightarrow> length (itShards t) = 256 \<and> list_all gomap_ok (itShards t)"

lemma sum_list_update:
  "i < length xs \<Longrightarrow> sum_list (map f (xs[i := y])) + f (xs ! i) = sum_list (map f xs) + (f y :: nat)"
  by (induction xs arbitrary: i) (auto split: nat.splits)

lemma internSize_setBucket:
  assumes "shardsOk t"
  shows "internSize (setBucket h b t) + length (bucket h t) = internSize t + length b"
proof -
  let ?m = "itShards t ! shardIx h" and ?f = "\<lambda>m. \<Sum>(h, b) \<leftarrow> m. length b"
  have i: "shardIx h < length (itShards t)" and ok: "gomap_ok ?m"
    using assms by (simp_all add: shardsOk_def list_all_length)
  have "?f (AList.update h b ?m) + length (bucket h t) = ?f ?m + length b"
    using sum_lengths_update [OF ok, of h b] by (auto simp: bucket_def split: option.splits)
  with sum_list_update [OF i, of ?f "AList.update h b ?m"] show ?thesis
    by (simp add: internSize_def setBucket_def)
qed

lemma shardsOk_setBucket: "shardsOk t \<Longrightarrow> shardsOk (setBucket h b (t\<lparr>itNextID := i\<rparr>))"
  by (simp add: shardsOk_def setBucket_def list_all_length nth_list_update)

definition stringsIn :: "string set \<Rightarrow> internTable \<Rightarrow> bool" where
  "stringsIn S t \<longleftrightarrow> (\<forall>h c. c \<in> set (bucket h t) \<longrightarrow> (\<exists>r \<in> S. snd c = IConst (VString r)))"

lemma NewEConst_fresh:
  assumes "shardsOk t" and "stringsIn S t" and "s \<notin> S"
  shows "\<exists>t'. NewEConst E (VString s) t = Ok (VString s, t') \<and> shardsOk t' \<and> internSize t' = Suc (internSize t) \<and>
    stringsIn (insert s S) t'"
proof -
  have old: "\<exists>r \<in> S. snd c = IConst (VString r)" if "c \<in> set (bucket h t)" for h c
    using assms(2) that unfolding stringsIn_def by blast
  let ?n = "IConst (VString s)" and ?i = "itNextID t + 1"
  obtain h where h: "structuralHash E ?n = Ok h" by (auto simp: structuralHash_def)
  let ?t = "setBucket h (bucket h t @ [(?i, ?n)]) (t\<lparr>itNextID := ?i\<rparr>)"
  have "\<not> exprEqual E ?n (snd c)" if "c \<in> set (bucket h t)" for c
    using old [OF that] assms(3) by auto
  then have "find (\<lambda>c. exprEqual E ?n (snd c)) (bucket h t) = None" by (auto simp: find_None_iff)
  then have n: "NewEConst E (VString s) t = Ok (VString s, ?t)"
    using h by (simp add: NewEConst_def Intern_def Let_def)
  have "internSize (t\<lparr>itNextID := ?i\<rparr>) = internSize t" by (simp add: internSize_def)
  then have size: "internSize ?t = Suc (internSize t)"
    using internSize_setBucket [of "t\<lparr>itNextID := ?i\<rparr>" h "bucket h t @ [(?i, ?n)]"] assms(1) by (simp add: shardsOk_def)
  have "length (itShards (t\<lparr>itNextID := ?i\<rparr>)) = 256" using assms(1) by (simp add: shardsOk_def)
  note b = bucket_setBucket [OF this, of _ h "bucket h t @ [(?i, ?n)]"]
  have "\<exists>r \<in> insert s S. snd c = IConst (VString r)" if "c \<in> set (bucket g ?t)" for g c
    using that old [of c g] old [of c h] by (auto simp: b split: if_splits)
  then have "stringsIn (insert s S) ?t" unfolding stringsIn_def by blast
  with n size shardsOk_setBucket [OF assms(1)] show ?thesis by blast
qed

lemma internStrings_fresh:
  "shardsOk t \<Longrightarrow> stringsIn S t \<Longrightarrow> distinct ss \<Longrightarrow> S \<inter> set ss = {} \<Longrightarrow>
     \<exists>t'. internStrings E ss t = Ok t' \<and> internSize t' = internSize t + length ss"
proof (induction ss arbitrary: t S)
  case (Cons s ss)
  from NewEConst_fresh [OF Cons.prems(1,2), of s E] Cons.prems(4) obtain t' where
    t': "NewEConst E (VString s) t = Ok (VString s, t')" "shardsOk t'" "internSize t' = Suc (internSize t)"
    "stringsIn (insert s S) t'" by auto
  from Cons.IH [OF t'(2,4)] Cons.prems t'(1,3) show ?case by auto
qed simp

text \<open>
  Interning keeps every value ever written.  Creating constants for \<open>n\<close> different strings
  leaves \<open>n\<close> nodes in the global table; no operation removes one.  The memory behind a
  frontier cache therefore grows with the history of writes, not with the number of keys.
\<close>

theorem intern_never_forgets:
  assumes "distinct ss"
  shows "\<exists>t. internStrings E ss newInternTable = Ok t \<and> internSize t = length ss"
proof -
  have "shardsOk newInternTable" by (simp add: shardsOk_def newInternTable_def list_all_length)
  moreover have "internSize newInternTable = 0" by (simp add: internSize_def newInternTable_def sum_list_replicate)
  moreover have "bucket h newInternTable = []" for h by (simp add: bucket_def newInternTable_def)
  ultimately show ?thesis using internStrings_fresh [of newInternTable "{}" ss E] assms by (simp add: stringsIn_def)
qed

theorem intern_never_forgets_witness:
  "\<exists>t. internStrings ext0 [''1'', ''2'', ''3''] newInternTable = Ok t \<and> internSize t = 3"
  using intern_never_forgets [of "[''1'', ''2'', ''3'']" ext0] by (simp add: numeral_3_eq_3)

end
