(* ===== verification/Auth.thy ===== *)
theory Auth
  imports GoLib
begin

text \<open>
  Package \<open>internal/auth\<close>: users, the checks of the gate (\<open>acl.go\<close>) and the parser of ACL
  files (\<open>aclfile.go\<close>).  The constant-time comparison of two 32-byte digests is equality.
\<close>

record user =
  uName :: string
  uPassSHA256 :: hash
  uCommands :: "(string, bool) gomap"
  uKeyPatterns :: "string list"
  uAdmin :: bool
  uOn :: bool

record acl =
  aclUsers :: "(string, user) gomap"
  aclEnabled :: bool

definition NewDisabled :: acl where
  "NewDisabled = \<lparr>aclUsers = [], aclEnabled = False\<rparr>"

definition hashPass :: "ext \<Rightarrow> string \<Rightarrow> hash" where
  "hashPass E pw = sha256 E pw"

definition AddUser ::
  "ext \<Rightarrow> string \<Rightarrow> string \<Rightarrow> string list \<Rightarrow> string list \<Rightarrow> bool \<Rightarrow> acl \<Rightarrow> acl" where
  "AddUser E name password commands keyPatterns admin a =
     (let cmds = foldl (\<lambda>m c. AList.update (ToUpper E c) True m) [] commands;
          u = \<lparr>uName = name, uPassSHA256 = hashPass E password, uCommands = cmds,
               uKeyPatterns = keyPatterns, uAdmin = admin, uOn = True\<rparr>
      in a\<lparr>aclUsers := AList.update name u (aclUsers a), aclEnabled := True\<rparr>)"

definition NewSinglePassword :: "ext \<Rightarrow> string \<Rightarrow> acl" where
  "NewSinglePassword E password =
     (if password = [] then NewDisabled
      else AddUser E ''default'' password [] [] True \<lparr>aclUsers = [], aclEnabled = True\<rparr>)"

definition Enabled :: "acl \<Rightarrow> bool" where
  "Enabled a = aclEnabled a"

definition Authenticate :: "ext \<Rightarrow> string \<Rightarrow> string \<Rightarrow> acl \<Rightarrow> bool" where
  "Authenticate E name password a =
     (case map_of (aclUsers a) name of
        None \<Rightarrow> False
      | Some u \<Rightarrow> uOn u \<and> uPassSHA256 u = hashPass E password)"

definition matchPattern :: "string \<Rightarrow> string \<Rightarrow> bool" where
  "matchPattern pat key =
     (if pat = ''*'' \<or> pat = [] then True
      else if HasSuffix pat ''*'' then HasPrefix key (TrimSuffix pat ''*'')
      else pat = key)"

text \<open>A missing key of a \<open>map[string]bool\<close> reads as false.\<close>

definition allowedIn :: "(string, bool) gomap \<Rightarrow> string \<Rightarrow> bool" where
  "allowedIn m c = (case map_of m c of None \<Rightarrow> False | Some b \<Rightarrow> b)"

definition Authorize :: "ext \<Rightarrow> string \<Rightarrow> string \<Rightarrow> string \<Rightarrow> acl \<Rightarrow> unit result" where
  "Authorize E name cmd key a =
     (if \<not> aclEnabled a then Ok ()
      else case map_of (aclUsers a) name of
        None \<Rightarrow> Err ''NOAUTH unknown user''
      | Some u \<Rightarrow>
          (let uc = ToUpper E cmd in
           if \<not> uOn u then Err ''NOAUTH unknown user''
           else if uAdmin u then Ok ()
           else if uCommands u \<noteq> [] \<and> \<not> allowedIn (uCommands u) uc \<and> \<not> allowedIn (uCommands u) ''ALL''
             then Err (''NOPERM command '' @ uc @ '' denied for user '' @ name)
           else if key \<noteq> [] \<and> uKeyPatterns u \<noteq> [] then
             (if list_ex (\<lambda>p. matchPattern p key) (uKeyPatterns u) then Ok ()
              else Err (''NOPERM key '' @ goQuote E key @ '' denied for user '' @ name))
           else Ok ()))"

section \<open>ACL files\<close>

text \<open>One token of a user line; the flag is the local variable \<open>on\<close>.\<close>

definition aclToken :: "ext \<Rightarrow> string \<Rightarrow> user \<times> bool \<Rightarrow> (user \<times> bool) result" where
  "aclToken E t = (\<lambda>(u, on).
     if t = ''on'' then Ok (u, True)
     else if t = ''off'' then Ok (u, False)
     else if t = ''reset'' then
       Ok (u\<lparr>uCommands := [], uKeyPatterns := [], uPassSHA256 := 0, uAdmin := False\<rparr>, False)
     else if t = ''nopass'' then Ok (u\<lparr>uPassSHA256 := 0\<rparr>, on)
     else if HasPrefix t ''>'' then
       (let pw = TrimPrefix t ''>'' in
        if pw = [] then Err ''empty password token `>`'' else Ok (u\<lparr>uPassSHA256 := hashPass E pw\<rparr>, on))
     else if t = ''+@all'' then Ok (u\<lparr>uAdmin := True\<rparr>, on)
     else if t = ''-@all'' then Ok (u\<lparr>uAdmin := False, uCommands := []\<rparr>, on)
     else if HasPrefix t ''+'' then
       (let cmd = ToUpper E (TrimPrefix t ''+'') in
        if cmd = [] \<or> HasPrefix cmd ''@'' then
          Err (''unsupported selector '' @ goQuote E t @ '' (only +CMD and +@all)'')
        else Ok (u\<lparr>uCommands := AList.update cmd True (uCommands u)\<rparr>, on))
     else if HasPrefix t ''-'' then
       (let cmd = ToUpper E (TrimPrefix t ''-'') in
        if cmd = [] \<or> HasPrefix cmd ''@'' then
          Err (''unsupported selector '' @ goQuote E t @ '' (only -CMD and -@all)'')
        else Ok (u\<lparr>uCommands := AList.delete cmd (uCommands u)\<rparr>, on))
     else if HasPrefix t ''~'' then
       Ok (u\<lparr>uKeyPatterns := uKeyPatterns u @ [TrimPrefix t ''~'']\<rparr>, on)
     else Err (''unknown token '' @ goQuote E t))"

fun aclTokens :: "ext \<Rightarrow> string list \<Rightarrow> user \<times> bool \<Rightarrow> (user \<times> bool) result" where
  "aclTokens E [] ub = Ok ub"
| "aclTokens E (t # ts) ub = bind_result (aclToken E t ub) (aclTokens E ts)"

definition blankUser :: "string \<Rightarrow> user" where
  "blankUser name =
     \<lparr>uName = name, uPassSHA256 = 0, uCommands = [], uKeyPatterns = [], uAdmin = False, uOn = False\<rparr>"

definition parseACLLine :: "ext \<Rightarrow> string \<Rightarrow> (string \<times> user) result" where
  "parseACLLine E line =
     (case Fields E line of
        w # name # toks \<Rightarrow>
          if w \<noteq> ''user'' then Err ''must start with `user <name>`''
          else if name = [] then Err ''empty user name''
          else bind_result
            (aclTokens E toks (blankUser name, False))
            (\<lambda>(u, on). Ok (name, u\<lparr>uOn := on\<rparr>))
      | _ \<Rightarrow> Err ''must start with `user <name>`'')"

text \<open>
  \<open>bufio.Scanner\<close> over the lines of a file, with a buffer of 64 KiB: a line that does not
  leave room for its end in the buffer is an error.
\<close>

definition maxLine :: nat where "maxLine = 64 * 1024"

definition isRule :: "ext \<Rightarrow> string \<Rightarrow> bool" where
  "isRule E raw = (let line = TrimSpace E (dropCR raw) in line \<noteq> [] \<and> \<not> HasPrefix line ''#'')"

fun loadLines :: "ext \<Rightarrow> string \<Rightarrow> nat \<Rightarrow> string list \<Rightarrow> acl \<times> nat \<Rightarrow> (acl \<times> nat) result" where
  "loadLines E path n [] au = Ok au"
| "loadLines E path n (raw # ls) (a, users) =
     (if maxLine \<le> length raw then Err ''acl file: bufio.Scanner: token too long''
      else if \<not> isRule E raw then loadLines E path (n + 1) ls (a, users)
      else case parseACLLine E (TrimSpace E (dropCR raw)) of
        Ok (name, u) \<Rightarrow>
          loadLines E path (n + 1) ls
            (a\<lparr>aclUsers := AList.update name u (aclUsers a), aclEnabled := True\<rparr>, users + 1)
      | Err e \<Rightarrow> Err (''acl file '' @ path @ '':'' @ showNat (n + 1) @ '': '' @ e)
      | Panic \<Rightarrow> Panic
      | Hang \<Rightarrow> Hang)"

text \<open>The content of the file, or the error of opening it, is the argument \<open>file\<close>.\<close>

definition LoadACLFile :: "ext \<Rightarrow> string \<Rightarrow> string result \<Rightarrow> acl result" where
  "LoadACLFile E path file =
     (case file of
        Err e \<Rightarrow> Err (''acl file: '' @ e)
      | Panic \<Rightarrow> Panic
      | Hang \<Rightarrow> Hang
      | Ok content \<Rightarrow>
          bind_result (loadLines E path 0 (scanLines content) (NewDisabled, 0))
            (\<lambda>(a, users). if users = 0 then Err (''acl file '' @ path @ '': no users defined'') else Ok a))"

section \<open>What a file loads\<close>

definition ruleLines :: "ext \<Rightarrow> string \<Rightarrow> string list" where
  "ruleLines E content = map (\<lambda>raw. TrimSpace E (dropCR raw)) (filter (isRule E) (scanLines content))"

text \<open>The users that the rules define, and the gate with these users; the last rule for a name wins.\<close>

definition ruleUser :: "ext \<Rightarrow> string \<Rightarrow> string \<times> user" where
  "ruleUser E line = (case parseACLLine E line of Ok r \<Rightarrow> r | _ \<Rightarrow> ([], blankUser []))"

definition addRules :: "(string \<times> user) list \<Rightarrow> acl \<Rightarrow> acl" where
  "addRules rules a = foldl (\<lambda>a (n, u). a\<lparr>aclUsers := AList.update n u (aclUsers a), aclEnabled := True\<rparr>) a rules"

lemma addRules_Cons: "addRules ((n, u) # rules) a = addRules rules (a\<lparr>aclUsers := AList.update n u (aclUsers a), aclEnabled := True\<rparr>)"
  by (simp add: addRules_def)

lemma addRules_users:
  "map_of (aclUsers (addRules rules a)) n = (case map_of (rev rules) n of None \<Rightarrow> map_of (aclUsers a) n | Some u \<Rightarrow> Some u)"
  "aclEnabled (addRules rules a) \<longleftrightarrow> aclEnabled a \<or> rules \<noteq> []"
  unfolding addRules_def by (induction rules arbitrary: a) (auto simp: gomap map_add_def split: option.splits)

lemma loadLines_Ok:
  "loadLines E path k ls (a, n) = Ok (a', n') \<longleftrightarrow>
     list_all (\<lambda>raw. length raw < maxLine) ls \<and>
     list_all (\<lambda>raw. isRule E raw \<longrightarrow> (\<exists>r. parseACLLine E (TrimSpace E (dropCR raw)) = Ok r)) ls \<and>
     n' = n + length (filter (isRule E) ls) \<and>
     a' = addRules (map (\<lambda>raw. ruleUser E (TrimSpace E (dropCR raw))) (filter (isRule E) ls)) a"
proof (induction ls arbitrary: k a n)
  case Nil
  then show ?case by (auto simp: addRules_def)
next
  case (Cons raw ls)
  let ?p = "parseACLLine E (TrimSpace E (dropCR raw))"
  consider "maxLine \<le> length raw" | "length raw < maxLine" "\<not> isRule E raw" |
    (rule) nm u where "length raw < maxLine" "isRule E raw" "?p = Ok (nm, u)" |
    (bad) "length raw < maxLine" "isRule E raw" "\<forall>r. ?p \<noteq> Ok r"
    by (metis not_le surj_pair)
  then show ?case
  proof cases
    case rule
    then show ?thesis by (simp add: Cons.IH addRules_Cons ruleUser_def)
  next
    case bad
    then show ?thesis by (cases ?p) auto
  qed (simp_all add: Cons.IH)
qed

lemma acl_load_iff:
  "LoadACLFile E path (Ok content) = Ok a \<longleftrightarrow>
     list_all (\<lambda>raw. length raw < maxLine) (scanLines content) \<and>
     list_all (\<lambda>line. \<exists>r. parseACLLine E line = Ok r) (ruleLines E content) \<and>
     ruleLines E content \<noteq> [] \<and>
     a = addRules (map (ruleUser E) (ruleLines E content)) NewDisabled"
    (is "_ \<longleftrightarrow> ?rhs")
proof -
  have eq: "list_all (\<lambda>raw. isRule E raw \<longrightarrow> (\<exists>r. parseACLLine E (TrimSpace E (dropCR raw)) = Ok r)) (scanLines content) \<longleftrightarrow>
    list_all (\<lambda>line. \<exists>r. parseACLLine E line = Ok r) (ruleLines E content)"
    by (auto simp: ruleLines_def list_all_iff)
  have load: "loadLines E path 0 (scanLines content) (NewDisabled, 0) = Ok (b, n) \<longleftrightarrow>
      list_all (\<lambda>raw. length raw < maxLine) (scanLines content) \<and>
      list_all (\<lambda>line. \<exists>r. parseACLLine E line = Ok r) (ruleLines E content) \<and>
      n = length (ruleLines E content) \<and> b = addRules (map (ruleUser E) (ruleLines E content)) NewDisabled" for b n
    unfolding loadLines_Ok eq by (simp add: ruleLines_def comp_def)
  have "LoadACLFile E path (Ok content) = Ok a \<longleftrightarrow>
      (\<exists>n. loadLines E path 0 (scanLines content) (NewDisabled, 0) = Ok (a, n) \<and> n \<noteq> 0)"
    by (cases "loadLines E path 0 (scanLines content) (NewDisabled, 0)") (auto simp: LoadACLFile_def split: if_splits)
  also have "\<dots> \<longleftrightarrow> ?rhs" unfolding load by auto
  finally show ?thesis .
qed

text \<open>
  C22: an ACL file is loaded completely or not at all.  \<open>LoadACLFile\<close> returns a gate exactly
  when every line fits the buffer, every line that is neither blank nor a comment parses,
  and there is one.  The gate is then enabled, and a name has the user of the last line
  that defines it; every other name is unknown.
\<close>

theorem acl_load_exact:
  "LoadACLFile E path (Ok content) = Ok a \<longleftrightarrow>
     list_all (\<lambda>raw. length raw < maxLine) (scanLines content) \<and>
     list_all (\<lambda>line. \<exists>r. parseACLLine E line = Ok r) (ruleLines E content) \<and>
     ruleLines E content \<noteq> [] \<and>
     a = addRules (map (ruleUser E) (ruleLines E content)) NewDisabled"
  by (rule acl_load_iff)

section \<open>The policy of a line\<close>

text \<open>A word of a line, and the line of a user with a password, commands and key patterns.\<close>

definition plainWord :: "string \<Rightarrow> bool" where
  "plainWord w \<longleftrightarrow> w \<noteq> [] \<and> isASCII w \<and> list_all (\<lambda>c. \<not> isSpace c) w"

definition policyWords :: "string \<Rightarrow> string \<Rightarrow> string list \<Rightarrow> string list \<Rightarrow> string list" where
  "policyWords name pw cs ps =
     [''user'', name, ''on'', ''>'' @ pw] @ map (\<lambda>c. ''+'' @ c) cs @ map (\<lambda>p. ''~'' @ p) ps"

lemma fieldsBy_acc: "list_all (\<lambda>c. \<not> p c) w \<Longrightarrow> fieldsBy p acc (w @ s) = fieldsBy p (rev w @ acc) s"
  by (induction w arbitrary: acc) auto

lemma fieldsBy_join:
  "list_all (\<lambda>w. w \<noteq> [] \<and> list_all (\<lambda>c. \<not> isSpace c) w) ws \<Longrightarrow> fieldsBy isSpace [] (joinWith '' '' ws) = ws"
proof (induction ws)
  case (Cons w ws)
  have sp: "isSpace (CHR '' '')" by (simp add: isSpace_def)
  from Cons show ?case
    by (cases ws) (auto simp: fieldsBy_acc fieldsBy_acc [of isSpace w "[]" "[]", simplified] sp)
qed simp

lemma Fields_join: "list_all plainWord ws \<Longrightarrow> Fields E (joinWith '' '' ws) = ws"
proof -
  assume ws: "list_all plainWord ws"
  have "isASCII '' ''" by code_simp
  with ws have "isASCII (joinWith '' '' ws)" by (intro isASCII_join) (simp_all add: plainWord_def list_all_iff)
  then show ?thesis using ws fieldsBy_join [of ws] by (simp add: Fields_def plainWord_def list_all_iff)
qed

lemma aclTokens_append: "aclTokens E (xs @ ys) ub = bind_result (aclTokens E xs ub) (aclTokens E ys)"
proof (induction xs arbitrary: ub)
  case (Cons x xs)
  then show ?case by (cases "aclToken E x ub") auto
qed simp

lemma upperChar_at: "upperChar x = CHR ''@'' \<Longrightarrow> x = CHR ''@''"
proof -
  assume e: "upperChar x = CHR ''@''"
  then have "code_of (upperChar x) = 64" by simp
  then have "\<not> (97 \<le> code_of x \<and> code_of x \<le> 122)" by (auto simp: upperChar_def)
  with e show "x = CHR ''@''" by (simp add: upperChar_def)
qed

lemma aclTokens_commands:
  "list_all (\<lambda>c. plainWord c \<and> hd c \<noteq> CHR ''@'') cs \<Longrightarrow>
     aclTokens E (map (\<lambda>c. ''+'' @ c) cs) (u, b) =
       Ok (u\<lparr>uCommands := foldl (\<lambda>m c. AList.update (map upperChar c) True m) (uCommands u) cs\<rparr>, b)"
proof (induction cs arbitrary: u)
  case (Cons c cs)
  then obtain x r where c: "c = x # r" "x \<noteq> CHR ''@''" by (cases c) (auto simp: plainWord_def)
  have "upperChar x \<noteq> CHR ''@''" using upperChar_at [of x] c(2) by blast
  with Cons c show ?case
    by (simp add: aclToken_def HasPrefix_def TrimPrefix_def ToUpper_def plainWord_def Let_def)
qed simp

lemma aclTokens_patterns:
  "aclTokens E (map (\<lambda>p. ''~'' @ p) ps) (u, b) = Ok (u\<lparr>uKeyPatterns := uKeyPatterns u @ ps\<rparr>, b)"
  by (induction ps arbitrary: u) (auto simp: aclToken_def HasPrefix_def TrimPrefix_def)

lemma policy_plain:
  assumes "plainWord name" and "plainWord pw" and "list_all (\<lambda>c. plainWord c \<and> hd c \<noteq> CHR ''@'') cs" and "list_all plainWord ps"
  shows "list_all plainWord (policyWords name pw cs ps)"
proof -
  have lit: "plainWord ''user''" "plainWord ''on''" by code_simp+
  have pre: "plainWord (x # w)" if "plainWord w" "x \<in> {CHR ''>'', CHR ''+'', CHR ''~''}" for x w
    using that by (auto simp: plainWord_def isASCII_def isSpace_def)
  show ?thesis using assms lit pre by (auto simp: policyWords_def list_all_iff)
qed

lemma parse_policy:
  assumes "plainWord name" and "plainWord pw" and "list_all (\<lambda>c. plainWord c \<and> hd c \<noteq> CHR ''@'') cs" and "list_all plainWord ps"
  shows "parseACLLine E (joinWith '' '' (policyWords name pw cs ps)) =
    Ok (name, \<lparr>uName = name, uPassSHA256 = hashPass E pw,
      uCommands = foldl (\<lambda>m c. AList.update (map upperChar c) True m) [] cs, uKeyPatterns = ps, uAdmin = False, uOn = True\<rparr>)"
proof -
  have "list_all plainWord (policyWords name pw cs ps)" by (rule policy_plain [OF assms])
  then have f: "Fields E (joinWith '' '' (policyWords name pw cs ps)) = policyWords name pw cs ps" by (rule Fields_join)
  have ne: "name \<noteq> []" "pw \<noteq> []" using assms by (simp_all add: plainWord_def)
  have pwtok: "aclToken E (''>'' @ pw) (u, b) = Ok (u\<lparr>uPassSHA256 := hashPass E pw\<rparr>, b)" for u b
    using ne by (simp add: aclToken_def HasPrefix_def TrimPrefix_def)
  have on: "aclToken E ''on'' (u, b) = Ok (u, True)" for u b by (simp add: aclToken_def)
  show ?thesis
    unfolding parseACLLine_def f using ne
    by (simp add: policyWords_def on pwtok [simplified] aclTokens_append aclTokens_commands [OF assms(3), simplified]
        aclTokens_patterns [simplified] blankUser_def)
qed

lemma allowedIn_fold:
  "allowedIn (foldl (\<lambda>m c. AList.update (f c) True m) m cs) x \<longleftrightarrow> x \<in> f ` set cs \<or> allowedIn m x"
  by (induction cs arbitrary: m) (auto simp: allowedIn_def gomap)

lemma fold_update_nonempty: "cs \<noteq> [] \<Longrightarrow> foldl (\<lambda>m c. AList.update (f c) True m) m cs \<noteq> []"
proof (induction cs rule: rev_induct)
  case (snoc c cs)
  then show ?case by (cases "foldl (\<lambda>m c. AList.update (f c) True m) m cs") auto
qed simp

lemma TrimSpace_id: "isASCII s \<Longrightarrow> s \<noteq> [] \<Longrightarrow> \<not> isSpace (hd s) \<Longrightarrow> \<not> isSpace (last s) \<Longrightarrow> TrimSpace E s = s"
proof -
  assume a: "isASCII s" "s \<noteq> []" "\<not> isSpace (hd s)" "\<not> isSpace (last s)"
  have "dropWhile isSpace s = s" using a by (cases s) auto
  moreover have "dropWhile isSpace (rev s) = rev s" using a by (cases s rule: rev_cases) auto
  ultimately show ?thesis using a(1) by (simp add: TrimSpace_def trimLeftBy_def trimRightBy_def)
qed

lemma last_join: "ws \<noteq> [] \<Longrightarrow> last ws \<noteq> [] \<Longrightarrow> last (joinWith sep ws) = last (last ws) \<and> joinWith sep ws \<noteq> []"
proof (induction ws)
  case (Cons w ws)
  then show ?case by (cases ws) auto
qed simp

lemma set_join: "set (joinWith sep ws) \<subseteq> set sep \<union> (\<Union>w \<in> set ws. set w)"
proof (induction ws)
  case (Cons w ws)
  then show ?case by (cases ws) auto
qed simp

text \<open>A file that consists of one line of plain words.\<close>

lemma one_line:
  assumes "list_all plainWord ws" and "ws \<noteq> []" and "hd (hd ws) \<noteq> CHR ''#''"
  defines "l \<equiv> joinWith '' '' ws"
  shows "scanLines (l @ [LF]) = [l]" and "ruleLines E (l @ [LF]) = [l]"
proof -
  have sp: "isSpace LF" "isSpace CR" by (simp_all add: isSpace_def LF_def CR_def)
  have w: "plainWord w" if "w \<in> set ws" for w using assms(1) that by (simp add: list_all_iff)
  have "LF \<notin> set w" if "w \<in> set ws" for w using w [OF that] sp by (auto simp: plainWord_def list_all_iff)
  moreover have "LF \<noteq> CHR '' ''" by code_simp
  ultimately have "LF \<notin> set l" using set_join [of "'' ''" ws] by (auto simp: l_def)
  then show sl: "scanLines (l @ [LF]) = [l]" by (simp add: scanLines_def splitOn_append)
  have lastw: "plainWord (last ws)" "plainWord (hd ws)" using w assms(2) by simp_all
  then have "last l = last (last ws)" "l \<noteq> []" using last_join [of ws "'' ''"] assms(2) by (auto simp: l_def plainWord_def)
  then have l: "l \<noteq> []" "\<not> isSpace (last l)" using lastw by (auto simp: plainWord_def list_all_iff)
  have hd: "hd l = hd (hd ws)"
    using assms(2) lastw by (cases ws; cases "tl ws") (auto simp: l_def plainWord_def)
  then have hsp: "\<not> isSpace (hd l)" using lastw by (auto simp: plainWord_def list_all_iff)
  have "isASCII '' ''" by code_simp
  then have "isASCII l" using assms(1) unfolding l_def by (intro isASCII_join) (simp_all add: plainWord_def list_all_iff)
  then have t: "TrimSpace E l = l" using l hsp by (intro TrimSpace_id)
  have "dropCR l = l" using l sp by (auto simp: dropCR_def)
  moreover have "\<not> HasPrefix l ''#''" using hd assms(3) l(1) by (cases l) (auto simp: HasPrefix_def)
  ultimately show "ruleLines E (l @ [LF]) = [l]"
    using t l(1) unfolding ruleLines_def sl by (simp add: isRule_def)
qed

text \<open>
  C19: an ACL line means what it says.  The file with the single line \<open>user n on >pw +c ... ~p
  ...\<close> loads, and its gate admits the user \<open>n\<close> with exactly the passwords of the same
  digest, lets it run a command on a key exactly when the command is listed and the key
  matches a pattern, and knows no other user.
\<close>

theorem acl_policy_enforced:
  assumes "plainWord name" and "plainWord pw" and "list_all (\<lambda>c. plainWord c \<and> hd c \<noteq> CHR ''@'') cs" and "cs \<noteq> []"
    and "list_all plainWord ps" and "length (joinWith '' '' (policyWords name pw cs ps)) < maxLine"
  shows "\<exists>a. LoadACLFile E path (Ok (joinWith '' '' (policyWords name pw cs ps) @ [LF])) = Ok a \<and>
    (\<forall>q. Authenticate E name q a \<longleftrightarrow> hashPass E q = hashPass E pw) \<and>
    (\<forall>cmd key. Authorize E name cmd key a = Ok () \<longleftrightarrow>
       (ToUpper E cmd \<in> map upperChar ` set cs \<or> ''ALL'' \<in> map upperChar ` set cs) \<and>
       (key = [] \<or> ps = [] \<or> list_ex (\<lambda>p. matchPattern p key) ps)) \<and>
    (\<forall>n. n \<noteq> name \<longrightarrow> (\<forall>q cmd key. \<not> Authenticate E n q a \<and> Authorize E n cmd key a = Err ''NOAUTH unknown user''))"
proof -
  let ?l = "joinWith '' '' (policyWords name pw cs ps)"
  let ?u = "\<lparr>uName = name, uPassSHA256 = hashPass E pw,
      uCommands = foldl (\<lambda>m c. AList.update (map upperChar c) True m) [] cs, uKeyPatterns = ps, uAdmin = False, uOn = True\<rparr>"
  have pl: "list_all plainWord (policyWords name pw cs ps)" by (rule policy_plain [OF assms(1-3,5)])
  have f: "scanLines (?l @ [LF]) = [?l]" "ruleLines E (?l @ [LF]) = [?l]"
    by (rule one_line [OF pl]; simp add: policyWords_def)+
  have p: "parseACLLine E ?l = Ok (name, ?u)" by (rule parse_policy [OF assms(1-3,5)])
  define a where "a = addRules [(name, ?u)] NewDisabled"
  have load: "LoadACLFile E path (Ok (?l @ [LF])) = Ok a"
    unfolding acl_load_iff f using assms(6) by (simp add: p ruleUser_def a_def)
  have users: "map_of (aclUsers a) n = (if n = name then Some ?u else None)" and en: "aclEnabled a" for n
    by (simp_all add: a_def addRules_users NewDisabled_def)
  have ne: "uCommands ?u \<noteq> []" using fold_update_nonempty [OF assms(4), of "map upperChar" "[]"] by simp
  have allowed: "allowedIn (uCommands ?u) c \<longleftrightarrow> c \<in> map upperChar ` set cs" for c
    by (simp add: allowedIn_fold [of "map upperChar"]) (simp add: allowedIn_def)
  have "Authorize E name cmd key a = Ok () \<longleftrightarrow>
      (ToUpper E cmd \<in> map upperChar ` set cs \<or> ''ALL'' \<in> map upperChar ` set cs) \<and>
      (key = [] \<or> ps = [] \<or> list_ex (\<lambda>p. matchPattern p key) ps)" for cmd key
    unfolding Authorize_def users Let_def using en ne allowed by (auto split: if_splits)
  moreover have "Authenticate E name q a \<longleftrightarrow> hashPass E q = hashPass E pw" for q
    unfolding Authenticate_def users by auto
  moreover have "\<not> Authenticate E n q a \<and> Authorize E n cmd key a = Err ''NOAUTH unknown user''" if "n \<noteq> name" for n q cmd key
    unfolding Authenticate_def Authorize_def users using that en by simp
  ultimately show ?thesis using load by blast
qed

theorem acl_policy_enforced_witness:
  "\<exists>a. LoadACLFile ext0 ''acl'' (Ok (''user bob on >pw +get ~users:*'' @ [LF])) = Ok a \<and>
     Authorize ext0 ''bob'' ''GET'' ''users:7'' a = Ok () \<and> Authorize ext0 ''bob'' ''GET'' ''orders:7'' a \<noteq> Ok () \<and>
     Authorize ext0 ''bob'' ''SET'' ''users:7'' a \<noteq> Ok ()"
proof -
  have n: "plainWord ''bob''" "plainWord ''pw''" "list_all (\<lambda>c. plainWord c \<and> hd c \<noteq> CHR ''@'') [''get'']"
    "list_all plainWord [''users:*'']" by code_simp+
  have l: "joinWith '' '' (policyWords ''bob'' ''pw'' [''get''] [''users:*'']) = ''user bob on >pw +get ~users:*''"
    by (simp add: policyWords_def)
  have up: "ToUpper ext0 ''GET'' = ''GET''" "ToUpper ext0 ''SET'' = ''SET''" "upperChar (CHR ''g'') = CHR ''G''"
    "upperChar (CHR ''e'') = CHR ''E''" "upperChar (CHR ''t'') = CHR ''T''" by code_simp+
  have m: "matchPattern ''users:*'' ''users:7''" "\<not> matchPattern ''users:*'' ''orders:7''" by code_simp+
  show ?thesis
    using acl_policy_enforced [OF n(1,2,3) _ n(4), of ext0 "''acl''"] by (auto simp: l up m maxLine_def)
qed


end
