(* ===== verification/Resp.thy ===== *)
theory Resp
  imports Core
begin

text \<open>
  The wire protocol of \<open>internal/protocol/resp3/server.go\<close>: reading a command from the
  connection (\<open>readCommand\<close>), the keys of a command, and the encoding of replies.

  A connection is the string of the bytes that will still arrive; a read past its end is the
  error of the reader.
\<close>

definition maxArgs :: int where "maxArgs = 10000"
definition maxArgLen :: int where "maxArgLen = 2 ^ 20"

definition ReadString :: "string \<Rightarrow> (string \<times> string) result" where
  "ReadString s =
     (if LF \<in> set s then Ok (takeWhile (\<lambda>c. c \<noteq> LF) s @ [LF], tl (dropWhile (\<lambda>c. c \<noteq> LF) s))
      else Err ''EOF'')"

definition ReadFull :: "nat \<Rightarrow> string \<Rightarrow> (string \<times> string) result" where
  "ReadFull n s =
     (if n \<le> length s then Ok (take n s, drop n s)
      else if s = [] then Err ''EOF'' else Err ''unexpected EOF'')"

fun readBulks :: "nat \<Rightarrow> nat \<Rightarrow> string \<Rightarrow> (string list \<times> string) result" where
  "readBulks i 0 s = Ok ([], s)"
| "readBulks i (Suc n) s =
     bind_result (ReadString s) (\<lambda>(raw, s1).
       let bulk = TrimRight raw crlf in
       if bulk = [] \<or> hd bulk \<noteq> CHR ''$'' then Err (''expected bulk string at arg '' @ showNat i)
       else case ParseInt (tl bulk) of
         None \<Rightarrow> Err (''invalid bulk string length at arg '' @ showNat i @ '': '' @ tl bulk)
       | Some strLen \<Rightarrow>
           if strLen < -1 \<or> strLen > maxArgLen then
             Err (''invalid bulk string length at arg '' @ showNat i @ '': '' @ tl bulk)
           else if strLen = -1 then
             bind_result (readBulks (Suc i) n s1) (\<lambda>(args, s2). Ok ([] # args, s2))
           else
             bind_result (ReadFull (nat strLen + 2) s1) (\<lambda>(data, s2).
               bind_result (readBulks (Suc i) n s2) (\<lambda>(args, s3). Ok (take (nat strLen) data # args, s3))))"

definition readCommand :: "ext \<Rightarrow> string \<Rightarrow> (string list \<times> string) result" where
  "readCommand E s =
     bind_result (ReadString s) (\<lambda>(raw, s1).
       let line = TrimRight raw crlf in
       if line = [] then Ok ([], s1)
       else if hd line = CHR ''*'' then
         (case ParseInt (tl line) of
            None \<Rightarrow> Err (''invalid array length: '' @ tl line)
          | Some count \<Rightarrow>
              if count \<le> 0 \<or> count > maxArgs then Err (''invalid array length: '' @ tl line)
              else readBulks 0 (nat count) s1)
       else
         (let fields = Fields E line in
          if int (length fields) > maxArgs then
            Err (''too many arguments: '' @ showNat (length fields) @ '' > '' @ FormatInt maxArgs)
          else Ok (fields, s1)))"

section \<open>Replies\<close>

definition bulkString :: "string \<Rightarrow> string" where
  "bulkString s = ''$'' @ showNat (length s) @ crlf @ s @ crlf"

definition formatBulkString :: "string \<Rightarrow> string" where
  "formatBulkString s = ''$'' @ showNat (length s) @ crlf @ s @ crlf"

definition formatValue :: "ext \<Rightarrow> Value \<Rightarrow> string" where
  "formatValue E v =
     (case v of
        VRecord [(k, w)] \<Rightarrow> formatBulkString (Sprint E w)
      | _ \<Rightarrow> formatBulkString (Sprint E v))"

definition nilBulk :: string where "nilBulk = ''$-1'' @ crlf"
definition intReply :: "int \<Rightarrow> string" where "intReply n = '':'' @ FormatInt n @ crlf"
definition arrayHead :: "nat \<Rightarrow> string" where "arrayHead n = ''*'' @ showNat n @ crlf"
definition okReply :: string where "okReply = ''+OK'' @ crlf"

section \<open>The keys of a command\<close>

definition keylessCommands :: "string list" where
  "keylessCommands =
     [''PING'', ''DBSIZE'', ''INFO'', ''HELLO'', ''CLIENT'', ''CONFIG'', ''FLUSHDB'', ''FLUSHALL'',
      ''SCRIPT'', ''FUNCTION'', ''MULTI'', ''EXEC'', ''DISCARD'', ''SCAN'', ''KEYS'']"

definition firstKey :: "ext \<Rightarrow> string list \<Rightarrow> string" where
  "firstKey E args =
     (case args of
        c # k # _ \<Rightarrow> if ToUpper E c \<in> set keylessCommands then [] else k
      | _ \<Rightarrow> [])"

fun everyOther :: "'a list \<Rightarrow> 'a list" where
  "everyOther [] = []"
| "everyOther [x] = [x]"
| "everyOther (x # y # xs) = x # everyOther xs"

definition allKeys :: "ext \<Rightarrow> string list \<Rightarrow> string list" where
  "allKeys E args =
     (case args of
        c # k # ks \<Rightarrow>
          (let cmd = ToUpper E c in
           if cmd \<in> set keylessCommands then []
           else if cmd \<in> {''MGET'', ''DEL'', ''EXISTS''} then k # ks
           else if cmd = ''MSET'' then everyOther (k # ks)
           else [k])
      | _ \<Rightarrow> [])"

section \<open>Reading back a written command\<close>

text \<open>A command as clients send it: an array of bulk strings.\<close>

definition encodeCommand :: "string list \<Rightarrow> string" where
  "encodeCommand args = arrayHead (length args) @ concat (map bulkString args)"

lemma crlf_facts: "LF \<in> set crlf" "CR \<in> set crlf" "CR \<noteq> LF" "\<not> isDigit CR" "\<not> isDigit LF"
  by code_simp+

lemma ReadString_line: "LF \<notin> set l \<Longrightarrow> ReadString (l @ crlf @ s) = Ok (l @ crlf, s)"
proof -
  assume l: "LF \<notin> set l"
  have "takeWhile (\<lambda>c. c \<noteq> LF) (l @ crlf @ s) = l @ [CR]" "dropWhile (\<lambda>c. c \<noteq> LF) (l @ crlf @ s) = LF # s"
    using l crlf_facts by (auto simp: crlf_def takeWhile_append dropWhile_append)
  then show ?thesis by (simp add: ReadString_def crlf_def)
qed

lemma TrimRight_line: "l = [] \<or> last l \<notin> set crlf \<Longrightarrow> TrimRight (l @ crlf) crlf = l"
  by (cases l rule: rev_cases) (auto simp: TrimRight_def trimRightBy_def crlf_def)

lemma number_line:
  assumes "n < 2 ^ 63"
  shows "ReadString ((c # showNat n) @ crlf @ s) = Ok ((c # showNat n) @ crlf, s) \<or> c = LF"
    and "TrimRight ((c # showNat n) @ crlf) crlf = c # showNat n"
    and "ParseInt (showNat n) = Some (int n)"
proof -
  have d: "x \<noteq> LF \<and> x \<notin> set crlf" if "x \<in> set (showNat n)" for x
    using that showNat_digits [of n] crlf_facts by (auto simp: crlf_def)
  then show "ReadString ((c # showNat n) @ crlf @ s) = Ok ((c # showNat n) @ crlf, s) \<or> c = LF"
    using ReadString_line [of "c # showNat n" s] by auto
  have "last (c # showNat n) \<in> set (showNat n)" by simp
  then show "TrimRight ((c # showNat n) @ crlf) crlf = c # showNat n"
    using d by (intro TrimRight_line) blast
  show "ParseInt (showNat n) = Some (int n)" by (rule ParseInt_showNat [OF assms])
qed

lemma readBulks_encode:
  "list_all (\<lambda>a. int (length a) \<le> maxArgLen) args \<Longrightarrow>
     readBulks i (length args) (concat (map bulkString args) @ rest) = Ok (args, rest)"
proof (induction args arbitrary: i)
  case (Cons a args)
  then have len: "length a \<le> 2 ^ 20" by (simp add: maxArgLen_def)
  then have n: "length a < 2 ^ 63" by simp
  let ?tail = "concat (map bulkString args) @ rest"
  have s: "concat (map bulkString (a # args)) @ rest = (CHR ''$'' # showNat (length a)) @ crlf @ (a @ crlf @ ?tail)"
    by (simp add: bulkString_def)
  have "CHR ''$'' \<noteq> LF" by code_simp
  then have rd: "ReadString (concat (map bulkString (a # args)) @ rest) = Ok ((CHR ''$'' # showNat (length a)) @ crlf, a @ crlf @ ?tail)"
    unfolding s using number_line(1) [OF n, of "CHR ''$''" "a @ crlf @ ?tail"] by blast
  have full: "ReadFull (length a + 2) (a @ crlf @ ?tail) = Ok (a @ crlf, ?tail)"
    by (simp add: ReadFull_def crlf_def)
  have lim: "\<not> (int (length a) < -1 \<or> int (length a) > maxArgLen)" "int (length a) \<noteq> -1"
    using len by (simp_all add: maxArgLen_def)
  have "readBulks (Suc i) (length args) ?tail = Ok (args, rest)" using Cons by simp
  then have "readBulks i (Suc (length args)) (concat (map bulkString (a # args)) @ rest) = Ok (a # args, rest)"
    unfolding readBulks.simps rd bind_result.simps prod.case Let_def number_line(2) [OF n] list.sel number_line(3) [OF n] option.case
    using lim by (simp add: full [simplified])
  then show ?case by simp
qed simp

fun readPipeline :: "ext \<Rightarrow> nat \<Rightarrow> string \<Rightarrow> (string list list \<times> string) result" where
  "readPipeline E 0 s = Ok ([], s)"
| "readPipeline E (Suc n) s =
     bind_result (readCommand E s) (\<lambda>(c, s1). bind_result (readPipeline E n s1) (\<lambda>(cs, s2). Ok (c # cs, s2)))"

definition sendable :: "string list \<Rightarrow> bool" where
  "sendable args \<longleftrightarrow> args \<noteq> [] \<and> int (length args) \<le> maxArgs \<and> list_all (\<lambda>a. int (length a) \<le> maxArgLen) args"

lemma readCommand_encode:
  assumes "sendable args"
  shows "readCommand E (encodeCommand args @ rest) = Ok (args, rest)"
proof -
  let ?tail = "concat (map bulkString args) @ rest"
  have n: "length args < 2 ^ 63" using assms by (simp add: sendable_def maxArgs_def)
  have s: "encodeCommand args @ rest = (CHR ''*'' # showNat (length args)) @ crlf @ ?tail"
    by (simp add: encodeCommand_def arrayHead_def)
  have "CHR ''*'' \<noteq> LF" by code_simp
  then have rd: "ReadString (encodeCommand args @ rest) = Ok ((CHR ''*'' # showNat (length args)) @ crlf, ?tail)"
    unfolding s using number_line(1) [OF n, of "CHR ''*''" ?tail] by blast
  show ?thesis
    unfolding readCommand_def rd bind_result.simps prod.case Let_def number_line(2) [OF n] list.sel number_line(3) [OF n] option.case
    using assms by (simp add: sendable_def readBulks_encode)
qed

text \<open>
  C16: commands survive the wire.  Any non-empty command within the limits of the server, with
  arbitrary bytes in its arguments, is read back as it was sent, and the reader stops right
  behind it; so a pipeline of commands is read back command by command.
\<close>

theorem resp_roundtrip:
  assumes "list_all sendable cmds"
  shows "readPipeline E (length cmds) (concat (map encodeCommand cmds) @ rest) = Ok (cmds, rest)"
  using assms by (induction cmds) (simp_all add: readCommand_encode)

theorem resp_roundtrip_witness:
  "readPipeline ext0 2 (concat (map encodeCommand [[''SET'', ''k'', crlf], [''GET'', ''k'']])) = Ok ([[''SET'', ''k'', crlf], [''GET'', ''k'']], [])"
proof -
  have "list_all sendable [[''SET'', ''k'', crlf], [''GET'', ''k'']]" by code_simp
  from resp_roundtrip [OF this, of ext0 "[]"] show ?thesis by (simp add: numeral_2_eq_2)
qed

section \<open>Reading arbitrary input\<close>

lemma ReadString_progress: "ReadString s = Ok (l, s1) \<Longrightarrow> s = l @ s1 \<and> l \<noteq> []"
proof -
  assume "ReadString s = Ok (l, s1)"
  then have lf: "LF \<in> set s" and l: "l = takeWhile (\<lambda>c. c \<noteq> LF) s @ [LF]" "s1 = tl (dropWhile (\<lambda>c. c \<noteq> LF) s)"
    by (auto simp: ReadString_def split: if_splits)
  then have "dropWhile (\<lambda>c. c \<noteq> LF) s = LF # s1"
    by (metis (mono_tags, lifting) dropWhile_eq_Nil_conv hd_dropWhile list.collapse)
  then show ?thesis using l(1) takeWhile_dropWhile_id [of "\<lambda>c. c \<noteq> LF" s] by (metis append.assoc append_Cons append_Nil snoc_eq_iff_butlast)
qed

lemma ReadFull_rest: "ReadFull n s = Ok (d, s1) \<Longrightarrow> s = d @ s1 \<and> length d = n"
  by (auto simp: ReadFull_def split: if_splits)

lemma readBulks_bounds:
  "readBulks i n s = Ok (args, rest) \<Longrightarrow>
     length args = n \<and> list_all (\<lambda>a. int (length a) \<le> maxArgLen) args \<and> suffix rest s"
proof (induction n arbitrary: i s args rest)
  case (Suc n)
  have pos: "0 \<le> maxArgLen" by (simp add: maxArgLen_def)
  from Suc.prems obtain raw s1 strLen where rd: "ReadString s = Ok (raw, s1)"
    and "ParseInt (tl (TrimRight raw crlf)) = Some strLen" and lim: "strLen \<ge> -1" "strLen \<le> maxArgLen"
    and rest: "(strLen = -1 \<and> (\<exists>as. readBulks (Suc i) n s1 = Ok (as, rest) \<and> args = [] # as)) \<or>
      (strLen \<noteq> -1 \<and> (\<exists>d s2 as. ReadFull (nat strLen + 2) s1 = Ok (d, s2) \<and> readBulks (Suc i) n s2 = Ok (as, rest) \<and>
         args = take (nat strLen) d # as))"
    by (auto simp: Let_def split: if_splits option.splits)
  have s1: "suffix s1 s" using ReadString_progress [OF rd] by (auto simp: suffix_def)
  from rest show ?case
  proof (elim disjE conjE exE)
    fix as assume "readBulks (Suc i) n s1 = Ok (as, rest)" "args = [] # as"
    with Suc.IH s1 pos show ?case by (fastforce intro: suffix_order.trans)
  next
    fix d s2 as assume d: "ReadFull (nat strLen + 2) s1 = Ok (d, s2)" "readBulks (Suc i) n s2 = Ok (as, rest)" "args = take (nat strLen) d # as"
    have "suffix s2 s1" using ReadFull_rest [OF d(1)] by (auto simp: suffix_def)
    then have "suffix s2 s" using s1 by (rule suffix_order.trans)
    moreover have "int (length (take (nat strLen) d)) \<le> maxArgLen" using lim pos by simp
    ultimately show ?case using Suc.IH [OF d(2)] d(3) by (auto intro: suffix_order.trans)
  qed
qed simp

lemma ReadString_returns: "returns (ReadString s)" "returns (ReadFull n s)"
  by (simp_all add: ReadString_def ReadFull_def)

lemma readBulks_returns: "returns (readBulks i n s)"
  by (induction n arbitrary: i s) (auto simp: ReadString_returns Let_def split: option.split)

lemma readCommand_bounded:
  "returns (readCommand E s) \<and>
   (\<forall>args rest. readCommand E s = Ok (args, rest) \<longrightarrow>
      int (length args) \<le> maxArgs \<and> (\<exists>used. s = used @ rest \<and> used \<noteq> []))"
proof
  show "returns (readCommand E s)"
    by (auto simp: readCommand_def ReadString_returns readBulks_returns Let_def split: option.split)
  show "\<forall>args rest. readCommand E s = Ok (args, rest) \<longrightarrow>
      int (length args) \<le> maxArgs \<and> (\<exists>used. s = used @ rest \<and> used \<noteq> [])"
  proof (intro allI impI)
    fix args rest assume "readCommand E s = Ok (args, rest)"
    then obtain raw s1 where rd: "ReadString s = Ok (raw, s1)" and
      c: "(args, rest) = ([], s1) \<or> (\<exists>n. 0 < n \<and> n \<le> maxArgs \<and> readBulks 0 (nat n) s1 = Ok (args, rest)) \<or>
        (int (length args) \<le> maxArgs \<and> rest = s1)"
      unfolding readCommand_def by (fastforce simp: Let_def split: if_splits option.splits)
    have "int (length args) \<le> maxArgs \<and> suffix rest s1"
      using c readBulks_bounds [of 0 _ s1 args rest] by (auto simp: maxArgs_def)
    then show "int (length args) \<le> maxArgs \<and> (\<exists>used. s = used @ rest \<and> used \<noteq> [])"
      using ReadString_progress [OF rd] by (auto simp: suffix_def)
  qed
qed



end
