(* ===== verification/Server.thy ===== *)
theory Server
  imports SqlParser ProofCache Intern Auth Resp
begin

text \<open>
  The command handlers of \<open>internal/protocol/resp3/server.go\<close>.

  \<open>server\<close> holds the fields of the Go struct that the handlers use, the state of its store
  and the global intern table.  A handler is a function from the server to a result (the
  reply, the error, a panic) and the server; \<open>sbind\<close> sequences the steps of a handler
  and stops at an error.  A command runs at one moment \<open>now\<close>.  \<open>st\<close> is the store of the
  server, \<open>lo\<close> the store that the proof engine reads (the local store of a write-through
  store, otherwise the same); \<open>k\<close> bounds the recursion of the engine.  Telemetry is not
  modelled.
\<close>

record 's server =
  svStore :: 's
  svCache :: proofCache
  svTypes :: "(string, string) gomap"
  svIntern :: internTable
  svPassword :: string
  svAcl :: "acl option"
  svPGState :: "int option"
  svPGPage :: int
  svMyLast :: "int option"
  svMyMax :: int

definition NewServer :: "ext \<Rightarrow> 's \<Rightarrow> string \<Rightarrow> internTable \<Rightarrow> 's server" where
  "NewServer E store password itab =
     \<lparr>svStore = store, svCache = replicate 64 (newCacheShard 2000), svTypes = [], svIntern = itab,
      svPassword = password, svAcl = Some (NewSinglePassword E password),
      svPGState = None, svPGPage = 0, svMyLast = None, svMyMax = 0\<rparr>"

definition SetACL :: "acl \<Rightarrow> 's server \<Rightarrow> 's server" where
  "SetACL a sv = sv\<lparr>svAcl := Some a\<rparr>"

definition SetStaleGuardPG :: "int \<Rightarrow> int \<Rightarrow> 's server \<Rightarrow> 's server" where
  "SetStaleGuardPG slotState pageBytes sv = sv\<lparr>svPGState := Some slotState, svPGPage := pageBytes\<rparr>"

definition SetStaleGuardMySQL :: "int \<Rightarrow> int \<Rightarrow> 's server \<Rightarrow> 's server" where
  "SetStaleGuardMySQL lastOK maxSilence sv = sv\<lparr>svMyLast := Some lastOK, svMyMax := maxSilence\<rparr>"

section \<open>Steps of a handler\<close>

type_synonym ('s, 'a) step = "'s server \<Rightarrow> 'a result \<times> 's server"

definition ret :: "'a \<Rightarrow> ('s, 'a) step" where "ret x = (\<lambda>sv. (Ok x, sv))"
definition fail :: "string \<Rightarrow> ('s, 'a) step" where "fail e = (\<lambda>sv. (Err e, sv))"
definition liftRes :: "'a result \<Rightarrow> ('s, 'a) step" where "liftRes r = (\<lambda>sv. (r, sv))"

definition sbind :: "('s, 'a) step \<Rightarrow> ('a \<Rightarrow> ('s, 'b) step) \<Rightarrow> ('s, 'b) step" where
  "sbind m f = (\<lambda>sv.
     case m sv of
       (Ok x, sv1) \<Rightarrow> f x sv1
     | (Err e, sv1) \<Rightarrow> (Err e, sv1)
     | (Panic, sv1) \<Rightarrow> (Panic, sv1)
     | (Hang, sv1) \<Rightarrow> (Hang, sv1))"

text \<open>A call whose error the code looks at or drops.\<close>

definition attempt :: "('s, 'a) step \<Rightarrow> ('s, 'a result) step" where
  "attempt m = (\<lambda>sv.
     case m sv of
       (Ok x, sv1) \<Rightarrow> (Ok (Ok x), sv1)
     | (Err e, sv1) \<Rightarrow> (Ok (Err e), sv1)
     | (Panic, sv1) \<Rightarrow> (Panic, sv1)
     | (Hang, sv1) \<Rightarrow> (Hang, sv1))"

fun sfold :: "('a \<Rightarrow> 'b \<Rightarrow> ('s, 'b) step) \<Rightarrow> 'a list \<Rightarrow> 'b \<Rightarrow> ('s, 'b) step" where
  "sfold f [] b = ret b"
| "sfold f (x # xs) b = sbind (f x b) (sfold f xs)"

definition getCurrent :: "'s store \<Rightarrow> gotime \<Rightarrow> string \<Rightarrow> ('s, catom option) step" where
  "getCurrent st now path = (\<lambda>sv.
     let (a, s) = sGetCurrent st now path (svStore sv) in (Ok a, sv\<lparr>svStore := s\<rparr>))"

definition appendAtom ::
    "'s store \<Rightarrow> gotime \<Rightarrow> expr \<Rightarrow> string \<Rightarrow> hash list \<Rightarrow> gotime \<Rightarrow> ('s, hash) step" where
  "appendAtom st now e path parents expiresAt = (\<lambda>sv.
     let (r, s) = sAppendAtom st now e path parents expiresAt (svStore sv) in (r, sv\<lparr>svStore := s\<rparr>))"

definition frontierPaths :: "'s store \<Rightarrow> gotime \<Rightarrow> ('s, string list) step" where
  "frontierPaths st now = (\<lambda>sv. (Ok (sFrontierPaths st now (svStore sv)), sv))"

definition newConst :: "ext \<Rightarrow> Value \<Rightarrow> ('s, expr) step" where
  "newConst E v = (\<lambda>sv.
     case NewEConst E v (svIntern sv) of
       Ok (w, t) \<Rightarrow> (Ok (EConst w), sv\<lparr>svIntern := t\<rparr>)
     | r \<Rightarrow> (castErr r, sv))"

definition loadKeyType :: "string \<Rightarrow> ('s, string option) step" where
  "loadKeyType key = (\<lambda>sv. (Ok (map_of (svTypes sv) key), sv))"

definition setKeyType :: "string \<Rightarrow> string \<Rightarrow> ('s, unit) step" where
  "setKeyType key typ = (\<lambda>sv. (Ok (), sv\<lparr>svTypes := AList.update key typ (svTypes sv)\<rparr>))"

definition delKeyType :: "string \<Rightarrow> ('s, unit) step" where
  "delKeyType key = (\<lambda>sv. (Ok (), sv\<lparr>svTypes := AList.delete key (svTypes sv)\<rparr>))"

definition clearKeyTypes :: "('s, unit) step" where
  "clearKeyTypes = (\<lambda>sv. (Ok (), sv\<lparr>svTypes := []\<rparr>))"

section \<open>Fail-closed reads\<close>

text \<open>The dash of the messages in UTF-8, and \<open>Duration.Round(time.Millisecond)\<close> of a positive duration.\<close>

definition emDash :: string where
  "emDash = [char_of (226::nat), char_of (128::nat), char_of (148::nat)]"

definition roundMilli :: "int \<Rightarrow> int" where
  "roundMilli d = (d + 500000) div 1000000 * 1000000"

definition staleError :: "ext \<Rightarrow> gotime \<Rightarrow> 's server \<Rightarrow> string option" where
  "staleError E now sv =
     (case (case svPGState sv of
              None \<Rightarrow> None
            | Some s \<Rightarrow>
                if s = -2 then Some (''STALE CDC blind (slot missing/inactive) '' @ emDash @ '' check listener and slot'')
                else if s \<ge> 0 \<and> s \<ge> svPGPage sv then
                  Some (''STALE slot lag '' @ FormatInt s @ '' bytes at page threshold '' @ FormatInt (svPGPage sv) @
                    '' '' @ emDash @ '' check CDC listener'')
                else None) of
        Some e \<Rightarrow> Some e
      | None \<Rightarrow>
          (case svMyLast sv of
             None \<Rightarrow> None
           | Some l \<Rightarrow>
               if svMyMax sv > 0 \<and> l \<noteq> 0 \<and> now - l > svMyMax sv then
                 Some (''STALE MySQL poller silent '' @ fmtDuration E (roundMilli (now - l)) @ '' over max '' @
                   fmtDuration E (svMyMax sv) @ '' '' @ emDash @ '' check poller and DB'')
               else None))"

definition staleRefused :: "ext \<Rightarrow> gotime \<Rightarrow> ('s, unit) step" where
  "staleRefused E now = (\<lambda>sv. case staleError E now sv of None \<Rightarrow> (Ok (), sv) | Some e \<Rightarrow> (Err e, sv))"

section \<open>The type index\<close>

definition isTombstone :: "catom \<Rightarrow> bool" where
  "isTombstone a = (case aExpr a of EConst VNull \<Rightarrow> True | _ \<Rightarrow> False)"

definition isSetRecord :: "Value \<Rightarrow> bool" where
  "isSetRecord v = (case v of VRecord m \<Rightarrow> list_all (\<lambda>(k, w). w = VInt 1) m | _ \<Rightarrow> False)"

definition isZSetRecord :: "Value \<Rightarrow> bool" where
  "isZSetRecord v =
     (case v of
        VRecord m \<Rightarrow> m \<noteq> [] \<and> list_all (\<lambda>(k, w). case w of VFloat _ \<Rightarrow> True | _ \<Rightarrow> False) m
      | _ \<Rightarrow> False)"

definition shapeType :: "Value \<Rightarrow> string" where
  "shapeType v =
     (case v of
        VArray (VRecord rec # _) \<Rightarrow> if map_of rec ''_id'' \<noteq> None then ''stream'' else ''list''
      | VArray _ \<Rightarrow> ''list''
      | VRecord _ \<Rightarrow> if isZSetRecord v then ''zset'' else if isSetRecord v then ''set'' else ''hash''
      | _ \<Rightarrow> ''string'')"

text \<open>\<open>curValue\<close>: the value of a constant, nil for another expression, nothing for a tombstone.\<close>

definition atomValue :: "catom \<Rightarrow> Value" where
  "atomValue a = (case aExpr a of EConst v \<Rightarrow> v | _ \<Rightarrow> VNil)"

definition curValue :: "'s store \<Rightarrow> gotime \<Rightarrow> string \<Rightarrow> ('s, (Value \<times> catom) option) step" where
  "curValue st now path =
     sbind (getCurrent st now path) (\<lambda>c. ret
       (case c of
          None \<Rightarrow> None
        | Some a \<Rightarrow> if isTombstone a then None else Some (atomValue a, a)))"

definition keyTypeOf :: "'s store \<Rightarrow> gotime \<Rightarrow> string \<Rightarrow> ('s, string) step" where
  "keyTypeOf st now key =
     sbind (loadKeyType key) (\<lambda>t.
       case t of
         Some t \<Rightarrow> ret t
       | None \<Rightarrow>
           sbind (curValue st now key) (\<lambda>c.
             case c of
               None \<Rightarrow>
                 sbind (frontierPaths st now) (\<lambda>ps.
                   let pre = key @ '':'' in
                   if list_ex (\<lambda>p. length p > length pre \<and> take (length pre) p = pre) ps
                   then sbind (setKeyType key ''hash'') (\<lambda>_. ret ''hash'')
                   else ret ''none'')
             | Some (v, a) \<Rightarrow> sbind (setKeyType key (shapeType v)) (\<lambda>_. ret (shapeType v))))"

definition isHashKey :: "string \<Rightarrow> 's server \<Rightarrow> bool" where
  "isHashKey key sv \<longleftrightarrow> map_of (svTypes sv) key = Some ''hash''"

definition wrongTypeMsg :: string where
  "wrongTypeMsg = ''WRONGTYPE Operation against a key holding the wrong kind of value''"

definition assertKeyType :: "'s store \<Rightarrow> gotime \<Rightarrow> string \<Rightarrow> string \<Rightarrow> ('s, unit) step" where
  "assertKeyType st now key want =
     sbind (keyTypeOf st now key) (\<lambda>t.
       if t \<noteq> ''none'' \<and> t \<noteq> want then fail wrongTypeMsg else ret ())"

section \<open>Reading through the proof cache\<close>

definition queryHash :: "ext \<Rightarrow> string \<Rightarrow> hash" where
  "queryHash E path = sha3 E (path @ [char_of (0::nat)])"

text \<open>
  The cache holds pointers: what \<open>ReduceIncremental\<close> changes in a proof, it changes in the
  cached one.
\<close>

definition pcPoke :: "hash \<Rightarrow> mproof \<Rightarrow> proofCache \<Rightarrow> proofCache" where
  "pcPoke key p pc =
     (let i = unat (HashFast key) mod length pc; s = pc ! i in
      case map_of (pcEntries s) key of
        None \<Rightarrow> pc
      | Some _ \<Rightarrow> pc[i := s\<lparr>pcEntries := AList.update key p (pcEntries s)\<rparr>])"

definition serveCached :: "ext \<Rightarrow> 's store \<Rightarrow> gotime \<Rightarrow> nat \<Rightarrow> string \<Rightarrow> ('s, Value option) step" where
  "serveCached E lo now k path = (\<lambda>sv.
     let h = queryHash E path in
     case pcGet h (svCache sv) of
       Ok (None, pc) \<Rightarrow> (Ok None, sv\<lparr>svCache := pc\<rparr>)
     | Ok (Some pr, pc) \<Rightarrow>
         (case ReduceIncremental E lo now k pr (svStore sv) of
            (r, pr', s) \<Rightarrow>
              (let sv1 = sv\<lparr>svStore := s, svCache := pcPoke h pr' pc\<rparr> in
               case r of
                 Ok v \<Rightarrow> (Ok (Some v), sv1)
               | Err e \<Rightarrow> (Ok None, sv1)
               | Panic \<Rightarrow> (Panic, sv1)
               | Hang \<Rightarrow> (Hang, sv1)))
     | r \<Rightarrow> (castErr r, sv))"

definition composeCached :: "ext \<Rightarrow> 's store \<Rightarrow> 's store \<Rightarrow> gotime \<Rightarrow> nat \<Rightarrow> string \<Rightarrow> ('s, Value) step" where
  "composeCached E st lo now k path = (\<lambda>sv.
     case ComposeProof E st lo now k path ModeDeductive (svStore sv) of
       (Ok pr, s) \<Rightarrow>
         (case pcSet (queryHash E path) pr (svCache sv) of
            Ok pc \<Rightarrow> (Ok (mpValue pr), sv\<lparr>svStore := s, svCache := pc\<rparr>)
          | r \<Rightarrow> (castErr r, sv\<lparr>svStore := s\<rparr>))
     | (r, s) \<Rightarrow> (castErr r, sv\<lparr>svStore := s\<rparr>))"

text \<open>
  A SELECT as key: \<open>Inl\<close> the reply, or \<open>Inr\<close> the path under which the plain read goes on
  (after an error of the reduction, the key that the parser made).
\<close>

definition sqlTree :: "ext \<Rightarrow> 's store \<Rightarrow> gotime \<Rightarrow> string \<Rightarrow> ('s, (expr \<times> string)) step" where
  "sqlTree E st now query = (\<lambda>sv.
     case SQLToProofTree E st now query (svStore sv) of
       (Ok (ECompose hs, p), s) \<Rightarrow>
         (case Intern E (ICompose hs) (svIntern sv) of
            Ok (n, t) \<Rightarrow> (Ok (ECompose hs, p), sv\<lparr>svStore := s, svIntern := t\<rparr>)
          | r \<Rightarrow> (castErr r, sv\<lparr>svStore := s\<rparr>))
     | (r, s) \<Rightarrow> (r, sv\<lparr>svStore := s\<rparr>))"

definition reduceExpr :: "ext \<Rightarrow> 's store \<Rightarrow> gotime \<Rightarrow> nat \<Rightarrow> expr \<Rightarrow> ('s, Value) step" where
  "reduceExpr E lo now k e = (\<lambda>sv.
     case ReduceProofTree E lo now k e (svStore sv) of
       (Ok (v, nc), s) \<Rightarrow> (Ok v, sv\<lparr>svStore := s\<rparr>)
     | (r, s) \<Rightarrow> (castErr r, sv\<lparr>svStore := s\<rparr>))"

definition sqlGet :: "ext \<Rightarrow> 's store \<Rightarrow> 's store \<Rightarrow> gotime \<Rightarrow> nat \<Rightarrow> string \<Rightarrow> ('s, string + string) step" where
  "sqlGet E st lo now k path =
     (if \<not> HasPrefix (ToUpper E path) ''SELECT'' then ret (Inr path)
      else
        sbind (attempt (sqlTree E st now path)) (\<lambda>r.
          case r of
            Ok (e, qPath) \<Rightarrow>
              sbind (serveCached E lo now k qPath) (\<lambda>c.
                case c of
                  Some v \<Rightarrow> ret (Inl (formatValue E v))
                | None \<Rightarrow>
                    sbind (attempt (reduceExpr E lo now k e)) (\<lambda>q.
                      case q of Ok v \<Rightarrow> ret (Inl (formatValue E v)) | _ \<Rightarrow> ret (Inr qPath)))
          | _ \<Rightarrow> ret (Inr path)))"

section \<open>Commands\<close>

text \<open>
  \<open>int(d.Seconds())\<close> for a duration of \<open>d\<close> nanoseconds: the whole seconds plus the float64
  quotient of the rest, rounded to 53 bits and truncated.
\<close>

definition nearestDiv :: "nat \<Rightarrow> nat \<Rightarrow> nat" where
  "nearestDiv a b =
     (let q = a div b; r = a mod b in
      if 2 * r < b \<or> (2 * r = b \<and> even q) then q else q + 1)"

definition secondsTrunc :: "nat \<Rightarrow> nat" where
  "secondsTrunc d =
     (let sec = d div 1000000000; n = d mod 1000000000; e = 82 - bitlen n;
          x = (if n * 2 ^ e < 2 ^ 52 * 1000000000 then Suc e else e) in
      if n = 0 then sec
      else round53 (sec * 2 ^ x + nearestDiv (n * 2 ^ x) 1000000000) div 2 ^ x)"

definition arity :: "string \<Rightarrow> string" where
  "arity c = ''wrong number of arguments for '' @ [CHR 39] @ c @ [CHR 39] @ '' command''"

text \<open>The write that SET, MSET and HSET share: the current atom of the path is the causal past.\<close>

definition writeString :: "ext \<Rightarrow> 's store \<Rightarrow> gotime \<Rightarrow> expr \<Rightarrow> string \<Rightarrow> ('s, hash) step" where
  "writeString E st now e path =
     sbind (getCurrent st now path) (\<lambda>prev.
       appendAtom st now e path (case prev of Some a \<Rightarrow> [aHash a] | None \<Rightarrow> []) zeroTime)"

definition cmdSet :: "ext \<Rightarrow> 's store \<Rightarrow> gotime \<Rightarrow> string list \<Rightarrow> ('s, string) step" where
  "cmdSet E st now args =
     (case args of
        _ # path # val # _ \<Rightarrow>
          sbind (assertKeyType st now path ''string'') (\<lambda>_.
          sbind (newConst E (VString val)) (\<lambda>e.
          sbind (writeString E st now e path) (\<lambda>_.
          sbind (setKeyType path ''string'') (\<lambda>_. ret okReply))))
      | _ \<Rightarrow> fail (arity ''set''))"

definition plainGet :: "ext \<Rightarrow> 's store \<Rightarrow> 's store \<Rightarrow> gotime \<Rightarrow> nat \<Rightarrow> string \<Rightarrow> ('s, string) step" where
  "plainGet E st lo now k path =
     sbind (getCurrent st now path) (\<lambda>c.
       case c of
         None \<Rightarrow> ret nilBulk
       | Some a \<Rightarrow>
           if isTombstone a then ret nilBulk
           else
             sbind (serveCached E lo now k path) (\<lambda>v.
               case v of
                 Some v \<Rightarrow> ret (formatValue E v)
               | None \<Rightarrow> sbind (composeCached E st lo now k path) (\<lambda>v. ret (formatValue E v))))"

definition cmdGet :: "ext \<Rightarrow> 's store \<Rightarrow> 's store \<Rightarrow> gotime \<Rightarrow> nat \<Rightarrow> string list \<Rightarrow> ('s, string) step" where
  "cmdGet E st lo now k args =
     sbind (staleRefused E now) (\<lambda>_.
       case args of
         _ # path # _ \<Rightarrow>
           sbind (sqlGet E st lo now k path) (\<lambda>r.
             case r of Inl reply \<Rightarrow> ret reply | Inr p \<Rightarrow> plainGet E st lo now k p)
       | _ \<Rightarrow> fail (arity ''get''))"

definition delOne :: "'s store \<Rightarrow> gotime \<Rightarrow> string \<Rightarrow> nat \<Rightarrow> ('s, nat) step" where
  "delOne st now path deleted =
     sbind (getCurrent st now path) (\<lambda>prev.
       case prev of
         None \<Rightarrow> ret deleted
       | Some a \<Rightarrow>
           sbind (attempt (appendAtom st now (EConst VNull) path [aHash a] zeroTime)) (\<lambda>r.
             case r of
               Ok _ \<Rightarrow> sbind (delKeyType path) (\<lambda>_. ret (deleted + 1))
             | _ \<Rightarrow> ret deleted))"

definition cmdDel :: "'s store \<Rightarrow> gotime \<Rightarrow> string list \<Rightarrow> ('s, string) step" where
  "cmdDel st now args =
     (if length args < 2 then fail (arity ''del'')
      else sbind (sfold (delOne st now) (tl args) 0) (\<lambda>n. ret (intReply (int n))))"

definition countLive :: "'s store \<Rightarrow> gotime \<Rightarrow> string \<Rightarrow> nat \<Rightarrow> ('s, nat) step" where
  "countLive st now path n =
     sbind (getCurrent st now path) (\<lambda>c.
       ret (case c of Some a \<Rightarrow> if isTombstone a then n else n + 1 | None \<Rightarrow> n))"

definition cmdExists :: "'s store \<Rightarrow> gotime \<Rightarrow> string list \<Rightarrow> ('s, string) step" where
  "cmdExists st now args =
     (if length args < 2 then fail (arity ''exists'')
      else sbind (sfold (countLive st now) (tl args) 0) (\<lambda>n. ret (intReply (int n))))"

definition cmdDbsize :: "'s store \<Rightarrow> gotime \<Rightarrow> ('s, string) step" where
  "cmdDbsize st now =
     sbind (frontierPaths st now) (\<lambda>ps.
     sbind (sfold (countLive st now) ps 0) (\<lambda>n. ret (intReply (int n))))"

text \<open>One element of MGET and HGET: a composition error reads as nil.\<close>

definition getOrNil :: "ext \<Rightarrow> 's store \<Rightarrow> 's store \<Rightarrow> gotime \<Rightarrow> nat \<Rightarrow> string \<Rightarrow> ('s, string) step" where
  "getOrNil E st lo now k path =
     sbind (getCurrent st now path) (\<lambda>c.
       case c of
         None \<Rightarrow> ret nilBulk
       | Some a \<Rightarrow>
           if isTombstone a then ret nilBulk
           else
             sbind (serveCached E lo now k path) (\<lambda>v.
               case v of
                 Some v \<Rightarrow> ret (formatValue E v)
               | None \<Rightarrow>
                   sbind (attempt (composeCached E st lo now k path)) (\<lambda>r.
                     ret (case r of Ok v \<Rightarrow> formatValue E v | _ \<Rightarrow> nilBulk))))"

definition cmdMget :: "ext \<Rightarrow> 's store \<Rightarrow> 's store \<Rightarrow> gotime \<Rightarrow> nat \<Rightarrow> string list \<Rightarrow> ('s, string) step" where
  "cmdMget E st lo now k args =
     sbind (staleRefused E now) (\<lambda>_.
       if length args < 2 then fail (arity ''mget'')
       else sfold (\<lambda>p resp. sbind (getOrNil E st lo now k p) (\<lambda>r. ret (resp @ r))) (tl args) (arrayHead (length (tl args))))"

fun msetPairs :: "ext \<Rightarrow> 's store \<Rightarrow> gotime \<Rightarrow> string list \<Rightarrow> ('s, unit) step" where
  "msetPairs E st now (path # val # rest) =
     sbind (assertKeyType st now path ''string'') (\<lambda>_.
     sbind (writeString E st now (EConst (VString val)) path) (\<lambda>_.
     sbind (setKeyType path ''string'') (\<lambda>_. msetPairs E st now rest)))"
| "msetPairs E st now _ = ret ()"

definition cmdMset :: "ext \<Rightarrow> 's store \<Rightarrow> gotime \<Rightarrow> string list \<Rightarrow> ('s, string) step" where
  "cmdMset E st now args =
     (if length args < 3 \<or> odd (length (tl args)) then fail (arity ''mset'')
      else sbind (msetPairs E st now (tl args)) (\<lambda>_. ret okReply))"

definition assertOrAbsent :: "'s store \<Rightarrow> gotime \<Rightarrow> string \<Rightarrow> string \<Rightarrow> ('s, unit) step" where
  "assertOrAbsent st now key want =
     sbind (attempt (assertKeyType st now key want)) (\<lambda>r.
       case r of
         Err e \<Rightarrow> sbind (keyTypeOf st now key) (\<lambda>t. if t \<noteq> ''none'' then fail e else ret ())
       | _ \<Rightarrow> ret ())"

definition cmdHset :: "ext \<Rightarrow> 's store \<Rightarrow> gotime \<Rightarrow> string list \<Rightarrow> ('s, string) step" where
  "cmdHset E st now args =
     (case args of
        _ # key # field # val # _ \<Rightarrow>
          sbind (assertOrAbsent st now key ''hash'') (\<lambda>_.
          sbind (writeString E st now (EConst (VString val)) (key @ '':'' @ field)) (\<lambda>_.
          sbind (setKeyType key ''hash'') (\<lambda>_. ret (intReply 1))))
      | _ \<Rightarrow> fail (arity ''hset''))"

definition cmdHget :: "ext \<Rightarrow> 's store \<Rightarrow> 's store \<Rightarrow> gotime \<Rightarrow> nat \<Rightarrow> string list \<Rightarrow> ('s, string) step" where
  "cmdHget E st lo now k args =
     sbind (staleRefused E now) (\<lambda>_.
       case args of
         _ # key # field # _ \<Rightarrow> getOrNil E st lo now k (key @ '':'' @ field)
       | _ \<Rightarrow> fail (arity ''hget''))"

definition hashFields :: "'s store \<Rightarrow> gotime \<Rightarrow> string \<Rightarrow> string \<Rightarrow> string list \<Rightarrow> ('s, string list) step" where
  "hashFields st now pre path fs =
     (if \<not> HasPrefix path pre then ret fs
      else sbind (getCurrent st now path) (\<lambda>c.
        ret (case c of
               Some a \<Rightarrow> if isTombstone a then fs else fs @ [drop (length pre) path]
             | None \<Rightarrow> fs)))"

definition hgetallOne ::
    "ext \<Rightarrow> 's store \<Rightarrow> 's store \<Rightarrow> gotime \<Rightarrow> nat \<Rightarrow> string \<Rightarrow> string \<Rightarrow> string \<Rightarrow> ('s, string) step" where
  "hgetallOne E st lo now k pre f resp =
     sbind (serveCached E lo now k (pre @ f)) (\<lambda>v.
     sbind (case v of
              Some v \<Rightarrow> ret (formatValue E v)
            | None \<Rightarrow>
                sbind (attempt (composeCached E st lo now k (pre @ f))) (\<lambda>r.
                  ret (case r of Ok v \<Rightarrow> formatValue E v | _ \<Rightarrow> [])))
       (\<lambda>valStr. ret (resp @ bulkString f @ (if valStr \<noteq> [] then valStr else nilBulk))))"

definition cmdHgetall :: "ext \<Rightarrow> 's store \<Rightarrow> 's store \<Rightarrow> gotime \<Rightarrow> nat \<Rightarrow> string list \<Rightarrow> ('s, string) step" where
  "cmdHgetall E st lo now k args =
     sbind (staleRefused E now) (\<lambda>_.
       case args of
         _ # key # _ \<Rightarrow>
           (let pre = key @ '':'' in
            sbind (frontierPaths st now) (\<lambda>ps.
            sbind (sfold (hashFields st now pre) ps []) (\<lambda>fs.
            sfold (hgetallOne E st lo now k pre) fs (arrayHead (length fs * 2)))))
       | _ \<Rightarrow> fail (arity ''hgetall''))"

text \<open>\<open>time.Duration(n) * unit\<close> wraps around in 64 bits.\<close>

definition goDuration :: "int \<Rightarrow> int \<Rightarrow> int" where
  "goDuration n unit = sint (of_int n * of_int unit :: int64)"

definition cmdExpire :: "'s store \<Rightarrow> gotime \<Rightarrow> string list \<Rightarrow> ('s, string) step" where
  "cmdExpire st now args =
     (case args of
        _ # path # secs # _ \<Rightarrow>
          (case ParseInt secs of
             None \<Rightarrow> fail ''invalid expire time''
           | Some seconds \<Rightarrow>
               if seconds \<le> 0 then ret (intReply 0)
               else
                 sbind (getCurrent st now path) (\<lambda>c.
                   case c of
                     None \<Rightarrow> ret (intReply 0)
                   | Some a \<Rightarrow>
                       if isTombstone a then ret (intReply 0)
                       else
                         sbind (appendAtom st now (aExpr a) path [aHash a] (now + goDuration seconds 1000000000)) (\<lambda>_.
                           ret (intReply 1))))
      | _ \<Rightarrow> fail (arity ''expire''))"

definition cmdTtl :: "'s store \<Rightarrow> gotime \<Rightarrow> string list \<Rightarrow> ('s, string) step" where
  "cmdTtl st now args =
     (case args of
        _ # path # _ \<Rightarrow>
          sbind (getCurrent st now path) (\<lambda>c.
            ret (case c of
                   None \<Rightarrow> intReply (-2)
                 | Some a \<Rightarrow>
                     if isTombstone a then intReply (-2)
                     else if IsZeroTime (aExpiresAt a) then intReply (-1)
                     else if aExpiresAt a - now \<le> 0 then intReply (-2)
                     else intReply (int (secondsTrunc (nat (min (aExpiresAt a - now) (2 ^ 63 - 1)))))))
      | _ \<Rightarrow> fail (arity ''ttl''))"

definition extendedReads :: "string list" where
  "extendedReads =
     [''STRLEN'', ''LLEN'', ''LRANGE'', ''LINDEX'', ''LPOP'', ''RPOP'',
      ''SMEMBERS'', ''SCARD'', ''SISMEMBER'', ''ZSCORE'', ''ZCARD'', ''ZRANGE'',
      ''HMGET'', ''HLEN'', ''HEXISTS'', ''HKEYS'', ''HVALS'',
      ''XLEN'', ''XRANGE'', ''KEYS'', ''SCAN'']"

definition isExtendedRead :: "string \<Rightarrow> bool" where
  "isExtendedRead cmd \<longleftrightarrow> cmd \<in> set extendedReads"

text \<open>
  \<open>HandleCommand\<close>; the argument \<open>hx\<close> is \<open>HandleExtended\<close> (\<open>None\<close> when it does not know the
  command).
\<close>

definition HandleCommand ::
    "(string list \<Rightarrow> ('s, string option) step) \<Rightarrow> ext \<Rightarrow> 's store \<Rightarrow> 's store \<Rightarrow> gotime \<Rightarrow> nat \<Rightarrow> string list
      \<Rightarrow> ('s, string) step" where
  "HandleCommand hx E st lo now k args =
     (case args of
        [] \<Rightarrow> fail ''empty command''
      | c # _ \<Rightarrow>
          (let cmd = ToUpper E c in
           if cmd = ''PING'' then ret (''+PONG'' @ crlf)
           else if cmd = ''SET'' then cmdSet E st now args
           else if cmd = ''GET'' then cmdGet E st lo now k args
           else if cmd = ''DEL'' then cmdDel st now args
           else if cmd = ''EXISTS'' then cmdExists st now args
           else if cmd = ''DBSIZE'' then cmdDbsize st now
           else if cmd = ''MGET'' then cmdMget E st lo now k args
           else if cmd = ''MSET'' then cmdMset E st now args
           else if cmd = ''HSET'' then cmdHset E st now args
           else if cmd = ''HGET'' then cmdHget E st lo now k args
           else if cmd = ''HGETALL'' then cmdHgetall E st lo now k args
           else if cmd = ''EXPIRE'' then cmdExpire st now args
           else if cmd = ''TTL'' then cmdTtl st now args
           else
             sbind (if isExtendedRead cmd then staleRefused E now else ret ()) (\<lambda>_.
             sbind (hx args) (\<lambda>r.
               case r of
                 Some resp \<Rightarrow> ret resp
               | None \<Rightarrow> fail (''unknown command '' @ [CHR 39] @ cmd @ [CHR 39])))))"

end
