(* ===== verification/Extended.thy ===== *)
theory Extended
  imports Server "HOL-Library.Product_Lexorder"
begin

text \<open>
  \<open>HandleExtended\<close> of \<open>internal/protocol/resp3/extended.go\<close>: counters, lists, sets, sorted
  sets, streams and the generic commands, as handlers of the state of theory \<open>Server\<close>.
  The result \<open>None\<close> stands for a command that is not known.

  SREM, ZREM, RPUSH and XADD change a Go map or the backing array of a slice in place,
  and the value they change may be shared with other keys.  They are the argument \<open>ip\<close> of
  \<open>HandleExtended\<close>; every other command builds new values, for which the model by value is
  exact.  \<open>start\<close> is the time when the server started.
\<close>

type_synonym 's xstep = "('s, string option) step"

definition reply :: "string \<Rightarrow> 's xstep" where
  "reply r = ret (Some r)"

definition errArgs :: string where
  "errArgs = ''ERR wrong number of arguments'' @ crlf"

definition errInt :: string where
  "errInt = ''ERR value is not an integer or out of range'' @ crlf"

definition errExpire :: string where
  "errExpire = ''ERR invalid expire time'' @ crlf"

definition wrongTypeResp :: string where
  "wrongTypeResp = ''-ERR '' @ wrongTypeMsg @ crlf"

section \<open>Value helpers\<close>

definition putValue :: "ext \<Rightarrow> 's store \<Rightarrow> gotime \<Rightarrow> string \<Rightarrow> Value \<Rightarrow> gotime \<Rightarrow> ('s, unit) step" where
  "putValue E st now path v expiresAt =
     sbind (newConst E v) (\<lambda>e.
     sbind (attempt (appendAtom st now e path [] expiresAt)) (\<lambda>_. ret ()))"

definition putTombstone :: "'s store \<Rightarrow> gotime \<Rightarrow> string \<Rightarrow> ('s, unit) step" where
  "putTombstone st now path =
     sbind (attempt (appendAtom st now (EConst VNull) path [] zeroTime)) (\<lambda>_. ret ())"

definition toString :: "ext \<Rightarrow> Value \<Rightarrow> string option" where
  "toString E v =
     (case v of
        VString s \<Rightarrow> Some s
      | VInt i \<Rightarrow> Some (FormatInt (sint i))
      | VFloat f \<Rightarrow> Some (fmtFloatF E f)
      | VBool b \<Rightarrow> Some (if b then ''1'' else ''0'')
      | _ \<Rightarrow> None)"

definition elemString :: "ext \<Rightarrow> Value \<Rightarrow> string" where
  "elemString E v = (case toString E v of Some s \<Rightarrow> s | None \<Rightarrow> Sprint E v)"

definition bulkArray :: "string list \<Rightarrow> string" where
  "bulkArray xs = arrayHead (length xs) @ concat (map bulkString xs)"

text \<open>The type check with the WRONGTYPE reply, and its form that lets absent keys pass.\<close>

definition guardType :: "'s store \<Rightarrow> gotime \<Rightarrow> string \<Rightarrow> string \<Rightarrow> 's xstep \<Rightarrow> 's xstep" where
  "guardType st now key want m =
     sbind (attempt (assertKeyType st now key want)) (\<lambda>r.
       case r of Err e \<Rightarrow> reply wrongTypeResp | _ \<Rightarrow> m)"

definition guardOrAbsent :: "'s store \<Rightarrow> gotime \<Rightarrow> string \<Rightarrow> string \<Rightarrow> 's xstep \<Rightarrow> 's xstep" where
  "guardOrAbsent st now key want m =
     sbind (attempt (assertOrAbsent st now key want)) (\<lambda>r.
       case r of Err e \<Rightarrow> reply wrongTypeResp | _ \<Rightarrow> m)"

text \<open>\<open>int64\<close> arithmetic wraps around.\<close>

definition wrap64 :: "int \<Rightarrow> int" where
  "wrap64 i = sint (of_int i :: int64)"

section \<open>Counters and strings\<close>

definition incrDelta :: "string \<Rightarrow> string list \<Rightarrow> int option" where
  "incrDelta cmd args =
     (if (cmd = ''INCRBY'' \<or> cmd = ''DECRBY'') \<and> length args \<ge> 3 then
        map_option (\<lambda>d. if cmd = ''DECRBY'' then wrap64 (- d) else d) (ParseInt (args ! 2))
      else Some (if cmd = ''DECR'' then -1 else 1))"

definition incrStore :: "ext \<Rightarrow> 's store \<Rightarrow> gotime \<Rightarrow> string \<Rightarrow> int \<Rightarrow> 's xstep" where
  "incrStore E st now key n =
     sbind (putValue E st now key (VString (FormatInt n)) zeroTime) (\<lambda>_.
     sbind (setKeyType key ''string'') (\<lambda>_. reply (intReply n)))"

definition cmdIncr :: "ext \<Rightarrow> 's store \<Rightarrow> gotime \<Rightarrow> string \<Rightarrow> string list \<Rightarrow> 's xstep" where
  "cmdIncr E st now cmd args =
     (if length args < 2 then reply errArgs
      else
        case incrDelta cmd args of
          None \<Rightarrow> reply (''ERR value is not an integer'' @ crlf)
        | Some delta \<Rightarrow>
            guardType st now (args ! 1) ''string''
              (sbind (curValue st now (args ! 1)) (\<lambda>c.
                 case c of
                   None \<Rightarrow> incrStore E st now (args ! 1) (wrap64 delta)
                 | Some (v, _) \<Rightarrow>
                     (case toString E v of
                        None \<Rightarrow> reply wrongTypeResp
                      | Some str \<Rightarrow>
                          (case ParseInt (TrimSpace E str) of
                             None \<Rightarrow> reply errInt
                           | Some n \<Rightarrow> incrStore E st now (args ! 1) (wrap64 (n + delta)))))))"

definition cmdAppend :: "ext \<Rightarrow> 's store \<Rightarrow> gotime \<Rightarrow> string list \<Rightarrow> 's xstep" where
  "cmdAppend E st now args =
     (if length args < 3 then reply errArgs
      else
        let fin = (\<lambda>cur.
          sbind (putValue E st now (args ! 1) (VString cur) zeroTime) (\<lambda>_.
          sbind (setKeyType (args ! 1) ''string'') (\<lambda>_. reply (intReply (int (length cur)))))) in
        guardType st now (args ! 1) ''string''
          (sbind (curValue st now (args ! 1)) (\<lambda>c.
             case c of
               None \<Rightarrow> fin (args ! 2)
             | Some (v, _) \<Rightarrow>
                 (case toString E v of
                    None \<Rightarrow> reply wrongTypeResp
                  | Some str \<Rightarrow> fin (str @ args ! 2)))))"

definition cmdStrlen :: "ext \<Rightarrow> 's store \<Rightarrow> gotime \<Rightarrow> string list \<Rightarrow> 's xstep" where
  "cmdStrlen E st now args =
     (if length args < 2 then reply errArgs
      else
        sbind (curValue st now (args ! 1)) (\<lambda>c.
          reply (case c of
                   None \<Rightarrow> intReply 0
                 | Some (v, _) \<Rightarrow>
                     (case toString E v of None \<Rightarrow> wrongTypeResp | Some str \<Rightarrow> intReply (int (length str))))))"

definition cmdGetset :: "ext \<Rightarrow> 's store \<Rightarrow> gotime \<Rightarrow> string list \<Rightarrow> 's xstep" where
  "cmdGetset E st now args =
     (if length args < 3 then reply errArgs
      else
        guardType st now (args ! 1) ''string''
          (sbind (curValue st now (args ! 1)) (\<lambda>c.
           let old = (case c of
                        Some (v, _) \<Rightarrow> (case toString E v of Some str \<Rightarrow> formatBulkString str | None \<Rightarrow> nilBulk)
                      | None \<Rightarrow> nilBulk) in
           sbind (putValue E st now (args ! 1) (VString (args ! 2)) zeroTime) (\<lambda>_.
           sbind (setKeyType (args ! 1) ''string'') (\<lambda>_. reply old)))))"

definition cmdSetnx :: "ext \<Rightarrow> 's store \<Rightarrow> gotime \<Rightarrow> string list \<Rightarrow> 's xstep" where
  "cmdSetnx E st now args =
     (if length args < 3 then reply errArgs
      else
        sbind (curValue st now (args ! 1)) (\<lambda>c.
          case c of
            Some _ \<Rightarrow> reply (intReply 0)
          | None \<Rightarrow>
              sbind (putValue E st now (args ! 1) (VString (args ! 2)) zeroTime) (\<lambda>_.
              sbind (setKeyType (args ! 1) ''string'') (\<lambda>_. reply (intReply 1)))))"

definition cmdSetex :: "ext \<Rightarrow> 's store \<Rightarrow> gotime \<Rightarrow> int \<Rightarrow> string list \<Rightarrow> 's xstep" where
  "cmdSetex E st now unit args =
     (if length args < 4 then reply errArgs
      else
        case ParseInt (args ! 2) of
          None \<Rightarrow> reply errExpire
        | Some n \<Rightarrow>
            if n \<le> 0 then reply errExpire
            else
              sbind (putValue E st now (args ! 1) (VString (args ! 3)) (now + goDuration n unit)) (\<lambda>_.
              sbind (setKeyType (args ! 1) ''string'') (\<lambda>_. reply okReply)))"

section \<open>Lists\<close>

text \<open>LPUSH: every element goes to the front, so the last one ends leftmost.\<close>

definition cmdLpush :: "ext \<Rightarrow> 's store \<Rightarrow> gotime \<Rightarrow> string list \<Rightarrow> 's xstep" where
  "cmdLpush E st now args =
     (if length args < 3 then reply errArgs
      else
        let fin = (\<lambda>arr0.
          let arr = fold (\<lambda>e arr. VString e # arr) (drop 2 args) arr0 in
          sbind (putValue E st now (args ! 1) (VArray arr) zeroTime) (\<lambda>_.
          sbind (setKeyType (args ! 1) ''list'') (\<lambda>_. reply (intReply (int (length arr)))))) in
        guardType st now (args ! 1) ''list''
          (sbind (curValue st now (args ! 1)) (\<lambda>c.
             case c of
               None \<Rightarrow> fin []
             | Some (VArray a, _) \<Rightarrow> fin a
             | Some _ \<Rightarrow> reply wrongTypeResp)))"

definition popCount :: "string list \<Rightarrow> nat option" where
  "popCount args =
     (if length args \<ge> 3 then
        (case ParseInt (args ! 2) of None \<Rightarrow> None | Some c \<Rightarrow> if c \<le> 0 then None else Some (nat c))
      else Some 1)"

text \<open>The popped elements in the order of the reply, and the rest.\<close>

definition popSplit :: "string \<Rightarrow> nat \<Rightarrow> 'a list \<Rightarrow> 'a list \<times> 'a list" where
  "popSplit cmd n arr =
     (if cmd = ''LPOP'' then (take n arr, drop n arr)
      else (rev (drop (length arr - n) arr), take (length arr - n) arr))"

definition cmdPop :: "ext \<Rightarrow> 's store \<Rightarrow> gotime \<Rightarrow> string \<Rightarrow> string list \<Rightarrow> 's xstep" where
  "cmdPop E st now cmd args =
     (if length args < 2 then reply errArgs
      else
        guardType st now (args ! 1) ''list''
          (case popCount args of
             None \<Rightarrow> reply errInt
           | Some c \<Rightarrow>
               sbind (curValue st now (args ! 1)) (\<lambda>cv.
                 case cv of
                   None \<Rightarrow> reply nilBulk
                 | Some (VArray arr, _) \<Rightarrow>
                     if arr = [] then reply nilBulk
                     else
                       (let n = min c (length arr); (popped, rest) = popSplit cmd n arr in
                        sbind (if rest = []
                               then sbind (putTombstone st now (args ! 1)) (\<lambda>_. delKeyType (args ! 1))
                               else putValue E st now (args ! 1) (VArray rest) zeroTime) (\<lambda>_.
                        reply (if n = 1 then formatBulkString (elemString E (hd popped))
                               else arrayHead (length popped) @
                                 concat (map (\<lambda>p. formatBulkString (elemString E p)) popped))))
                 | Some _ \<Rightarrow> reply wrongTypeResp)))"

definition cmdLlen :: "'s store \<Rightarrow> gotime \<Rightarrow> string list \<Rightarrow> 's xstep" where
  "cmdLlen st now args =
     (if length args < 2 then reply errArgs
      else
        sbind (curValue st now (args ! 1)) (\<lambda>c.
          reply (case c of
                   None \<Rightarrow> intReply 0
                 | Some (VArray arr, _) \<Rightarrow> intReply (int (length arr))
                 | Some _ \<Rightarrow> wrongTypeResp)))"

text \<open>The bounds of a range: negative numbers count from the end; the part outside is cut off.\<close>

definition rangeBounds :: "nat \<Rightarrow> int \<Rightarrow> int \<Rightarrow> (nat \<times> nat) option" where
  "rangeBounds len start stop =
     (let n = int len;
          a = max 0 (if start < 0 then n + start else start);
          b0 = (if stop < 0 then n + stop else stop);
          b = (if b0 \<ge> n then n - 1 else b0) in
      if a \<ge> n \<or> a > b then None else Some (nat a, nat b))"

definition goRange :: "int \<Rightarrow> int \<Rightarrow> 'a list \<Rightarrow> 'a list" where
  "goRange start stop xs =
     (case rangeBounds (length xs) start stop of
        None \<Rightarrow> []
      | Some (a, b) \<Rightarrow> take (b + 1 - a) (drop a xs))"

definition cmdLrange :: "ext \<Rightarrow> 's store \<Rightarrow> gotime \<Rightarrow> string list \<Rightarrow> 's xstep" where
  "cmdLrange E st now args =
     (if length args < 4 then reply errArgs
      else
        sbind (curValue st now (args ! 1)) (\<lambda>c.
          reply (case c of
                   None \<Rightarrow> arrayHead 0
                 | Some (VArray arr, _) \<Rightarrow>
                     (case (ParseInt (args ! 2), ParseInt (args ! 3)) of
                        (Some start, Some stop) \<Rightarrow>
                          (let xs = goRange start stop arr in
                           arrayHead (length xs) @ concat (map (\<lambda>e. formatBulkString (elemString E e)) xs))
                      | _ \<Rightarrow> errInt)
                 | Some _ \<Rightarrow> wrongTypeResp)))"

definition cmdLindex :: "ext \<Rightarrow> 's store \<Rightarrow> gotime \<Rightarrow> string list \<Rightarrow> 's xstep" where
  "cmdLindex E st now args =
     (if length args < 3 then reply errArgs
      else
        sbind (curValue st now (args ! 1)) (\<lambda>c.
          reply (case c of
                   None \<Rightarrow> nilBulk
                 | Some (VArray arr, _) \<Rightarrow>
                     (case ParseInt (args ! 2) of
                        None \<Rightarrow> errInt
                      | Some i \<Rightarrow>
                          (let idx = (if i < 0 then int (length arr) + i else i) in
                           if idx < 0 \<or> idx \<ge> int (length arr) then nilBulk
                           else formatBulkString (elemString E (arr ! nat idx))))
                 | Some _ \<Rightarrow> wrongTypeResp)))"

section \<open>Sets\<close>

text \<open>The members that are new are counted, every member is stored with the value 1.\<close>

definition setAdd :: "string \<Rightarrow> nat \<times> (string, Value) gomap \<Rightarrow> nat \<times> (string, Value) gomap" where
  "setAdd m a =
     (case a of (added, st) \<Rightarrow>
        (if map_of st m = None then added + 1 else added, AList.update m (VInt 1) st))"

definition cmdSadd :: "ext \<Rightarrow> 's store \<Rightarrow> gotime \<Rightarrow> string list \<Rightarrow> 's xstep" where
  "cmdSadd E st now args =
     (if length args < 3 then reply errArgs
      else
        let fin = (\<lambda>m0.
          (case fold setAdd (drop 2 args) (0, m0) of (added, m) \<Rightarrow>
             sbind (putValue E st now (args ! 1) (VRecord m) zeroTime) (\<lambda>_.
             sbind (setKeyType (args ! 1) ''set'') (\<lambda>_. reply (intReply (int added)))))) in
        guardType st now (args ! 1) ''set''
          (sbind (curValue st now (args ! 1)) (\<lambda>c.
             case c of
               None \<Rightarrow> fin []
             | Some (v, _) \<Rightarrow>
                 (case v of
                    VRecord m \<Rightarrow> if isSetRecord v then fin m else reply wrongTypeResp
                  | _ \<Rightarrow> reply wrongTypeResp))))"

definition cmdSmembers :: "'s store \<Rightarrow> gotime \<Rightarrow> string list \<Rightarrow> 's xstep" where
  "cmdSmembers st now args =
     (if length args < 2 then reply errArgs
      else
        sbind (curValue st now (args ! 1)) (\<lambda>c.
          reply (case c of
                   None \<Rightarrow> arrayHead 0
                 | Some (v, _) \<Rightarrow>
                     (case v of
                        VRecord m \<Rightarrow> if isSetRecord v then bulkArray (sortStrings (map fst m)) else wrongTypeResp
                      | _ \<Rightarrow> wrongTypeResp))))"

definition cmdScard :: "'s store \<Rightarrow> gotime \<Rightarrow> string list \<Rightarrow> 's xstep" where
  "cmdScard st now args =
     (if length args < 2 then reply errArgs
      else
        sbind (curValue st now (args ! 1)) (\<lambda>c.
          reply (case c of
                   None \<Rightarrow> intReply 0
                 | Some (v, _) \<Rightarrow>
                     (case v of
                        VRecord m \<Rightarrow> if isSetRecord v then intReply (int (length m)) else wrongTypeResp
                      | _ \<Rightarrow> wrongTypeResp))))"

definition cmdSismember :: "'s store \<Rightarrow> gotime \<Rightarrow> string list \<Rightarrow> 's xstep" where
  "cmdSismember st now args =
     (if length args < 3 then reply errArgs
      else
        sbind (curValue st now (args ! 1)) (\<lambda>c.
          reply (case c of
                   None \<Rightarrow> intReply 0
                 | Some (v, _) \<Rightarrow>
                     (case v of
                        VRecord m \<Rightarrow>
                          if isSetRecord v then intReply (if map_of m (args ! 2) = None then 0 else 1)
                          else wrongTypeResp
                      | _ \<Rightarrow> wrongTypeResp))))"

section \<open>Sorted sets\<close>

text \<open>
  The order of float64: sign and magnitude; both zeros have the key 0.  A NaN has a magnitude
  above that of the infinities and compares with nothing.
\<close>

definition f64NaN :: "64 word \<Rightarrow> bool" where
  "f64NaN w \<longleftrightarrow> 0x7FF0000000000000 < take_bit 63 w"

definition f64key :: "64 word \<Rightarrow> int" where
  "f64key w = (if bit w 63 then - uint (take_bit 63 w) else uint (take_bit 63 w))"

definition scoreOf :: "Value \<Rightarrow> 64 word" where
  "scoreOf v = (case v of VFloat f \<Rightarrow> f | _ \<Rightarrow> 0)"

definition zsetOrder :: "ext \<Rightarrow> (string \<times> 64 word) list \<Rightarrow> (string \<times> 64 word) list" where
  "zsetOrder E all =
     (if list_ex (\<lambda>(m, s). f64NaN s) all then sortNaN E all
      else sort_key (\<lambda>(m, s). (f64key s, m)) all)"

fun zaddPairs :: "ext \<Rightarrow> string list \<Rightarrow> nat \<times> (string, Value) gomap \<Rightarrow> (nat \<times> (string, Value) gomap) option" where
  "zaddPairs E (sc # m # rest) (added, z) =
     (case parseFloat E sc of
        None \<Rightarrow> None
      | Some f \<Rightarrow>
          zaddPairs E rest
            (if map_of z m = None then added + 1 else added, AList.update m (VFloat f) z))"
| "zaddPairs E _ a = Some a"

definition cmdZadd :: "ext \<Rightarrow> 's store \<Rightarrow> gotime \<Rightarrow> string list \<Rightarrow> 's xstep" where
  "cmdZadd E st now args =
     (if length args < 4 \<or> odd (length args - 2) then reply errArgs
      else
        let fin = (\<lambda>z0.
          (case zaddPairs E (drop 2 args) (0, z0) of
             None \<Rightarrow> reply (''ERR value is not a valid float'' @ crlf)
           | Some (added, z) \<Rightarrow>
               sbind (putValue E st now (args ! 1) (VRecord z) zeroTime) (\<lambda>_.
               sbind (setKeyType (args ! 1) ''zset'') (\<lambda>_. reply (intReply (int added)))))) in
        guardOrAbsent st now (args ! 1) ''zset''
          (sbind (curValue st now (args ! 1)) (\<lambda>c.
             case c of
               None \<Rightarrow> fin []
             | Some (v, _) \<Rightarrow>
                 (case v of
                    VRecord m \<Rightarrow> if m \<noteq> [] \<and> \<not> isZSetRecord v then reply wrongTypeResp else fin m
                  | _ \<Rightarrow> reply wrongTypeResp))))"

definition cmdZscore :: "ext \<Rightarrow> 's store \<Rightarrow> gotime \<Rightarrow> string list \<Rightarrow> 's xstep" where
  "cmdZscore E st now args =
     (if length args < 3 then reply errArgs
      else
        sbind (curValue st now (args ! 1)) (\<lambda>c.
          reply (case c of
                   None \<Rightarrow> nilBulk
                 | Some (v, _) \<Rightarrow>
                     (case v of
                        VRecord z \<Rightarrow>
                          if \<not> isZSetRecord v then wrongTypeResp
                          else
                            (case map_of z (args ! 2) of
                               Some (VFloat f) \<Rightarrow> formatBulkString (fmtFloatF E f)
                             | _ \<Rightarrow> nilBulk)
                      | _ \<Rightarrow> wrongTypeResp))))"

definition cmdZcard :: "'s store \<Rightarrow> gotime \<Rightarrow> string list \<Rightarrow> 's xstep" where
  "cmdZcard st now args =
     (if length args < 2 then reply errArgs
      else
        sbind (curValue st now (args ! 1)) (\<lambda>c.
          reply (case c of
                   None \<Rightarrow> intReply 0
                 | Some (v, _) \<Rightarrow>
                     (case v of
                        VRecord z \<Rightarrow> if isZSetRecord v then intReply (int (length z)) else wrongTypeResp
                      | _ \<Rightarrow> wrongTypeResp))))"

definition zrangeReply :: "ext \<Rightarrow> bool \<Rightarrow> (string \<times> 64 word) list \<Rightarrow> string" where
  "zrangeReply E withScores xs =
     (if withScores \<and> xs \<noteq> [] then
        arrayHead (length xs * 2) @ concat (map (\<lambda>(m, s). bulkString m @ bulkString (fmtFloatF E s)) xs)
      else bulkArray (map fst xs))"

definition cmdZrange :: "ext \<Rightarrow> 's store \<Rightarrow> gotime \<Rightarrow> string list \<Rightarrow> 's xstep" where
  "cmdZrange E st now args =
     (if length args < 4 then reply errArgs
      else
        let withScores = (length args > 4 \<and> ToUpper E (args ! 4) = ''WITHSCORES'') in
        sbind (curValue st now (args ! 1)) (\<lambda>c.
          reply (case c of
                   None \<Rightarrow> arrayHead 0
                 | Some (v, _) \<Rightarrow>
                     (case v of
                        VRecord z \<Rightarrow>
                          if \<not> isZSetRecord v then wrongTypeResp
                          else
                            (case (ParseInt (args ! 2), ParseInt (args ! 3)) of
                               (Some start, Some stop) \<Rightarrow>
                                 zrangeReply E withScores
                                   (goRange start stop (zsetOrder E (map (\<lambda>(m, w). (m, scoreOf w)) z)))
                             | _ \<Rightarrow> errInt)
                      | _ \<Rightarrow> wrongTypeResp))))"

section \<open>Keys\<close>

definition cmdType :: "'s store \<Rightarrow> gotime \<Rightarrow> string list \<Rightarrow> 's xstep" where
  "cmdType st now args =
     (if length args < 2 then reply errArgs
      else
        sbind (curValue st now (args ! 1)) (\<lambda>c.
          case c of
            None \<Rightarrow>
              sbind (frontierPaths st now) (\<lambda>ps.
                reply (if list_ex (\<lambda>p. HasPrefix p (args ! 1 @ '':'')) ps then ''+hash'' @ crlf else ''+none'' @ crlf))
          | Some (v, _) \<Rightarrow>
              reply (case v of
                       VArray _ \<Rightarrow> ''+list'' @ crlf
                     | VRecord _ \<Rightarrow> ''+hash'' @ crlf
                     | _ \<Rightarrow> ''+string'' @ crlf)))"

text \<open>A path below a key that the index knows as a hash is listed as that key.\<close>

definition collapse :: "'s server \<Rightarrow> string \<Rightarrow> string" where
  "collapse sv p =
     (case LastIndexChar (CHR '':'') p of
        Some i \<Rightarrow> if i > 0 \<and> isHashKey (take i p) sv then take i p else p
      | None \<Rightarrow> p)"

definition keysMatching :: "'s server \<Rightarrow> bool \<Rightarrow> string \<Rightarrow> string list \<Rightarrow> string list" where
  "keysMatching sv matchAll pre ps =
     sortStrings (remdups (map (collapse sv)
       (filter (\<lambda>p. matchAll \<or> HasPrefix (collapse sv p) pre \<or> HasPrefix p pre) ps)))"

definition cmdKeys :: "'s store \<Rightarrow> gotime \<Rightarrow> string list \<Rightarrow> 's xstep" where
  "cmdKeys st now args =
     (if length args < 2 then reply errArgs
      else
        let pat = args ! 1;
            matchAll = (pat = ''*'' \<or> pat = []);
            pre = (if matchAll then [] else if HasSuffix pat ''*'' then TrimSuffix pat ''*'' else pat) in
        sbind (frontierPaths st now) (\<lambda>ps sv. reply (bulkArray (keysMatching sv matchAll pre ps)) sv))"

text \<open>The options of SCAN; the cursor is parsed and not used.\<close>

function scanOptions :: "ext \<Rightarrow> string list \<Rightarrow> string \<times> nat \<Rightarrow> string \<times> nat" where
  "scanOptions E [] pc = pc"
| "scanOptions E (a # rest) pc =
     (if ToUpper E a = ''MATCH'' \<and> rest \<noteq> [] then scanOptions E (tl rest) (hd rest, snd pc)
      else if ToUpper E a = ''COUNT'' \<and> rest \<noteq> [] then
        scanOptions E (tl rest)
          (fst pc, case ParseInt (hd rest) of Some c \<Rightarrow> if c > 0 then nat c else snd pc | None \<Rightarrow> snd pc)
      else scanOptions E rest pc)"
  by pat_completeness auto
termination
  by (relation "measure (\<lambda>(E, args, pc). length args)") auto

definition cmdScan :: "ext \<Rightarrow> 's store \<Rightarrow> gotime \<Rightarrow> string list \<Rightarrow> 's xstep" where
  "cmdScan E st now args =
     (case scanOptions E (tl args) (''*'', 100) of (pat, count) \<Rightarrow>
        let pre = (if pat \<noteq> ''*'' \<and> pat \<noteq> [] then TrimSuffix pat ''*'' else []) in
        sbind (frontierPaths st now) (\<lambda>ps sv.
          reply (''*2'' @ crlf @ '':0'' @ crlf @ bulkArray (take count (keysMatching sv (pre = []) pre ps))) sv))"

text \<open>\<open>Duration.Round(time.Second)\<close> of a duration that is not negative.\<close>

definition roundSecond :: "int \<Rightarrow> int" where
  "roundSecond d = (d + 500000000) div 1000000000 * 1000000000"

definition cmdInfo :: "ext \<Rightarrow> gotime \<Rightarrow> 's store \<Rightarrow> gotime \<Rightarrow> 's xstep" where
  "cmdInfo E start st now =
     sbind (frontierPaths st now) (\<lambda>ps.
       reply (formatBulkString (''wavicle_version:1.0'' @ crlf @ ''uptime:'' @ fmtDuration E (roundSecond (now - start)) @
         crlf @ ''keys:'' @ showNat (length ps) @ crlf @ ''shards:32'' @ crlf)))"

definition cmdFlush :: "'s store \<Rightarrow> gotime \<Rightarrow> 's xstep" where
  "cmdFlush st now =
     sbind (frontierPaths st now) (\<lambda>ps.
     sbind (sfold (\<lambda>p _. putTombstone st now p) ps ()) (\<lambda>_.
     sbind clearKeyTypes (\<lambda>_. reply okReply)))"

section \<open>Deadlines\<close>

text \<open>The write of PEXPIRE and PERSIST: the current expression with another deadline.\<close>

definition rewriteDeadline :: "'s store \<Rightarrow> gotime \<Rightarrow> string \<Rightarrow> expr \<Rightarrow> gotime \<Rightarrow> 's xstep" where
  "rewriteDeadline st now path e expiresAt =
     sbind (attempt (appendAtom st now e path [] expiresAt)) (\<lambda>_. reply (intReply 1))"

definition cmdPexpire :: "'s store \<Rightarrow> gotime \<Rightarrow> string list \<Rightarrow> 's xstep" where
  "cmdPexpire st now args =
     (if length args < 3 then reply errArgs
      else
        case ParseInt (args ! 2) of
          None \<Rightarrow> reply errExpire
        | Some ms \<Rightarrow>
            if ms \<le> 0 then reply errExpire
            else
              sbind (getCurrent st now (args ! 1)) (\<lambda>c.
                case c of
                  None \<Rightarrow> reply (intReply 0)
                | Some a \<Rightarrow>
                    if isTombstone a then reply (intReply 0)
                    else rewriteDeadline st now (args ! 1) (aExpr a) (now + goDuration ms 1000000)))"

definition cmdPttl :: "'s store \<Rightarrow> gotime \<Rightarrow> string list \<Rightarrow> 's xstep" where
  "cmdPttl st now args =
     (if length args < 2 then reply errArgs
      else
        sbind (getCurrent st now (args ! 1)) (\<lambda>c.
          reply (case c of
                   None \<Rightarrow> intReply (-2)
                 | Some a \<Rightarrow>
                     if isTombstone a then intReply (-2)
                     else if IsZeroTime (aExpiresAt a) then intReply (-1)
                     else
                       (let ms = min (aExpiresAt a - now) (2 ^ 63 - 1) div 1000000 in
                        if ms \<le> 0 then intReply (-2) else intReply ms))))"

definition cmdPersist :: "'s store \<Rightarrow> gotime \<Rightarrow> string list \<Rightarrow> 's xstep" where
  "cmdPersist st now args =
     (if length args < 2 then reply errArgs
      else
        sbind (getCurrent st now (args ! 1)) (\<lambda>c.
          case c of
            None \<Rightarrow> reply (intReply 0)
          | Some a \<Rightarrow>
              if isTombstone a \<or> IsZeroTime (aExpiresAt a) then reply (intReply 0)
              else rewriteDeadline st now (args ! 1) (aExpr a) zeroTime))"

section \<open>Streams\<close>

text \<open>\<open>strings.SplitN(id, "-", 2)\<close> cuts at the first dash.\<close>

definition parseStreamID :: "string \<Rightarrow> (int \<times> int) option" where
  "parseStreamID ident =
     (if CHR ''-'' \<notin> set ident then None
      else
        let ms = takeWhile (\<lambda>c. c \<noteq> CHR ''-'') ident; sq = tl (dropWhile (\<lambda>c. c \<noteq> CHR ''-'') ident) in
        case (ParseInt ms, ParseInt sq) of
          (Some a, Some b) \<Rightarrow> if a < 0 \<or> b < 0 then None else Some (a, b)
        | _ \<Rightarrow> None)"

definition cmdXlen :: "'s store \<Rightarrow> gotime \<Rightarrow> string list \<Rightarrow> 's xstep" where
  "cmdXlen st now args = cmdLlen st now args"

definition recordOf :: "Value \<Rightarrow> (string, Value) gomap" where
  "recordOf v = (case v of VRecord m \<Rightarrow> m | _ \<Rightarrow> [])"

definition entryID :: "ext \<Rightarrow> Value \<Rightarrow> string" where
  "entryID E v =
     (case map_of (recordOf v) ''_id'' of
        None \<Rightarrow> []
      | Some iv \<Rightarrow> (case toString E iv of Some str \<Rightarrow> str | None \<Rightarrow> []))"

definition idLess :: "int \<times> int \<Rightarrow> int \<times> int \<Rightarrow> bool" where
  "idLess a b \<longleftrightarrow> fst a < fst b \<or> (fst a = fst b \<and> snd a < snd b)"

definition inRange :: "ext \<Rightarrow> (int \<times> int) option \<Rightarrow> (int \<times> int) option \<Rightarrow> Value \<Rightarrow> bool" where
  "inRange E lo hi v =
     (case parseStreamID (entryID E v) of
        None \<Rightarrow> False
      | Some i \<Rightarrow> (case lo of None \<Rightarrow> True | Some l \<Rightarrow> \<not> idLess i l) \<and> (case hi of None \<Rightarrow> True | Some h \<Rightarrow> \<not> idLess h i))"

definition entryReply :: "ext \<Rightarrow> Value \<Rightarrow> string" where
  "entryReply E v =
     (let rec = recordOf v; ks = sortStrings (filter (\<lambda>k. k \<noteq> ''_id'') (map fst rec)) in
      ''*2'' @ crlf @ bulkString (entryID E v) @ arrayHead (length ks * 2) @
      concat (map (\<lambda>k. bulkString k @ bulkString (elemString E (the (map_of rec k)))) ks))"

definition cmdXrange :: "ext \<Rightarrow> 's store \<Rightarrow> gotime \<Rightarrow> string list \<Rightarrow> 's xstep" where
  "cmdXrange E st now args =
     (if length args < 4 then reply errArgs
      else
        sbind (curValue st now (args ! 1)) (\<lambda>c.
          reply (case c of
                   None \<Rightarrow> arrayHead 0
                 | Some (VArray arr, _) \<Rightarrow>
                     (let lo = parseStreamID (args ! 2); hi = parseStreamID (args ! 3) in
                      if args ! 2 \<noteq> ''-'' \<and> lo = None then
                        ''ERR invalid stream ID, expected <millis>-<seq> or -'' @ crlf
                      else if args ! 3 \<noteq> ''+'' \<and> hi = None then
                        ''ERR invalid stream ID, expected <millis>-<seq> or +'' @ crlf
                      else
                        (let es = filter (inRange E lo hi) arr in
                         arrayHead (length es) @ concat (map (entryReply E) es)))
                 | Some _ \<Rightarrow> wrongTypeResp)))"

section \<open>Hashes\<close>

fun hmsetPairs :: "ext \<Rightarrow> 's store \<Rightarrow> gotime \<Rightarrow> string \<Rightarrow> string list \<Rightarrow> ('s, unit) step" where
  "hmsetPairs E st now key (f # v # rest) =
     sbind (putValue E st now (key @ '':'' @ f) (VString v) zeroTime) (\<lambda>_. hmsetPairs E st now key rest)"
| "hmsetPairs E st now key _ = ret ()"

definition cmdHmset :: "ext \<Rightarrow> 's store \<Rightarrow> gotime \<Rightarrow> string list \<Rightarrow> 's xstep" where
  "cmdHmset E st now args =
     (if length args < 4 \<or> odd (length args - 2) then reply errArgs
      else
        guardOrAbsent st now (args ! 1) ''hash''
          (sbind (hmsetPairs E st now (args ! 1) (drop 2 args)) (\<lambda>_.
           sbind (setKeyType (args ! 1) ''hash'') (\<lambda>_. reply okReply))))"

definition hmgetOne :: "ext \<Rightarrow> 's store \<Rightarrow> gotime \<Rightarrow> string \<Rightarrow> string \<Rightarrow> string \<Rightarrow> ('s, string) step" where
  "hmgetOne E st now key f resp =
     sbind (curValue st now (key @ '':'' @ f)) (\<lambda>c.
       ret (resp @
         (case c of
            Some (v, _) \<Rightarrow> (case toString E v of Some str \<Rightarrow> formatBulkString str | None \<Rightarrow> nilBulk)
          | None \<Rightarrow> nilBulk)))"

definition cmdHmget :: "ext \<Rightarrow> 's store \<Rightarrow> gotime \<Rightarrow> string list \<Rightarrow> 's xstep" where
  "cmdHmget E st now args =
     (if length args < 3 then reply errArgs
      else
        sbind (sfold (hmgetOne E st now (args ! 1)) (drop 2 args) (arrayHead (length args - 2))) reply)"

definition hdelOne :: "'s store \<Rightarrow> gotime \<Rightarrow> string \<Rightarrow> string \<Rightarrow> nat \<Rightarrow> ('s, nat) step" where
  "hdelOne st now key f deleted =
     sbind (getCurrent st now (key @ '':'' @ f)) (\<lambda>c.
       case c of
         None \<Rightarrow> ret deleted
       | Some _ \<Rightarrow> sbind (putTombstone st now (key @ '':'' @ f)) (\<lambda>_. ret (deleted + 1)))"

fun anyLive :: "'s store \<Rightarrow> gotime \<Rightarrow> string \<Rightarrow> string list \<Rightarrow> ('s, bool) step" where
  "anyLive st now pre [] = ret False"
| "anyLive st now pre (p # ps) =
     (if HasPrefix p pre then
        sbind (curValue st now p) (\<lambda>c. if c \<noteq> None then ret True else anyLive st now pre ps)
      else anyLive st now pre ps)"

definition cmdHdel :: "'s store \<Rightarrow> gotime \<Rightarrow> string list \<Rightarrow> 's xstep" where
  "cmdHdel st now args =
     (if length args < 3 then reply errArgs
      else
        sbind (sfold (hdelOne st now (args ! 1)) (drop 2 args) 0) (\<lambda>deleted.
        sbind (keyTypeOf st now (args ! 1)) (\<lambda>t.
        sbind (if t = ''hash'' then
                 sbind (frontierPaths st now) (\<lambda>ps.
                 sbind (anyLive st now (args ! 1 @ '':'') ps) (\<lambda>remain.
                   if remain then ret () else delKeyType (args ! 1)))
               else ret ()) (\<lambda>_. reply (intReply (int deleted))))))"

text \<open>The fields of a hash with a printable value.\<close>

definition fieldOne ::
    "ext \<Rightarrow> 's store \<Rightarrow> gotime \<Rightarrow> string \<Rightarrow> string \<Rightarrow> (string, string) gomap \<Rightarrow> ('s, (string, string) gomap) step" where
  "fieldOne E st now pre p fs =
     (if HasPrefix p pre then
        sbind (curValue st now p) (\<lambda>c.
          ret (case c of
                 Some (v, _) \<Rightarrow>
                   (case toString E v of Some str \<Rightarrow> AList.update (TrimPrefix p pre) str fs | None \<Rightarrow> fs)
               | None \<Rightarrow> fs))
      else ret fs)"

definition hashFieldsOf :: "ext \<Rightarrow> 's store \<Rightarrow> gotime \<Rightarrow> string \<Rightarrow> ('s, (string, string) gomap) step" where
  "hashFieldsOf E st now key =
     sbind (frontierPaths st now) (\<lambda>ps. sfold (fieldOne E st now (key @ '':'')) ps [])"

definition cmdHinfo :: "ext \<Rightarrow> 's store \<Rightarrow> gotime \<Rightarrow> string \<Rightarrow> string list \<Rightarrow> 's xstep" where
  "cmdHinfo E st now cmd args =
     (if length args < (if cmd = ''HEXISTS'' then 3 else 2) then reply errArgs
      else
        sbind (hashFieldsOf E st now (args ! 1)) (\<lambda>fs.
          reply (if cmd = ''HLEN'' then intReply (int (length fs))
                 else if cmd = ''HEXISTS'' then intReply (if map_of fs (args ! 2) = None then 0 else 1)
                 else if cmd = ''HKEYS'' then bulkArray (sortStrings (map fst fs))
                 else arrayHead (length fs) @
                   concat (map (\<lambda>k. formatBulkString (the (map_of fs k))) (sortStrings (map fst fs))))))"

section \<open>Dispatch\<close>

definition inPlace :: "string list" where
  "inPlace = [''RPUSH'', ''SREM'', ''ZREM'', ''XADD'']"

definition HandleExtended ::
    "(string list \<Rightarrow> 's xstep) \<Rightarrow> gotime \<Rightarrow> ext \<Rightarrow> 's store \<Rightarrow> gotime \<Rightarrow> string list \<Rightarrow> 's xstep" where
  "HandleExtended ip start E st now args =
     (case args of
        [] \<Rightarrow> ret None
      | c # _ \<Rightarrow>
          (let cmd = ToUpper E c in
           if cmd \<in> {''INCR'', ''DECR'', ''INCRBY'', ''DECRBY''} then cmdIncr E st now cmd args
           else if cmd = ''APPEND'' then cmdAppend E st now args
           else if cmd = ''STRLEN'' then cmdStrlen E st now args
           else if cmd = ''GETSET'' then cmdGetset E st now args
           else if cmd = ''SETNX'' then cmdSetnx E st now args
           else if cmd = ''SETEX'' then cmdSetex E st now 1000000000 args
           else if cmd = ''PSETEX'' then cmdSetex E st now 1000000 args
           else if cmd = ''LPUSH'' then cmdLpush E st now args
           else if cmd \<in> {''LPOP'', ''RPOP''} then cmdPop E st now cmd args
           else if cmd = ''LLEN'' then cmdLlen st now args
           else if cmd = ''LRANGE'' then cmdLrange E st now args
           else if cmd = ''LINDEX'' then cmdLindex E st now args
           else if cmd = ''SADD'' then cmdSadd E st now args
           else if cmd = ''SMEMBERS'' then cmdSmembers st now args
           else if cmd = ''SCARD'' then cmdScard st now args
           else if cmd = ''SISMEMBER'' then cmdSismember st now args
           else if cmd = ''ZADD'' then cmdZadd E st now args
           else if cmd = ''ZSCORE'' then cmdZscore E st now args
           else if cmd = ''ZCARD'' then cmdZcard st now args
           else if cmd = ''ZRANGE'' then cmdZrange E st now args
           else if cmd = ''HMSET'' then cmdHmset E st now args
           else if cmd = ''HMGET'' then cmdHmget E st now args
           else if cmd = ''HDEL'' then cmdHdel st now args
           else if cmd \<in> {''HLEN'', ''HEXISTS'', ''HKEYS'', ''HVALS''} then cmdHinfo E st now cmd args
           else if cmd = ''TYPE'' then cmdType st now args
           else if cmd = ''KEYS'' then cmdKeys st now args
           else if cmd = ''SCAN'' then cmdScan E st now args
           else if cmd = ''INFO'' then cmdInfo E start st now
           else if cmd = ''HELLO'' then reply (''%1'' @ crlf @ ''+server'' @ crlf @ ''+wavicle'' @ crlf)
           else if cmd \<in> {''CLIENT'', ''CONFIG'', ''SELECT'', ''AUTH''} then reply okReply
           else if cmd \<in> {''FLUSHDB'', ''FLUSHALL''} then cmdFlush st now
           else if cmd = ''PEXPIRE'' then cmdPexpire st now args
           else if cmd = ''PTTL'' then cmdPttl st now args
           else if cmd = ''PERSIST'' then cmdPersist st now args
           else if cmd \<in> {''EVAL'', ''EVALSHA'', ''SCRIPT'', ''FUNCTION''} then
             reply (''NOSCRIPT Lua scripting is disabled in Wavicle proof mode'' @ crlf)
           else if cmd = ''XLEN'' then cmdXlen st now args
           else if cmd = ''XRANGE'' then cmdXrange E st now args
           else if cmd \<in> set inPlace then ip args
           else ret None))"

end
