(* ===== verification/Connection.thy ===== *)
theory Connection
  imports Server
begin

text \<open>
  \<open>handleConnection\<close> of \<open>server.go\<close>: authentication, transactions and the ACL checks around
  \<open>HandleCommand\<close>.  The local variables of the Go function are the record \<open>conn\<close>;
  \<open>connStep\<close> is one round of its loop for a command that was read, and \<open>serve\<close> the loop over the
  bytes that arrive.  A panic of a handler ends the process, so it ends the loop.
\<close>

record conn =
  cnAuthenticated :: bool
  cnUsername :: string
  cnInMulti :: bool
  cnQueue :: "string list list"

definition aclOn :: "'s server \<Rightarrow> bool" where
  "aclOn sv \<longleftrightarrow> (case svAcl sv of None \<Rightarrow> False | Some a \<Rightarrow> Enabled a)"

definition newConn :: "'s server \<Rightarrow> conn" where
  "newConn sv =
     \<lparr>cnAuthenticated = (svPassword sv = [] \<and> \<not> aclOn sv), cnUsername = ''default'',
      cnInMulti = False, cnQueue = []\<rparr>"

text \<open>The first refusal among the keys, if the gate applies to the connection.\<close>

fun firstDenied :: "ext \<Rightarrow> acl \<Rightarrow> string \<Rightarrow> string \<Rightarrow> string list \<Rightarrow> string option" where
  "firstDenied E a user cmd [] = None"
| "firstDenied E a user cmd (k # ks) =
     (case Authorize E user cmd k a of Err e \<Rightarrow> Some e | _ \<Rightarrow> firstDenied E a user cmd ks)"

definition denied :: "ext \<Rightarrow> 's server \<Rightarrow> conn \<Rightarrow> string \<Rightarrow> string list \<Rightarrow> string option" where
  "denied E sv c cmd args =
     (case svAcl sv of
        None \<Rightarrow> None
      | Some a \<Rightarrow>
          if Enabled a \<and> cnAuthenticated c then firstDenied E a (cnUsername c) cmd (allKeys E args) else None)"

definition errLine :: "string \<Rightarrow> string" where
  "errLine e = ''-ERR '' @ e @ crlf"

type_synonym 's handler = "string list \<Rightarrow> ('s, string) step"

definition runOne :: "'s handler \<Rightarrow> string list \<Rightarrow> ('s, string) step" where
  "runOne handle args =
     sbind (attempt (handle args)) (\<lambda>r. ret (case r of Ok resp \<Rightarrow> resp | Err e \<Rightarrow> errLine e | _ \<Rightarrow> []))"

definition execOne :: "'s handler \<Rightarrow> ext \<Rightarrow> conn \<Rightarrow> string list \<Rightarrow> string \<Rightarrow> ('s, string) step" where
  "execOne handle E c q resp = (\<lambda>sv.
     case denied E sv c (hd q) q of
       Some e \<Rightarrow> (Ok (resp @ errLine e), sv)
     | None \<Rightarrow> sbind (runOne handle q) (\<lambda>r. ret (resp @ r)) sv)"

definition authOk :: "ext \<Rightarrow> 's server \<Rightarrow> string \<Rightarrow> string \<Rightarrow> bool" where
  "authOk E sv user pass =
     (case svAcl sv of
        Some a \<Rightarrow> if Enabled a then Authenticate E user pass a else svPassword sv = [] \<or> pass = svPassword sv
      | None \<Rightarrow> svPassword sv = [] \<or> pass = svPassword sv)"

definition connAuth :: "ext \<Rightarrow> string list \<Rightarrow> conn \<Rightarrow> ('s, string \<times> conn) step" where
  "connAuth E args c = (\<lambda>sv.
     let try = (\<lambda>user pass.
           if authOk E sv user pass
           then (Ok (okReply, c\<lparr>cnAuthenticated := True, cnUsername := user\<rparr>), sv)
           else (Ok (errLine ''invalid password'', c), sv)) in
     case args of
       [_, pass] \<Rightarrow> try ''default'' pass
     | _ # user # pass # _ \<Rightarrow> try user pass
     | _ \<Rightarrow> (Ok (errLine (arity ''auth''), c), sv))"

definition connStep :: "'s handler \<Rightarrow> ext \<Rightarrow> string list \<Rightarrow> conn \<Rightarrow> ('s, string \<times> conn) step" where
  "connStep handle E args c = (\<lambda>sv.
     let cmd = ToUpper E (hd args) in
     if cmd = ''MULTI'' then
       (if cnInMulti c then (Ok (errLine ''MULTI calls can not be nested'', c), sv)
        else (Ok (okReply, c\<lparr>cnInMulti := True, cnQueue := []\<rparr>), sv))
     else if cmd = ''DISCARD'' then
       (if \<not> cnInMulti c then (Ok (errLine ''DISCARD without MULTI'', c), sv)
        else (Ok (okReply, c\<lparr>cnInMulti := False, cnQueue := []\<rparr>), sv))
     else if cmd = ''EXEC'' then
       (if \<not> cnInMulti c then (Ok (errLine ''EXEC without MULTI'', c), sv)
        else
          let c1 = c\<lparr>cnInMulti := False\<rparr> in
          if cnQueue c = [] then (Ok (arrayHead 0, c1), sv)
          else
            sbind (sfold (execOne handle E c1) (cnQueue c) (arrayHead (length (cnQueue c))))
              (\<lambda>r. ret (r, c1\<lparr>cnQueue := []\<rparr>)) sv)
     else if cnInMulti c then
       (case denied E sv c (hd args) args of
          Some e \<Rightarrow> (Ok (errLine e, c), sv)
        | None \<Rightarrow> (Ok (''+QUEUED'' @ crlf, c\<lparr>cnQueue := cnQueue c @ [args]\<rparr>), sv))
     else if cmd = ''AUTH'' then connAuth E args c sv
     else if \<not> cnAuthenticated c \<and> cmd \<noteq> ''PING'' then
       (Ok (''-NOAUTH Authentication required.'' @ crlf, c), sv)
     else
       (case denied E sv c cmd args of
          Some e \<Rightarrow> (Ok (errLine e, c), sv)
        | None \<Rightarrow> sbind (runOne handle args) (\<lambda>r. ret (r, c)) sv))"

fun connRun :: "'s handler \<Rightarrow> ext \<Rightarrow> string list list \<Rightarrow> conn \<Rightarrow> ('s, string \<times> conn) step" where
  "connRun handle E [] c = ret ([], c)"
| "connRun handle E (args # rest) c =
     sbind (connStep handle E args c) (\<lambda>(r, c1).
     sbind (connRun handle E rest c1) (\<lambda>(rs, c2). ret (r @ rs, c2)))"

text \<open>
  The loop: commands are read until the reader fails; an empty line is skipped.  Every round
  consumes input, so the length of the input bounds the recursion.
\<close>

function serve :: "'s handler \<Rightarrow> ext \<Rightarrow> string \<Rightarrow> conn \<Rightarrow> ('s, string) step" where
  "serve handle E s c =
     (case readCommand E s of
        Ok (args, rest) \<Rightarrow>
          if \<not> length rest < length s then ret []
          else if args = [] then serve handle E rest c
          else
            sbind (connStep handle E args c) (\<lambda>(r, c1).
            sbind (serve handle E rest c1) (\<lambda>rs. ret (r @ rs)))
      | _ \<Rightarrow> ret [])"
  by pat_completeness auto
termination
  by (relation "measure (\<lambda>(handle, E, s, c). length s)") auto

declare serve.simps [simp del]

section \<open>Facts on steps\<close>

lemma step_simps [simp]:
  "ret x sv = (Ok x, sv)" "fail e sv = (Err e, sv)"
  by (simp_all add: ret_def fail_def)

lemma sbind_Ok: "m sv = (Ok x, sv1) \<Longrightarrow> sbind m f sv = f x sv1"
  by (simp add: sbind_def)

lemma sbind_ret [simp]: "sbind (ret x) f = f x" "sbind (Pair (Ok x)) f = f x"
  by (simp_all add: sbind_def ret_def)

lemma sbind_assoc: "sbind (sbind m f) g = sbind m (\<lambda>x. sbind (f x) g)"
  by (auto simp: sbind_def fun_eq_iff split: prod.splits result.splits)

lemma snd_sbind_ret:
  "snd (sbind m (\<lambda>x. ret (f x)) sv) = snd (m sv)"
  "snd (sbind m (\<lambda>x. Pair (Ok (f x))) sv) = snd (m sv)"
  by (auto simp: sbind_def split: prod.splits result.splits)

lemma snd_attempt: "snd (attempt m sv) = snd (m sv)"
  by (auto simp: attempt_def split: prod.splits result.splits)

lemma snd_runOne: "snd (runOne handle args sv) = snd (handle args sv)"
  by (simp add: runOne_def snd_sbind_ret snd_attempt)

lemma control_words:
  "ToUpper E ''MULTI'' = ''MULTI''" "ToUpper E ''EXEC'' = ''EXEC''"
  unfolding ToUpper_def by (rule trans [OF if_P]; code_simp)+

lemma serve_step:
  "serve handle E s c =
     (case readCommand E s of
        Ok (args, rest) \<Rightarrow>
          if args = [] then serve handle E rest c
          else
            sbind (connStep handle E args c) (\<lambda>(r, c1).
            sbind (serve handle E rest c1) (\<lambda>rs. ret (r @ rs)))
      | _ \<Rightarrow> ret [])"
proof (cases "readCommand E s")
  case (Ok x)
  obtain args rest where x: "x = (args, rest)" by (cases x)
  with Ok readCommand_bounded [of E s] have "length rest < length s" by force
  with Ok x show ?thesis by (subst serve.simps) simp
qed (subst serve.simps, simp)+

text \<open>
  C17: the loop serves a pipeline.  On the bytes of a pipeline of commands within the limits,
  the loop does what running the commands one after the other does, with the replies in the
  order of the commands.
\<close>

theorem serve_pipeline:
  assumes "list_all sendable cmds"
  shows "serve handle E (concat (map encodeCommand cmds)) c = sbind (connRun handle E cmds c) (\<lambda>(out, c'). ret out)"
  using assms
proof (induction cmds arbitrary: c)
  case Nil
  have "readCommand E [] = Err ''EOF''" by (simp add: readCommand_def ReadString_def)
  then show ?case by (subst serve_step) (simp add: fun_eq_iff)
next
  case (Cons args cmds)
  then have rd: "readCommand E (concat (map encodeCommand (args # cmds))) = Ok (args, concat (map encodeCommand cmds))"
    using readCommand_encode [of args E "concat (map encodeCommand cmds)"] by simp
  have "args \<noteq> []" using Cons.prems by (simp add: sendable_def)
  then show ?case
    by (subst serve_step) (simp only: rd result.case prod.case if_False,
      simp add: Cons.IH [OF Cons.prems(1) [simplified, THEN conjunct2]] sbind_assoc split_def)
qed

theorem serve_pipeline_witness:
  "fst (serve (\<lambda>args. ret (''+PONG'' @ crlf)) ext0 (concat (map encodeCommand [[''PING''], [''PING'']]))
     \<lparr>cnAuthenticated = False, cnUsername = [], cnInMulti = False, cnQueue = []\<rparr> (NewServer ext0 () [] newInternTable)) =
   Ok (''+PONG'' @ crlf @ ''+PONG'' @ crlf)"
proof -
  let ?h = "\<lambda>args. ret (''+PONG'' @ crlf)" and ?sv = "NewServer ext0 () [] newInternTable"
  let ?c = "\<lparr>cnAuthenticated = False, cnUsername = [], cnInMulti = False, cnQueue = []\<rparr>"
  have s: "list_all sendable [[''PING''], [''PING'']]" by code_simp
  have p: "ToUpper ext0 ''PING'' = ''PING''" by code_simp
  have "connStep ?h ext0 [''PING''] ?c ?sv = (Ok (''+PONG'' @ crlf, ?c), ?sv)"
    by (simp add: connStep_def denied_def runOne_def attempt_def sbind_def p Let_def split: option.split)
  then have "fst (sbind (connRun ?h ext0 [[''PING''], [''PING'']] ?c) (\<lambda>(out, c'). ret out) ?sv) =
      Ok (''+PONG'' @ crlf @ ''+PONG'' @ crlf)"
    by (simp add: sbind_def)
  then show ?thesis by (simp only: serve_pipeline [OF s])
qed

section \<open>Authentication\<close>

text \<open>The AUTH commands that the server accepts.\<close>

definition acceptedAuth :: "ext \<Rightarrow> 's server \<Rightarrow> string list \<Rightarrow> bool" where
  "acceptedAuth E sv args \<longleftrightarrow> ToUpper E (hd args) = ''AUTH'' \<and>
     (case args of
        [_, pass] \<Rightarrow> authOk E sv ''default'' pass
      | _ # user # pass # _ \<Rightarrow> authOk E sv user pass
      | _ \<Rightarrow> False)"

lemma connAuth_refused:
  "\<not> acceptedAuth E sv args \<Longrightarrow> ToUpper E (hd args) = ''AUTH'' \<Longrightarrow> \<exists>r. connAuth E args c sv = (Ok (r, c), sv)"
  by (auto simp: connAuth_def acceptedAuth_def Let_def split: list.splits)

lemma HandleCommand_ping: "args \<noteq> [] \<Longrightarrow> ToUpper E (hd args) = ''PING'' \<Longrightarrow>
    HandleCommand hx E st lo now k args = ret (''+PONG'' @ crlf)"
  by (cases args) (simp_all add: HandleCommand_def)

lemma unauth_step:
  assumes "\<not> cnAuthenticated c" and "\<not> cnInMulti c" and "args \<noteq> []" and "ToUpper E (hd args) \<noteq> ''MULTI''"
    and "\<not> acceptedAuth E sv args"
  shows "\<exists>r. connStep (HandleCommand hx E st lo now k) E args c sv = (Ok (r, c), sv)"
proof (cases "ToUpper E (hd args) = ''AUTH''")
  case True
  then show ?thesis using assms connAuth_refused [OF assms(5) True, of c] by (simp add: connStep_def)
next
  case False
  have "denied E sv c cmd args = None" for cmd using assms(1) by (simp add: denied_def split: option.split)
  with False assms show ?thesis
    by (simp add: connStep_def runOne_def HandleCommand_ping attempt_def sbind_def Let_def)
qed



text \<open>
  C37: transactions run without authentication.  MULTI, queueing and EXEC are handled before the
  check for authentication, and the ACL is only consulted for authenticated connections; so
  a client that never sent a password runs any command by wrapping it in a transaction.
\<close>

theorem conn_multi_bypasses_auth:
  assumes "\<not> cnAuthenticated c" and "\<not> cnInMulti c" and "args \<noteq> []"
    and "ToUpper E (hd args) \<notin> {''MULTI'', ''DISCARD'', ''EXEC''}"
  shows "snd (connRun handle E [[''MULTI''], args, [''EXEC'']] c sv) = snd (handle args sv)"
proof -
  have d: "denied E sv c' cmd a = None" if "\<not> cnAuthenticated c'" for c' cmd a sv
    using that by (simp add: denied_def split: option.split)
  let ?c1 = "c\<lparr>cnInMulti := True, cnQueue := []\<rparr>"
  have 1: "connStep handle E [''MULTI''] c sv = (Ok (okReply, ?c1), sv)"
    using assms(2) by (simp add: connStep_def control_words)
  let ?c2 = "?c1\<lparr>cnQueue := [args]\<rparr>"
  have 2: "connStep handle E args ?c1 sv = (Ok (''+QUEUED'' @ crlf, ?c2), sv)"
    using assms by (simp add: connStep_def d)
  have 3: "snd (connStep handle E [''EXEC''] ?c2 sv) = snd (handle args sv)"
    using assms(1) by (simp add: connStep_def control_words execOne_def d snd_sbind_ret snd_runOne sbind_assoc)
  have "connRun handle E [[''MULTI''], args, [''EXEC'']] c sv =
      sbind (connStep handle E [''EXEC''] ?c2) (\<lambda>(r, c'). ret (okReply @ (''+QUEUED'' @ crlf) @ r @ [], c')) sv"
    by (simp add: 1 2 sbind_def split: prod.split result.split)
  then show ?thesis using 3 snd_sbind_ret [of "connStep handle E [''EXEC''] ?c2" "\<lambda>(r, c'). (okReply @ (''+QUEUED'' @ crlf) @ r @ [], c')" sv]
    by (simp add: case_prod_unfold)
qed

theorem conn_multi_bypasses_auth_witness:
  "let sv = NewServer ext0 (NewShardedFrontierCacheWithLimit 0) ''pw'' newInternTable;
       handle = HandleCommand (\<lambda>_. ret None) ext0 (shStore ext0) (shStore ext0) 9 2 in
   \<not> cnAuthenticated (newConn sv) \<and>
   snd (connRun handle ext0 [[''MULTI''], [''SET'', ''k'', ''v''], [''EXEC'']] (newConn sv) sv) = snd (handle [''SET'', ''k'', ''v''] sv)"
proof -
  let ?sv = "NewServer ext0 (NewShardedFrontierCacheWithLimit 0) ''pw'' newInternTable"
  have u: "ToUpper ext0 ''SET'' = ''SET''" by code_simp
  have a: "\<not> cnAuthenticated (newConn ?sv)" "\<not> cnInMulti (newConn ?sv)"
    by (simp_all add: newConn_def NewServer_def)
  show ?thesis using conn_multi_bypasses_auth [OF a, of "[''SET'', ''k'', ''v'']" ext0] a(1) u by (simp add: Let_def)
qed

section \<open>The access control list\<close>

text \<open>
  C38: keyless commands bypass the access control list.  The gate asks the list once per key of
  the command, so a command without keys is run for every authenticated user, whatever the
  user's list of commands says; FLUSHALL is such a command.
\<close>

theorem conn_keyless_bypasses_acl:
  assumes "cnAuthenticated c" and "\<not> cnInMulti c"
  shows "snd (connStep handle E [''FLUSHALL''] c sv) = snd (handle [''FLUSHALL''] sv)"
proof -
  have u: "ToUpper E ''FLUSHALL'' = ''FLUSHALL''" unfolding ToUpper_def by (rule trans [OF if_P]; code_simp)
  have "allKeys E [''FLUSHALL''] = []" by (simp add: allKeys_def)
  then have "denied E sv c cmd [''FLUSHALL''] = None" for cmd by (simp add: denied_def split: option.split)
  then show ?thesis using assms by (simp add: connStep_def u snd_sbind_ret snd_runOne)
qed

theorem conn_keyless_bypasses_acl_witness:
  "let sv = SetACL (AddUser ext0 ''bob'' ''pw'' [''GET''] [] False NewDisabled) (NewServer ext0 () [] newInternTable);
       c = \<lparr>cnAuthenticated = True, cnUsername = ''bob'', cnInMulti = False, cnQueue = []\<rparr>;
       handle = \<lambda>args. (\<lambda>sv. (Ok okReply, sv\<lparr>svTypes := [(''ran'', ''ran'')]\<rparr>)) in
   Authorize ext0 ''bob'' ''FLUSHALL'' [] (the (svAcl sv)) \<noteq> Ok () \<and>
   svTypes (snd (connStep handle ext0 [''FLUSHALL''] c sv)) = [(''ran'', ''ran'')]"
proof -
  have u: "ToUpper ext0 ''FLUSHALL'' = ''FLUSHALL''" "ToUpper ext0 ''GET'' = ''GET''" by code_simp+
  show ?thesis
    using conn_keyless_bypasses_acl [of "\<lparr>cnAuthenticated = True, cnUsername = ''bob'', cnInMulti = False, cnQueue = []\<rparr>"
      "\<lambda>args sv. (Ok okReply, sv\<lparr>svTypes := [(''ran'', ''ran'')]\<rparr>)" ext0
      "SetACL (AddUser ext0 ''bob'' ''pw'' [''GET''] [] False NewDisabled) (NewServer ext0 () [] newInternTable)"]
    by (simp add: Let_def Authorize_def AddUser_def SetACL_def NewDisabled_def allowedIn_def u)
qed

end
