(* ===== verification/Serving.thy ===== *)
theory Serving
  imports Extended Connection
begin

text \<open>
  Reads through the proof cache are never stale.  The handlers of theories \<open>Server\<close> and
  \<open>Extended\<close> keep an invariant of the server: the store holds constants only, and every
  cached proof is the proof of one path, for an atom that was once current there.  Under it
  GET answers with the value that is current in the store, whatever the cache holds.

  The statements are proved once, for a store that satisfies the contract \<open>server_store\<close>,
  and hold for the stores of the code by interpretation.
\<close>

declare step_simps [simp del]

section \<open>Contents of the proof cache\<close>

definition cachedIn :: "proofCache \<Rightarrow> hash \<Rightarrow> mproof \<Rightarrow> bool" where
  "cachedIn pc h pr \<longleftrightarrow> (\<exists>s \<in> set pc. map_of (pcEntries s) h = Some pr)"

lemma cachedIn_update:
  "cachedIn (pc[i := s]) h pr \<Longrightarrow> map_of (pcEntries s) h = Some pr \<or> cachedIn pc h pr"
  using set_update_subset_insert [of pc i s] by (auto simp: cachedIn_def)

lemma pcGet_cached:
  assumes "pc \<noteq> []"
  shows "\<exists>r pc'. pcGet h pc = Ok (r, pc') \<and> pc' \<noteq> [] \<and> (\<forall>g pr. cachedIn pc' g pr \<longrightarrow> cachedIn pc g pr) \<and>
    (\<forall>pr. r = Some pr \<longrightarrow> cachedIn pc h pr)"
proof -
  let ?i = "unat (HashFast h) mod length pc"
  have i: "?i < length pc" using assms by simp
  then have m: "pc ! ?i \<in> set pc" by (rule nth_mem)
  obtain r s where g: "shardGet h (pc ! ?i) = (r, s)" by fastforce
  then have e: "pcEntries s = pcEntries (pc ! ?i)" "r = map_of (pcEntries (pc ! ?i)) h"
    by (auto simp: shardGet_def split: option.splits)
  have "pcGet h pc = Ok (r, pc[?i := s])" using assms g by (simp add: pcGet_def cacheShardOf_def)
  moreover have "cachedIn pc g pr" if "cachedIn (pc[?i := s]) g pr" for g pr
    using cachedIn_update [OF that] e m by (auto simp: cachedIn_def)
  ultimately show ?thesis using assms e m by (auto simp: cachedIn_def)
qed

lemma pcSet_cached:
  assumes "pc \<noteq> []"
  shows "\<exists>pc'. pcSet h p pc = Ok pc' \<and> pc' \<noteq> [] \<and> (\<forall>g pr. cachedIn pc' g pr \<longrightarrow> (g = h \<and> pr = p) \<or> cachedIn pc g pr)"
proof -
  let ?i = "unat (HashFast h) mod length pc"
  let ?s = "shardSet h p (pc ! ?i)"
  have m: "pc ! ?i \<in> set pc" using assms by simp
  have "(g = h \<and> pr = p) \<or> cachedIn pc g pr" if "map_of (pcEntries ?s) g = Some pr" for g pr
    using that m
    by (auto simp: shardSet_def shardEvict_def Let_def cachedIn_def gomap split: option.splits if_splits)
  then have "(g = h \<and> pr = p) \<or> cachedIn pc g pr" if "cachedIn (pc[?i := ?s]) g pr" for g pr
    using cachedIn_update [OF that] by blast
  with assms show ?thesis by (simp add: pcSet_def cacheShardOf_def)
qed

lemma pcPoke_cached:
  assumes "pc \<noteq> []"
  shows "pcPoke h p pc \<noteq> [] \<and> (\<forall>g pr. cachedIn (pcPoke h p pc) g pr \<longrightarrow> (g = h \<and> pr = p) \<or> cachedIn pc g pr)"
proof -
  let ?i = "unat (HashFast h) mod length pc"
  have m: "pc ! ?i \<in> set pc" using assms by simp
  have "(g = h \<and> pr = p) \<or> cachedIn pc g pr"
    if "map_of (AList.update h p (pcEntries (pc ! ?i))) g = Some pr" for g pr
    using that m by (auto simp: cachedIn_def gomap split: if_splits)
  then have "(g = h \<and> pr = p) \<or> cachedIn pc g pr"
    if "cachedIn (pc[?i := (pc ! ?i)\<lparr>pcEntries := AList.update h p (pcEntries (pc ! ?i))\<rparr>]) g pr" for g pr
    using cachedIn_update [OF that] by auto
  with assms show ?thesis by (auto simp: pcPoke_def Let_def split: option.split)
qed

section \<open>Plain values\<close>

definition plainExpr :: "expr \<Rightarrow> bool" where
  "plainExpr e \<longleftrightarrow> (\<exists>v. e = EConst v \<and> \<not> hasNil v)"

lemma plainExpr_EConst [simp]: "plainExpr (EConst v) \<longleftrightarrow> \<not> hasNil v"
  by (simp add: plainExpr_def)

text \<open>The intern table holds no constant with a nil inside.\<close>

definition internPlain :: "internTable \<Rightarrow> bool" where
  "internPlain t \<longleftrightarrow> length (itShards t) = 256 \<and> (\<forall>h i v. (i, IConst v) \<in> set (bucket h t) \<longrightarrow> \<not> hasNil v)"

lemma internPlain_new: "internPlain newInternTable"
  by (simp add: internPlain_def newInternTable_def bucket_def)

lemma Intern_plain:
  assumes "internPlain t" and "\<And>v. n = IConst v \<Longrightarrow> \<not> hasNil v" and "Intern E n t = Ok (c, t')"
  shows "internPlain t' \<and> (\<forall>v. snd c = IConst v \<longrightarrow> \<not> hasNil v)"
proof -
  obtain h where h: "structuralHash E n = Ok h" using assms(3) by (auto simp: Intern_def)
  have len: "length (itShards t) = 256" using assms(1) by (simp add: internPlain_def)
  show ?thesis
  proof (cases "find (\<lambda>c. exprEqual E n (snd c)) (bucket h t)")
    case None
    let ?i = "itNextID t + 1"
    have t': "t' = setBucket h (bucket h t @ [(?i, n)]) (t\<lparr>itNextID := ?i\<rparr>)" "c = (?i, n)"
      using assms(3) h None by (auto simp: Intern_def Let_def)
    have b: "bucket g (t\<lparr>itNextID := ?i\<rparr>) = bucket g t" for g by (simp add: bucket_def)
    have "bucket g t' = (if g = h then bucket h t @ [(?i, n)] else bucket g t)" for g
      using bucket_setBucket [of "t\<lparr>itNextID := ?i\<rparr>" g h] len by (simp add: t' b)
    moreover have "length (itShards t') = 256" using len by (simp add: t' setBucket_def)
    ultimately show ?thesis using assms(1,2) t'(2) by (auto simp: internPlain_def)
  next
    case (Some d)
    moreover from this have "d \<in> set (bucket h t)" by (auto simp: find_Some_iff)
    ultimately have "c = d" "t' = t" "c \<in> set (bucket h t)" using assms(3) h by (auto simp: Intern_def)
    with assms(1) show ?thesis by (cases c) (auto simp: internPlain_def)
  qed
qed

lemma hasNil_not_VNil: "\<not> hasNil v \<Longrightarrow> v \<noteq> VNil"
  by auto

lemma NewEConst_plain:
  assumes "internPlain t" and "\<not> hasNil v" and "NewEConst E v t = Ok (w, t')"
  shows "internPlain t' \<and> \<not> hasNil w"
proof -
  obtain c t1 where i: "Intern E (IConst v) t = Ok (c, t1)"
    and w: "(case snd c of IConst w \<Rightarrow> Ok (w, t1) | _ \<Rightarrow> Panic) = Ok (w, t')"
    using assms(3) by (auto simp: NewEConst_def split: prod.splits)
  from w have "snd c = IConst w" "t1 = t'" by (cases "snd c"; simp)+
  with Intern_plain [OF assms(1) _ i] assms(2) show ?thesis by auto
qed

section \<open>The contract of a store\<close>

text \<open>
  \<open>clk\<close> counts the writes of a store whose clock has room for \<open>cap\<close> of them.  What is
  current at a path after a write is what was written, or still the atom from before.
\<close>

locale server_store = store_appends st inv cur E room
  for st :: "'s store" and inv :: "'s \<Rightarrow> bool"
    and cur :: "gotime \<Rightarrow> 's \<Rightarrow> string \<Rightarrow> catom option" and E :: ext and room :: "'s \<Rightarrow> bool" +
  fixes clk :: "'s \<Rightarrow> nat" and cap :: nat
  assumes room_clk: "inv s \<Longrightarrow> clk s < cap \<Longrightarrow> room s"
    and GetCurrent_clk: "inv s \<Longrightarrow> clk (snd (sGetCurrent st now p s)) = clk s"
    and Append_clk: "inv s \<Longrightarrow> clk s < cap \<Longrightarrow> sAppendAtom st now e p ps x s = (Ok h, s') \<Longrightarrow> clk s' \<le> Suc (clk s)"
    and Append_origin: "inv s \<Longrightarrow> clk s < cap \<Longrightarrow> sAppendAtom st now e p ps x s = (Ok h, s') \<Longrightarrow>
      cur t s' p = Some a \<Longrightarrow> aExpr a = e \<or> cur t s p = Some a"

text \<open>Reads leave the clock as it is, so the engine reads at every fixed clock.\<close>

sublocale server_store \<subseteq> eng: engine_reads st "\<lambda>s. inv s \<and> clk s = n" cur for n
proof (unfold_locales, goal_cases)
  case (2 s now p)
  then show ?case by (simp add: GetCurrent_inv GetCurrent_clk)
next
  case (9 s now p a)
  then show ?case using cur_path by blast
qed (simp_all add: GetCurrent_cur GetCurrent_view GetCurrentHash_cur Verify_cur FindChanged_cur GetAtom_view,
  use GetAtom_hash in blast)

section \<open>The invariant of the server\<close>

text \<open>
  \<open>H\<close> is the set of the path, hash and expression of every atom that was current at some
  moment.  A cached proof is the proof of a single path, for an atom in \<open>H\<close>.
\<close>

type_synonym history = "(string \<times> hash \<times> expr) set"

definition leafProof :: "ext \<Rightarrow> history \<Rightarrow> hash \<Rightarrow> mproof \<Rightarrow> bool" where
  "leafProof E H h pr \<longleftrightarrow> (\<exists>root. h = queryHash E (pnSourcePath root) \<and> proofOk pr root \<and> pnChildren root = [] \<and>
     (pnSourcePath root, pnSourceHash root, pnExpr root) \<in> H \<and> plainExpr (pnExpr root))"

text \<open>
  What the digests have to provide: no two atoms of the same path with the same hash and
  different expressions, and no two paths with the same key in the proof cache.  The empty
  path is excluded.
\<close>

definition histOk :: "ext \<Rightarrow> history \<Rightarrow> bool" where
  "histOk E H \<longleftrightarrow> (\<forall>p h e q g f. (p, h, e) \<in> H \<longrightarrow> (q, g, f) \<in> H \<longrightarrow>
     p \<noteq> [] \<and> (p = q \<and> h = g \<longrightarrow> e = f) \<and> (queryHash E p = queryHash E q \<longrightarrow> p = q))"

context server_store
begin

definition flat :: "'s \<Rightarrow> bool" where
  "flat s \<longleftrightarrow> (\<forall>t p a. cur t s p = Some a \<longrightarrow> plainExpr (aExpr a))"

definition atomsIn :: "history \<Rightarrow> 's \<Rightarrow> bool" where
  "atomsIn H s \<longleftrightarrow> (\<forall>t p a. cur t s p = Some a \<longrightarrow> (p, aHash a, aExpr a) \<in> H)"

definition served :: "history \<Rightarrow> 's server \<Rightarrow> bool" where
  "served H sv \<longleftrightarrow> inv (svStore sv) \<and> flat (svStore sv) \<and> internPlain (svIntern sv) \<and> svCache sv \<noteq> [] \<and>
     (\<forall>h pr. cachedIn (svCache sv) h pr \<longrightarrow> leafProof E H h pr)"

text \<open>The effect of a read on the server.\<close>

definition unchanged :: "history \<Rightarrow> 's server \<Rightarrow> 's server \<Rightarrow> bool" where
  "unchanged H sv sv' \<longleftrightarrow> served H sv' \<and> eng.same (clk (svStore sv)) (svStore sv) (svStore sv')"

definition readOk :: "history \<Rightarrow> 's server \<Rightarrow> bool" where
  "readOk H sv \<longleftrightarrow> served H sv \<and> atomsIn H (svStore sv)"

lemma unchanged_refl: "served H sv \<Longrightarrow> unchanged H sv sv"
  by (simp add: unchanged_def served_def eng.same_def)

lemma unchanged_trans: "unchanged H sv sv1 \<Longrightarrow> unchanged H sv1 sv2 \<Longrightarrow> unchanged H sv sv2"
  by (auto simp: unchanged_def eng.same_def)

lemma unchanged_cur: "unchanged H sv sv' \<Longrightarrow> cur t (svStore sv') = cur t (svStore sv)"
  by (simp add: unchanged_def eng.same_def)

lemma readOk_unchanged: "readOk H sv \<Longrightarrow> unchanged H sv sv' \<Longrightarrow> readOk H sv'"
  by (auto simp: readOk_def unchanged_def atomsIn_def eng.same_def)

lemma same_flat: "flat s \<Longrightarrow> eng.same n s s' \<Longrightarrow> flat s'"
  by (simp add: flat_def eng.same_def)

lemma served_same:
  assumes "served H sv" and "eng.same (clk (svStore sv)) (svStore sv) s'"
  shows "unchanged H sv (sv\<lparr>svStore := s'\<rparr>)"
  using assms same_flat [of "svStore sv" _ s'] by (auto simp: unchanged_def served_def eng.same_def)

section \<open>Serving from the cache\<close>

lemma leaf_reduce:
  assumes ok: "readOk H sv" and h: "histOk E H" and lp: "leafProof E H g pr"
  shows "\<exists>v pr' s' p. ReduceIncremental E st now k pr (svStore sv) = (Ok v, pr', s') \<and> leafProof E H g pr' \<and>
    eng.same (clk (svStore sv)) (svStore sv) s' \<and> g = queryHash E p \<and> (\<exists>h e. (p, h, e) \<in> H) \<and>
    (\<forall>a. cur now (svStore sv) p = Some a \<longrightarrow> aExpr a = EConst v)"
proof -
  let ?s = "svStore sv"
  let ?C = "cur now ?s"
  from lp obtain root where g: "g = queryHash E (pnSourcePath root)" and pr: "proofOk pr root"
    and leaf: "pnChildren root = []" and mem: "(pnSourcePath root, pnSourceHash root, pnExpr root) \<in> H"
    and plain: "plainExpr (pnExpr root)" by (auto simp: leafProof_def)
  have at: "nodeAt q root = Some n \<Longrightarrow> n = root" for q n using leaf by (cases root; cases q) auto
  have inv: "inv ?s \<and> clk ?s = clk ?s" and fl: "flat ?s" and H: "atomsIn H ?s"
    using ok by (auto simp: readOk_def served_def)
  have ne: "pnSourcePath root \<noteq> []" using h mem unfolding histOk_def by blast
  have cp: "plainExpr (exprOf ?C root) \<and> (pnSourcePath root, hashOf ?C root, exprOf ?C root) \<in> H"
    using fl H plain mem by (auto simp: exprOf_def hashOf_def flat_def atomsIn_def split: option.split)
  then obtain v where v: "exprOf ?C root = EConst v" by (auto simp: plainExpr_def)
  have f: "faithful ?C root"
    unfolding faithful_def
  proof (intro allI impI)
    fix q n a assume n: "nodeAt q root = Some n" "?C (pnSourcePath n) = Some a" "aHash a = pnSourceHash n"
    then have "(pnSourcePath root, pnSourceHash root, aExpr a) \<in> H" using H at [OF n(1)] unfolding atomsIn_def by metis
    with mem h at [OF n(1)] show "aExpr a = pnExpr n" unfolding histOk_def by blast
  qed
  have st: "allNodes (stableNode ?C) root" using leaf by (cases root) (simp add: stableNode_def)
  have fv: "freshVal ?C root = Ok v" by (simp add: freshVal.simps v)
  from eng.ReduceIncremental_spec [OF inv pr f st, of E k] fv
  obtain pr' s' root' where r: "ReduceIncremental E st now k pr ?s = (Ok v, pr', s')" "eng.same (clk ?s) ?s s'"
    and ok': "proofOk pr' root'" and t: "refTree (\<lambda>_. None) root' = refTree ?C root" by (auto simp: liftInc_def)
  have "pnChildren root' = []" "pnSourcePath root' = pnSourcePath root" "pnSourceHash root' = hashOf ?C root"
    "pnExpr root' = exprOf ?C root"
    using t leaf by (cases root; cases root'; simp)+
  with ok' g cp have "leafProof E H g pr'" unfolding leafProof_def by (intro exI [of _ root']) simp
  moreover have "aExpr a = EConst v" if "?C (pnSourcePath root) = Some a" for a
    using that v ne by (simp add: exprOf_def)
  ultimately show ?thesis using r g mem by blast
qed

lemma serveCached_spec:
  assumes ok: "readOk H sv" and h: "histOk E H"
  shows "\<exists>r sv'. serveCached E st now k path sv = (Ok r, sv') \<and> unchanged H sv sv' \<and>
    (\<forall>v a. r = Some v \<longrightarrow> cur now (svStore sv) path = Some a \<longrightarrow> aExpr a = EConst v)"
proof -
  have sv: "served H sv" and H: "atomsIn H (svStore sv)" using ok by (auto simp: readOk_def)
  then obtain r pc where g: "pcGet (queryHash E path) (svCache sv) = Ok (r, pc)" "pc \<noteq> []"
    "\<forall>g pr. cachedIn pc g pr \<longrightarrow> cachedIn (svCache sv) g pr"
    "\<forall>pr. r = Some pr \<longrightarrow> cachedIn (svCache sv) (queryHash E path) pr"
    using pcGet_cached [of "svCache sv" "queryHash E path"] by (auto simp: served_def)
  show ?thesis
  proof (cases r)
    case None
    have "unchanged H sv (sv\<lparr>svCache := pc\<rparr>)"
      using sv g(2,3) by (auto simp: unchanged_def served_def eng.same_def)
    with None g(1) show ?thesis by (simp add: serveCached_def)
  next
    case (Some pr)
    then have lp: "leafProof E H (queryHash E path) pr" using sv g(4) by (simp add: served_def)
    obtain v pr' s' p where red: "ReduceIncremental E st now k pr (svStore sv) = (Ok v, pr', s')"
      and lp': "leafProof E H (queryHash E path) pr'" and same: "eng.same (clk (svStore sv)) (svStore sv) s'"
      and p: "queryHash E path = queryHash E p" "\<exists>h e. (p, h, e) \<in> H"
        "\<forall>a. cur now (svStore sv) p = Some a \<longrightarrow> aExpr a = EConst v"
      using leaf_reduce [OF ok h lp, of now k] by blast
    let ?sv = "sv\<lparr>svStore := s', svCache := pcPoke (queryHash E path) pr' pc\<rparr>"
    have "served H (sv\<lparr>svStore := s'\<rparr>)" using served_same [OF sv same] by (simp add: unchanged_def)
    moreover have "leafProof E H g q" if "cachedIn (pcPoke (queryHash E path) pr' pc) g q" for g q
      using pcPoke_cached [OF g(2), of "queryHash E path" pr'] that g(3) lp' sv unfolding served_def by blast
    ultimately have "unchanged H sv ?sv"
      using same pcPoke_cached [OF g(2)] by (auto simp: unchanged_def served_def)
    moreover have "serveCached E st now k path sv = (Ok (Some v), ?sv)"
      using g(1) Some red by (simp add: serveCached_def Let_def)
    moreover have "p = path" if "cur now (svStore sv) path = Some a" for a
    proof -
      have "(path, aHash a, aExpr a) \<in> H" using H that by (auto simp: atomsIn_def)
      with p(1,2) h show ?thesis unfolding histOk_def by metis
    qed
    ultimately show ?thesis using p(3) by blast
  qed
qed

lemma composeCached_absent:
  assumes sv: "served H sv" and c: "cur now (svStore sv) path = None"
  shows "\<exists>e sv'. composeCached E st st now k path sv = (Err e, sv') \<and> unchanged H sv sv'"
proof -
  let ?s = "svStore sv"
  have inv: "inv ?s" using sv by (simp add: served_def)
  obtain s1 where s1: "sGetCurrent st now path ?s = (None, s1)"
    using GetCurrent_cur [OF inv, of now path] c by (cases "sGetCurrent st now path ?s") auto
  then have "eng.same (clk ?s) ?s s1" using eng.same_GetCurrent [of ?s "clk ?s" now path] inv by simp
  with served_same [OF sv] s1 show ?thesis
    by (auto simp: composeCached_def ComposeProof_def gatherCausalClosure_def)
qed

lemma composeCached_present:
  assumes ok: "readOk H sv" and h: "histOk E H" and c: "cur now (svStore sv) path = Some a" and k: "0 < k"
  shows "\<exists>v sv'. composeCached E st st now k path sv = (Ok v, sv') \<and> unchanged H sv sv' \<and> aExpr a = EConst v"
proof -
  let ?s = "svStore sv"
  let ?C = "cur now ?s"
  have sv: "served H sv" and H: "atomsIn H ?s" and inv: "inv ?s \<and> clk ?s = clk ?s" and fl: "flat ?s"
    using ok by (auto simp: readOk_def served_def)
  have mem: "(path, aHash a, aExpr a) \<in> H" using H c by (auto simp: atomsIn_def)
  then have ne: "path \<noteq> []" using h unfolding histOk_def by blast
  obtain v where v: "aExpr a = EConst v" "\<not> hasNil v" using fl c unfolding flat_def plainExpr_def by blast
  have "composable (\<lambda>_. 0) {path} ?C (eng.getAtomAt now ?s)" using c v by (simp add: composable_def)
  from eng.ComposeProof_total [OF inv this, of path k E ModeDeductive] k
  obtain pr s' where cp: "ComposeProof E st st now k path ModeDeductive ?s = (Ok pr, s')"
    and sub: "set (treePaths (the (mpRootNode pr))) \<subseteq> {path}" by auto
  from eng.ComposeProof_ok [OF inv cp] obtain root tree where root: "mpRootNode pr = Some root"
    and same: "eng.same (clk ?s) ?s s'" and p: "pnSourcePath root = path"
    and fv: "freshVal ?C root = Ok (mpValue pr)"
    and b: "allNodes (builtNode ?C) tree" "refTree (\<lambda>_. None) root = refTree ?C tree"
    and okp: "distinct (treePaths root) \<and> [] \<notin> set (treePaths root) \<longrightarrow> proofOk pr root" by blast
  have tp: "pnSourcePath tree = path" using b(2) p by (metis refTree_simps(3))
  have bn: "builtNode ?C tree" using b(1) by (rule allNodes_self)
  then have te: "pnExpr tree = EConst v" "pnSourceHash tree = aHash a" using c v tp by (auto simp: builtNode_def)
  then have "pnChildren tree = []" using bn by (auto simp: builtNode_def)
  then have leaf: "pnChildren root = []" using b(2) by (metis refTree_simps(4) Nil_is_map_conv)
  have "exprOf ?C tree = EConst v" "hashOf ?C tree = aHash a" using c v tp ne by (simp_all add: exprOf_def hashOf_def)
  then have rt: "pnExpr root = EConst v" "pnSourceHash root = aHash a"
    using arg_cong [OF b(2), of pnExpr] arg_cong [OF b(2), of pnSourceHash] by simp_all
  have "treePaths root = [path]" using leaf p by (cases root) simp
  then have "proofOk pr root" using okp ne by simp
  then have lp: "leafProof E H (queryHash E path) pr" using leaf p mem rt v unfolding leafProof_def by (intro exI [of _ root]) simp
  have val: "mpValue pr = v" using fv c v p ne by (simp add: freshVal.simps exprOf_def)
  obtain pc where pc: "pcSet (queryHash E path) pr (svCache sv) = Ok pc" "pc \<noteq> []"
    "\<forall>g q. cachedIn pc g q \<longrightarrow> (g = queryHash E path \<and> q = pr) \<or> cachedIn (svCache sv) g q"
    using pcSet_cached [of "svCache sv" "queryHash E path" pr] sv by (auto simp: served_def)
  have "unchanged H sv (sv\<lparr>svStore := s', svCache := pc\<rparr>)"
    using served_same [OF sv same] pc(2,3) lp sv by (auto simp: unchanged_def served_def)
  with cp pc(1) val v show ?thesis by (simp add: composeCached_def)
qed

lemma getCurrent_spec:
  assumes "served H sv"
  shows "\<exists>sv'. getCurrent st now p sv = (Ok (cur now (svStore sv) p), sv') \<and> unchanged H sv sv'"
proof -
  let ?s = "svStore sv"
  have inv: "inv ?s" using assms by (simp add: served_def)
  obtain s1 where s1: "sGetCurrent st now p ?s = (cur now ?s p, s1)"
    using GetCurrent_cur [OF inv, of now p] by (cases "sGetCurrent st now p ?s") auto
  then have "eng.same (clk ?s) ?s s1" using eng.same_GetCurrent [of ?s "clk ?s" now p] inv by simp
  with served_same [OF assms] s1 show ?thesis by (simp add: getCurrent_def)
qed

end

section \<open>What a read answers\<close>

definition getReply :: "ext \<Rightarrow> catom option \<Rightarrow> string" where
  "getReply E c =
     (case c of
        None \<Rightarrow> nilBulk
      | Some a \<Rightarrow> if isTombstone a then nilBulk else formatValue E (atomValue a))"

context server_store
begin

text \<open>The common part of GET, MGET and HGET: from the cache, or from a new proof.\<close>

lemma cached_or_composed:
  assumes ok: "readOk H sv" and h: "histOk E H" and k: "0 < k" and c: "cur now (svStore sv) path = Some a"
  obtains v sv' where "serveCached E st now k path sv = (Ok (Some v), sv')" "unchanged H sv sv'" "aExpr a = EConst v"
  | sv1 v sv' where "serveCached E st now k path sv = (Ok None, sv1)" "composeCached E st st now k path sv1 = (Ok v, sv')"
      "unchanged H sv sv'" "aExpr a = EConst v"
proof -
  obtain r sv1 where s: "serveCached E st now k path sv = (Ok r, sv1)" "unchanged H sv sv1"
    "\<And>v. r = Some v \<Longrightarrow> aExpr a = EConst v"
    using serveCached_spec [OF ok h, of now k path] c by auto
  show thesis
  proof (cases r)
    case (Some v)
    with s that(1) show ?thesis by blast
  next
    case None
    have c1: "cur now (svStore sv1) path = Some a" using c unchanged_cur [OF s(2)] by simp
    obtain v sv' where "composeCached E st st now k path sv1 = (Ok v, sv')" "unchanged H sv1 sv'" "aExpr a = EConst v"
      using composeCached_present [OF readOk_unchanged [OF ok s(2)] h c1 k] by blast
    with None s that(2) unchanged_trans show ?thesis by blast
  qed
qed

lemma plainGet_exact:
  assumes ok: "readOk H sv" and h: "histOk E H" and k: "0 < k"
  shows "\<exists>sv'. plainGet E st st now k path sv = (Ok (getReply E (cur now (svStore sv) path)), sv') \<and> unchanged H sv sv'"
    (is "\<exists>sv'. ?P sv'")
proof -
  let ?c = "cur now (svStore sv) path"
  obtain sv1 where g: "getCurrent st now path sv = (Ok ?c, sv1)" and u: "unchanged H sv sv1"
    using getCurrent_spec [of H sv] ok by (auto simp: readOk_def)
  show ?thesis
  proof (cases "\<exists>a. ?c = Some a \<and> \<not> isTombstone a")
    case False
    with g u show ?thesis by (auto simp: plainGet_def sbind_def getReply_def step_simps split: option.splits)
  next
    case True
    then obtain a where a: "?c = Some a" "\<not> isTombstone a" by blast
    then have a1: "cur now (svStore sv1) path = Some a" using unchanged_cur [OF u] by simp
    have val: "atomValue a = v" if "aExpr a = EConst v" for v using that by (simp add: atomValue_def)
    from readOk_unchanged [OF ok u] h k a1 show ?thesis
    proof (cases rule: cached_or_composed)
      case (1 v sv')
      with g a val have "?P sv'" using unchanged_trans [OF u] by (simp add: plainGet_def sbind_def getReply_def step_simps)
      then show ?thesis ..
    next
      case (2 sv2 v sv')
      with g a val have "?P sv'" using unchanged_trans [OF u] by (simp add: plainGet_def sbind_def getReply_def step_simps)
      then show ?thesis ..
    qed
  qed
qed

lemma getOrNil_exact:
  assumes ok: "readOk H sv" and h: "histOk E H" and k: "0 < k"
  shows "\<exists>sv'. getOrNil E st st now k path sv = (Ok (getReply E (cur now (svStore sv) path)), sv') \<and> unchanged H sv sv'"
    (is "\<exists>sv'. ?P sv'")
proof -
  let ?c = "cur now (svStore sv) path"
  obtain sv1 where g: "getCurrent st now path sv = (Ok ?c, sv1)" and u: "unchanged H sv sv1"
    using getCurrent_spec [of H sv] ok by (auto simp: readOk_def)
  show ?thesis
  proof (cases "\<exists>a. ?c = Some a \<and> \<not> isTombstone a")
    case False
    with g u show ?thesis by (auto simp: getOrNil_def sbind_def getReply_def step_simps split: option.splits)
  next
    case True
    then obtain a where a: "?c = Some a" "\<not> isTombstone a" by blast
    then have a1: "cur now (svStore sv1) path = Some a" using unchanged_cur [OF u] by simp
    have val: "atomValue a = v" if "aExpr a = EConst v" for v using that by (simp add: atomValue_def)
    from readOk_unchanged [OF ok u] h k a1 show ?thesis
    proof (cases rule: cached_or_composed)
      case (1 v sv')
      with g a val have "?P sv'" using unchanged_trans [OF u] by (simp add: getOrNil_def sbind_def getReply_def step_simps)
      then show ?thesis ..
    next
      case (2 sv2 v sv')
      with g a val have "?P sv'"
        using unchanged_trans [OF u] by (simp add: getOrNil_def sbind_def getReply_def attempt_def step_simps)
      then show ?thesis ..
    qed
  qed
qed

text \<open>MGET answers with the array of what GET answers for each key.\<close>

lemma mget_fold:
  assumes h: "histOk E H" and k: "0 < k"
  shows "readOk H sv \<Longrightarrow> \<exists>sv'. sfold (\<lambda>p resp. sbind (getOrNil E st st now k p) (\<lambda>r. ret (resp @ r))) ps acc sv =
      (Ok (acc @ concat (map (\<lambda>p. getReply E (cur now (svStore sv) p)) ps)), sv') \<and> unchanged H sv sv'"
proof (induction ps arbitrary: acc sv)
  case Nil
  then show ?case by (auto simp: readOk_def step_simps intro: unchanged_refl)
next
  case (Cons p ps)
  obtain sv1 where g: "getOrNil E st st now k p sv = (Ok (getReply E (cur now (svStore sv) p)), sv1)"
    and u: "unchanged H sv sv1" using getOrNil_exact [OF Cons.prems h k] by blast
  from Cons.IH [OF readOk_unchanged [OF Cons.prems u]] obtain sv' where
    "sfold (\<lambda>p resp. sbind (getOrNil E st st now k p) (\<lambda>r. ret (resp @ r))) ps
        (acc @ getReply E (cur now (svStore sv) p)) sv1 =
      (Ok ((acc @ getReply E (cur now (svStore sv) p)) @ concat (map (\<lambda>p. getReply E (cur now (svStore sv1) p)) ps)), sv')"
    "unchanged H sv1 sv'" by blast
  with g u unchanged_cur [OF u] unchanged_trans [OF u] show ?case by (auto simp: sbind_assoc sbind_Ok [where m = "getOrNil E st st now k p", OF g])
qed

end

end
