(* ===== verification/Commands.thy ===== *)
theory Commands
  imports Serving
begin

text \<open>
  Every command keeps the invariant of the server.  \<open>writes\<close> is a small calculus of steps
  that also bounds how often the store is written; the rules follow the structure of the
  handlers, and each command is one application of them.
\<close>

section \<open>Values without nil\<close>

lemma hasNil_pushes: "(\<exists>v \<in> set (fold (\<lambda>e arr. VString e # arr) es arr). hasNil v) \<longleftrightarrow> (\<exists>v \<in> set arr. hasNil v)"
  by (induction es arbitrary: arr) auto

lemma popSplit_rest: "x \<in> set (snd (popSplit cmd n arr)) \<Longrightarrow> x \<in> set arr"
  by (auto simp: popSplit_def dest: in_set_takeD in_set_dropD split: if_splits)

lemma set_update_subset: "set (AList.update k v m) \<subseteq> insert (k, v) (set m)"
  by (induction m) auto

lemma hasNil_setAdds:
  "\<not> hasNil (VRecord m) \<Longrightarrow> \<not> hasNil (VRecord (snd (fold setAdd ms (n, m))))"
proof (induction ms arbitrary: n m)
  case (Cons k ms)
  have "\<not> hasNil (VRecord (AList.update k (VInt 1) m))"
    using Cons.prems set_update_subset [of k "VInt 1" m] by fastforce
  from Cons.IH [OF this] show ?case by (simp add: setAdd_def del: hasNil.simps)
qed simp

lemma hasNil_zaddPairs:
  "zaddPairs E ps (n, z) = Some (n', z') \<Longrightarrow> \<not> hasNil (VRecord z) \<Longrightarrow> \<not> hasNil (VRecord z')"
proof (induction E ps "(n, z)" arbitrary: n z rule: zaddPairs.induct)
  case (1 E sc m rest n z)
  then obtain f where f: "parseFloat E sc = Some f" by (auto split: option.splits)
  have "\<not> hasNil (VRecord (AList.update m (VFloat f) z))"
    using 1(3) set_update_subset [of m "VFloat f" z] by fastforce
  with 1(1) [OF f] 1(2) f show ?case by simp
qed auto

lemma hasNil_empty: "\<not> hasNil (VRecord [])"
  by simp

context server_store
begin

section \<open>Steps that write\<close>

text \<open>
  \<open>writes H n m Q\<close>: with room for \<open>n\<close> writes, the step keeps the invariant, writes at most
  \<open>n\<close> times, and returns results with \<open>Q\<close>.
\<close>

definition writes :: "history \<Rightarrow> nat \<Rightarrow> ('s, 'a) step \<Rightarrow> ('a \<Rightarrow> bool) \<Rightarrow> bool" where
  "writes H n m Q \<longleftrightarrow> (\<forall>sv. served H sv \<longrightarrow> clk (svStore sv) + n \<le> cap \<longrightarrow>
     served H (snd (m sv)) \<and> clk (svStore (snd (m sv))) \<le> clk (svStore sv) + n \<and> (\<forall>x. fst (m sv) = Ok x \<longrightarrow> Q x))"

lemma writes_ret [intro!]: "Q x \<Longrightarrow> writes H n (ret x) Q"
  by (simp add: writes_def step_simps)

lemma writes_fail [intro!]: "writes H n (fail e) Q"
  by (simp add: writes_def step_simps)

lemma writes_weaken: "writes H n m Q \<Longrightarrow> n \<le> n' \<Longrightarrow> (\<And>x. Q x \<Longrightarrow> R x) \<Longrightarrow> writes H n' m R"
  by (fastforce simp: writes_def)

lemma writes_bind:
  assumes m: "writes H n m Q" and f: "\<And>x. Q x \<Longrightarrow> writes H n' (f x) R"
  shows "writes H (n + n') (sbind m f) R"
  unfolding writes_def
proof (intro allI impI)
  fix sv assume sv: "served H sv" "clk (svStore sv) + (n + n') \<le> cap"
  obtain r sv1 where ms: "m sv = (r, sv1)" by fastforce
  with m sv have 1: "served H sv1" "clk (svStore sv1) \<le> clk (svStore sv) + n" "\<And>x. r = Ok x \<Longrightarrow> Q x"
    by (auto simp: writes_def)
  show "served H (snd (sbind m f sv)) \<and> clk (svStore (snd (sbind m f sv))) \<le> clk (svStore sv) + (n + n') \<and>
      (\<forall>x. fst (sbind m f sv) = Ok x \<longrightarrow> R x)"
  proof (cases r)
    case (Ok x)
    with 1 sv f [of x] have "served H (snd (f x sv1)) \<and> clk (svStore (snd (f x sv1))) \<le> clk (svStore sv1) + n' \<and>
        (\<forall>x'. fst (f x sv1) = Ok x' \<longrightarrow> R x')" by (simp add: writes_def)
    with Ok ms 1 show ?thesis by (simp add: sbind_def)
  qed (use ms 1 in \<open>auto simp: sbind_def\<close>)
qed

lemma writes_attempt:
  assumes "writes H n m Q" and "\<And>r. (\<And>x. r = Ok x \<Longrightarrow> Q x) \<Longrightarrow> R r"
  shows "writes H n (attempt m) R"
  unfolding writes_def
proof (intro allI impI)
  fix sv assume sv: "served H sv" "clk (svStore sv) + n \<le> cap"
  obtain r sv1 where ms: "m sv = (r, sv1)" by fastforce
  with assms sv have 1: "served H sv1" "clk (svStore sv1) \<le> clk (svStore sv) + n" "\<And>x. r = Ok x \<Longrightarrow> Q x"
    by (auto simp: writes_def)
  have "R r" by (rule assms(2)) (rule 1(3))
  with ms 1 show "served H (snd (attempt m sv)) \<and> clk (svStore (snd (attempt m sv))) \<le> clk (svStore sv) + n \<and>
      (\<forall>x. fst (attempt m sv) = Ok x \<longrightarrow> R x)"
    by (cases r) (auto simp: attempt_def)
qed

lemma writes_fold:
  assumes "\<And>x b. x \<in> set xs \<Longrightarrow> Q b \<Longrightarrow> writes H n (f x b) Q"
  shows "Q b \<Longrightarrow> writes H (n * length xs) (sfold f xs b) Q"
  using assms
proof (induction xs arbitrary: b)
  case (Cons x xs)
  have "writes H (n + n * length xs) (sbind (f x b) (sfold f xs)) Q"
    by (rule writes_bind [where Q = Q]) (use Cons in auto)
  then show ?case by simp
qed auto

text \<open>A first step that writes nothing, or once.\<close>

lemma writes_bind0: "writes H 0 m Q \<Longrightarrow> (\<And>x. Q x \<Longrightarrow> writes H n (f x) R) \<Longrightarrow> writes H n (sbind m f) R"
  using writes_bind [of H 0 m Q n f R] by simp

lemma writes_bind1: "writes H (Suc 0) m Q \<Longrightarrow> (\<And>x. Q x \<Longrightarrow> writes H n (f x) R) \<Longrightarrow> writes H (Suc n) (sbind m f) R"
  using writes_bind [of H "Suc 0" m Q n f R] by simp

lemma writes_getCurrent: "writes H 0 (getCurrent st now p) (\<lambda>c. \<forall>a. c = Some a \<longrightarrow> plainExpr (aExpr a))"
  unfolding writes_def
proof (intro allI impI)
  fix sv assume sv: "served H sv" "clk (svStore sv) + 0 \<le> cap"
  obtain sv' where "getCurrent st now p sv = (Ok (cur now (svStore sv) p), sv')" "unchanged H sv sv'"
    using getCurrent_spec [OF sv(1)] by blast
  with sv show "served H (snd (getCurrent st now p sv)) \<and>
      clk (svStore (snd (getCurrent st now p sv))) \<le> clk (svStore sv) + 0 \<and>
      (\<forall>x. fst (getCurrent st now p sv) = Ok x \<longrightarrow> (\<forall>a. x = Some a \<longrightarrow> plainExpr (aExpr a)))"
    by (auto simp: unchanged_def eng.same_def served_def flat_def)
qed

lemma writes_appendAtom:
  assumes "plainExpr e"
  shows "writes H (Suc 0) (appendAtom st now e p ps x) (\<lambda>_. True)"
  unfolding writes_def
proof (intro allI impI)
  fix sv assume sv: "served H sv" "clk (svStore sv) + Suc 0 \<le> cap"
  let ?s = "svStore sv"
  have inv: "inv ?s" "room ?s" "clk ?s < cap" using sv room_clk by (auto simp: served_def)
  obtain h s' where a: "sAppendAtom st now e p ps x ?s = (Ok h, s')" using Append_Ok [OF inv(1,2)] by blast
  have "flat s'"
    unfolding flat_def
  proof (intro allI impI)
    fix t q b assume b: "cur t s' q = Some b"
    have f: "flat ?s" using sv by (simp add: served_def)
    show "plainExpr (aExpr b)"
    proof (cases "q = p")
      case True
      with Append_origin [OF inv(1,3) a, of t b] b f assms show ?thesis by (auto simp: flat_def)
    next
      case False
      have "cur t ?s q = Some b" using Append_other [OF inv(1,2) a False, of t] b by auto
      with f show ?thesis by (simp add: flat_def)
    qed
  qed
  with sv a Append_inv [OF inv(1,2) a] Append_clk [OF inv(1,3) a]
  show "served H (snd (appendAtom st now e p ps x sv)) \<and>
      clk (svStore (snd (appendAtom st now e p ps x sv))) \<le> clk ?s + Suc 0 \<and>
      (\<forall>y. fst (appendAtom st now e p ps x sv) = Ok y \<longrightarrow> True)"
    by (auto simp: appendAtom_def served_def)
qed

lemma writes_newConst:
  assumes "\<not> hasNil v"
  shows "writes H 0 (newConst E v) plainExpr"
proof -
  have "internPlain t' \<and> \<not> hasNil w" if "served H sv" "NewEConst E v (svIntern sv) = Ok (w, t')" for sv w t'
    using NewEConst_plain [OF _ assms that(2)] that(1) by (simp add: served_def)
  then show ?thesis
    by (auto simp: writes_def newConst_def served_def split: result.splits prod.splits)
qed

text \<open>Steps that write nothing; a command starts with them.\<close>

lemma writes_types:
  "writes H 0 (loadKeyType key) (\<lambda>_. True)" "writes H 0 (setKeyType key typ) (\<lambda>_. True)"
  "writes H 0 (delKeyType key) (\<lambda>_. True)" "writes H 0 clearKeyTypes (\<lambda>_. True)"
  "writes H 0 (frontierPaths st now) (\<lambda>_. True)" "writes H 0 (staleRefused E now) (\<lambda>_. True)"
  by (auto simp: writes_def loadKeyType_def setKeyType_def delKeyType_def clearKeyTypes_def frontierPaths_def
      staleRefused_def served_def split: option.splits)

lemma writes_curValue:
  "writes H 0 (curValue st now path) (\<lambda>c. \<forall>v a. c = Some (v, a) \<longrightarrow> \<not> hasNil v)"
  unfolding curValue_def
  by (rule writes_bind0 [OF writes_getCurrent])
    (auto simp: atomValue_def plainExpr_def split: option.splits if_splits expr.splits)

lemmas reads_first = writes_types [THEN writes_bind0] writes_getCurrent [THEN writes_bind0]
  writes_curValue [THEN writes_bind0] writes_newConst [THEN writes_bind0]

lemma writes_keyTypeOf: "writes H 0 (keyTypeOf st now key) (\<lambda>_. True)"
  unfolding keyTypeOf_def Let_def
  by (auto intro!: reads_first split: option.split)

lemma writes_assertKeyType: "writes H 0 (assertKeyType st now key want) (\<lambda>_. True)"
  unfolding assertKeyType_def by (rule writes_keyTypeOf [THEN writes_bind0]) auto

lemma writes_assertOrAbsent: "writes H 0 (assertOrAbsent st now key want) (\<lambda>_. True)"
  unfolding assertOrAbsent_def
  by (rule writes_bind0 [OF writes_attempt [OF writes_assertKeyType]])
    (auto intro!: writes_keyTypeOf [THEN writes_bind0] split: result.split)

lemma writes_guardType: "writes H n m (\<lambda>_. True) \<Longrightarrow> writes H n (guardType st now key want m) (\<lambda>_. True)"
  unfolding guardType_def reply_def
  by (rule writes_bind0 [OF writes_attempt [OF writes_assertKeyType]]) (auto split: result.split)

lemma writes_guardOrAbsent: "writes H n m (\<lambda>_. True) \<Longrightarrow> writes H n (guardOrAbsent st now key want m) (\<lambda>_. True)"
  unfolding guardOrAbsent_def reply_def
  by (rule writes_bind0 [OF writes_attempt [OF writes_assertOrAbsent]]) (auto split: result.split)

lemma writes_putValue: "\<not> hasNil v \<Longrightarrow> writes H (Suc 0) (putValue E st now path v x) (\<lambda>_. True)"
  unfolding putValue_def
  by (rule writes_newConst [THEN writes_bind0], assumption,
      rule writes_bind1 [OF writes_attempt [OF writes_appendAtom]]) auto

lemma writes_putTombstone: "writes H (Suc 0) (putTombstone st now path) (\<lambda>_. True)"
  unfolding putTombstone_def
  by (rule writes_bind1 [OF writes_attempt [OF writes_appendAtom]]) auto

lemma writes_writeString: "plainExpr e \<Longrightarrow> writes H (Suc 0) (writeString E st now e path) (\<lambda>_. True)"
  unfolding writeString_def by (rule writes_getCurrent [THEN writes_bind0]) (auto intro: writes_appendAtom)

lemmas writes_first = writes_putValue [THEN writes_bind1] writes_putTombstone [THEN writes_bind1]
  writes_writeString [THEN writes_bind1] writes_appendAtom [THEN writes_bind1]
  writes_appendAtom [THEN writes_attempt, THEN writes_bind1]

lemmas checks_first = writes_keyTypeOf [THEN writes_bind0] writes_assertKeyType [THEN writes_bind0]
  writes_assertOrAbsent [THEN writes_bind0]

section \<open>The commands that write\<close>

lemma writes_cmdSet: "writes H (Suc 0) (cmdSet E st now args) (\<lambda>_. True)"
  unfolding cmdSet_def
  by (auto intro!: checks_first reads_first writes_first split: list.split)

lemma writes_cmdHset: "writes H (Suc 0) (cmdHset E st now args) (\<lambda>_. True)"
  unfolding cmdHset_def
  by (auto intro!: checks_first reads_first writes_first split: list.split)

lemma writes_cmdExpire: "writes H (Suc 0) (cmdExpire st now args) (\<lambda>_. True)"
  unfolding cmdExpire_def
  by (auto intro!: reads_first writes_first split: list.split option.split)

lemma writes_countLive: "writes H 0 (countLive st now p n) (\<lambda>_. True)"
  unfolding countLive_def by (auto intro!: reads_first split: option.split)

lemma writes_fold0: "(\<And>x b. writes H 0 (f x b) (\<lambda>_. True)) \<Longrightarrow> writes H 0 (sfold f xs b) (\<lambda>_. True)"
  using writes_fold [of xs "\<lambda>_. True" H 0 f b] by simp

lemma writes_fold1: "(\<And>x b. writes H (Suc 0) (f x b) (\<lambda>_. True)) \<Longrightarrow> writes H (length xs) (sfold f xs b) (\<lambda>_. True)"
  using writes_fold [of xs "\<lambda>_. True" H "Suc 0" f b] by simp

lemma writes_cmdExists: "writes H 0 (cmdExists st now args) (\<lambda>_. True)"
  unfolding cmdExists_def by (auto intro!: writes_fold0 [THEN writes_bind0] writes_countLive)

lemma writes_cmdDbsize: "writes H 0 (cmdDbsize st now) (\<lambda>_. True)"
  unfolding cmdDbsize_def by (auto intro!: reads_first writes_fold0 [THEN writes_bind0] writes_countLive)

lemma writes_cmdTtl: "writes H 0 (cmdTtl st now args) (\<lambda>_. True)"
  unfolding cmdTtl_def by (auto intro!: reads_first split: list.split)

lemma writes_delOne: "writes H (Suc 0) (delOne st now path n) (\<lambda>_. True)"
  unfolding delOne_def
  by (auto intro!: reads_first writes_first split: option.split result.split)

lemma writes_bind_last: "writes H n m Q \<Longrightarrow> (\<And>x. Q x \<Longrightarrow> writes H 0 (f x) R) \<Longrightarrow> writes H n (sbind m f) R"
  using writes_bind [of H n m Q 0 f R] by simp

lemma writes_cmdDel: "writes H (length args) (cmdDel st now args) (\<lambda>_. True)"
proof -
  have "writes H (length (tl args)) (cmdDel st now args) (\<lambda>_. True)"
    unfolding cmdDel_def
    by (auto intro!: writes_fold1 [THEN writes_bind_last] writes_delOne simp del: length_tl)
  then show ?thesis by (rule writes_weaken) auto
qed

lemma writes_msetPairs: "writes H (length args) (msetPairs E st now args) (\<lambda>_. True)"
proof (induction args rule: induct_list012)
  case (3 path val rest)
  then have "writes H (Suc (length rest)) (msetPairs E st now (path # val # rest)) (\<lambda>_. True)"
    by (auto intro!: checks_first reads_first writes_first)
  then show ?case by (rule writes_weaken) auto
qed auto

lemma writes_cmdMset: "writes H (length args) (cmdMset E st now args) (\<lambda>_. True)"
proof -
  have "writes H (length (tl args)) (cmdMset E st now args) (\<lambda>_. True)"
    unfolding cmdMset_def by (auto intro!: writes_msetPairs [THEN writes_bind_last] simp del: length_tl)
  then show ?thesis by (rule writes_weaken) auto
qed

subsection \<open>Extended commands\<close>

lemma writes_reply [intro!]: "writes H n (reply r) (\<lambda>_. True)"
  unfolding reply_def by auto

lemma writes_incrStore: "writes H (Suc 0) (incrStore E st now key n) (\<lambda>_. True)"
  unfolding incrStore_def by (auto intro!: reads_first writes_first)

lemma writes_cmdIncr: "writes H (Suc 0) (cmdIncr E st now cmd args) (\<lambda>_. True)"
  unfolding cmdIncr_def
  by (auto intro!: writes_guardType reads_first writes_incrStore split: option.split)

lemma writes_cmdAppend: "writes H (Suc 0) (cmdAppend E st now args) (\<lambda>_. True)"
  unfolding cmdAppend_def Let_def
  by (auto intro!: writes_guardType reads_first writes_first split: option.split)

lemma writes_cmdStrlen: "writes H 0 (cmdStrlen E st now args) (\<lambda>_. True)"
  unfolding cmdStrlen_def by (auto intro!: reads_first)

lemma writes_cmdGetset: "writes H (Suc 0) (cmdGetset E st now args) (\<lambda>_. True)"
  unfolding cmdGetset_def Let_def by (auto intro!: writes_guardType reads_first writes_first)

lemma writes_cmdSetnx: "writes H (Suc 0) (cmdSetnx E st now args) (\<lambda>_. True)"
  unfolding cmdSetnx_def by (auto intro!: reads_first writes_first split: option.split)

lemma writes_cmdSetex: "writes H (Suc 0) (cmdSetex E st now unit args) (\<lambda>_. True)"
  unfolding cmdSetex_def by (auto intro!: reads_first writes_first split: option.split)

lemma writes_cmdLpush: "writes H (Suc 0) (cmdLpush E st now args) (\<lambda>_. True)"
  unfolding cmdLpush_def Let_def
  by (auto intro!: writes_guardType reads_first writes_first simp: hasNil_pushes split: option.split Value.split)

lemma writes_popStore:
  assumes "\<And>v. v \<in> set rest \<Longrightarrow> \<not> hasNil v"
  shows "writes H (Suc 0) (if rest = [] then sbind (putTombstone st now key) (\<lambda>_. delKeyType key)
      else putValue E st now key (VArray rest) zeroTime) (\<lambda>_. True)"
  using assms by (auto intro!: writes_first writes_types writes_putValue)

lemma writes_cmdPop: "writes H (Suc 0) (cmdPop E st now cmd args) (\<lambda>_. True)"
proof -
  have "writes H (Suc 0) (case popSplit cmd n arr of (popped, rest) \<Rightarrow>
      sbind (if rest = [] then sbind (putTombstone st now (args ! 1)) (\<lambda>_. delKeyType (args ! 1))
             else putValue E st now (args ! 1) (VArray rest) zeroTime)
        (\<lambda>_. reply (R popped))) (\<lambda>_. True)" if "\<And>v. v \<in> set arr \<Longrightarrow> \<not> hasNil v" for n arr R
  proof -
    have "\<not> hasNil v" if "popSplit cmd n arr = (popped, rest)" "v \<in> set rest" for popped rest v
      using popSplit_rest [of v cmd n arr] that \<open>\<And>v. v \<in> set arr \<Longrightarrow> \<not> hasNil v\<close> by auto
    then show ?thesis
      by (cases "popSplit cmd n arr") (simp only: prod.case, rule writes_popStore [THEN writes_bind_last]; auto)
  qed
  note pop = this
  show ?thesis
    unfolding cmdPop_def Let_def
    by (auto intro!: writes_guardType reads_first pop split: option.split Value.split)
qed

lemma writes_list_reads:
  "writes H 0 (cmdLlen st now args) (\<lambda>_. True)" "writes H 0 (cmdLrange E st now args) (\<lambda>_. True)"
  "writes H 0 (cmdLindex E st now args) (\<lambda>_. True)" "writes H 0 (cmdXlen st now args) (\<lambda>_. True)"
  "writes H 0 (cmdXrange E st now args) (\<lambda>_. True)"
  unfolding cmdXlen_def cmdLlen_def cmdLrange_def cmdLindex_def cmdXrange_def
  by (auto intro!: reads_first)

lemma writes_set_reads:
  "writes H 0 (cmdSmembers st now args) (\<lambda>_. True)" "writes H 0 (cmdScard st now args) (\<lambda>_. True)"
  "writes H 0 (cmdSismember st now args) (\<lambda>_. True)" "writes H 0 (cmdZscore E st now args) (\<lambda>_. True)"
  "writes H 0 (cmdZcard st now args) (\<lambda>_. True)" "writes H 0 (cmdZrange E st now args) (\<lambda>_. True)"
  unfolding cmdSmembers_def cmdScard_def cmdSismember_def cmdZscore_def cmdZcard_def cmdZrange_def Let_def
  by (auto intro!: reads_first)

lemma writes_cmdSadd: "writes H (Suc 0) (cmdSadd E st now args) (\<lambda>_. True)"
proof -
  have fin: "writes H (Suc 0) (case fold setAdd ms (0, m0) of (added, m) \<Rightarrow>
      sbind (putValue E st now key (VRecord m) zeroTime) (\<lambda>_. sbind (setKeyType key ''set'') (\<lambda>_. reply (R added))))
      (\<lambda>_. True)" if "\<not> hasNil (VRecord m0)" for ms m0 key and R :: "nat \<Rightarrow> string"
    using hasNil_setAdds [OF that, of ms 0]
    by (cases "fold setAdd ms (0, m0)") (auto intro!: writes_first reads_first simp del: hasNil.simps)
  show ?thesis
    unfolding cmdSadd_def Let_def
    by (auto intro!: writes_guardType reads_first fin hasNil_empty simp del: hasNil.simps(9) split: option.split Value.split)
qed

lemma writes_cmdZadd: "writes H (Suc 0) (cmdZadd E st now args) (\<lambda>_. True)"
  unfolding cmdZadd_def Let_def
  by (auto intro!: writes_guardOrAbsent reads_first writes_first simp del: hasNil.simps(9)
      split: option.split Value.split) (metis hasNil_zaddPairs hasNil_empty)+

lemma writes_reply_of: "writes H n (\<lambda>sv. reply (f sv) sv) (\<lambda>_. True)"
  by (simp add: writes_def reply_def step_simps)

lemma writes_keys:
  "writes H 0 (cmdType st now args) (\<lambda>_. True)" "writes H 0 (cmdKeys st now args) (\<lambda>_. True)"
  "writes H 0 (cmdScan E st now args) (\<lambda>_. True)" "writes H 0 (cmdInfo E start st now) (\<lambda>_. True)"
  unfolding cmdType_def cmdKeys_def cmdScan_def cmdInfo_def Let_def
  by (auto intro!: reads_first writes_reply_of split: option.split prod.split)

lemma writes_rewriteDeadline: "plainExpr e \<Longrightarrow> writes H (Suc 0) (rewriteDeadline st now p e x) (\<lambda>_. True)"
  unfolding rewriteDeadline_def by (auto intro!: writes_first)

lemma writes_deadlines:
  "writes H (Suc 0) (cmdPexpire st now args) (\<lambda>_. True)" "writes H (Suc 0) (cmdPersist st now args) (\<lambda>_. True)"
  "writes H 0 (cmdPttl st now args) (\<lambda>_. True)"
  unfolding cmdPexpire_def cmdPersist_def cmdPttl_def Let_def
  by (auto intro!: reads_first writes_rewriteDeadline split: option.split)

subsection \<open>Hash commands\<close>

lemma writes_hmsetPairs: "writes H (length args) (hmsetPairs E st now key args) (\<lambda>_. True)"
proof (induction args rule: induct_list012)
  case (3 f v rest)
  then have "writes H (Suc (length rest)) (hmsetPairs E st now key (f # v # rest)) (\<lambda>_. True)"
    by (auto intro!: writes_first)
  then show ?case by (rule writes_weaken) auto
qed auto

lemma writes_cmdHmset: "writes H (length args) (cmdHmset E st now args) (\<lambda>_. True)"
proof -
  have "writes H (length (drop 2 args)) (cmdHmset E st now args) (\<lambda>_. True)"
    unfolding cmdHmset_def
    by (auto intro!: writes_guardOrAbsent writes_hmsetPairs [THEN writes_bind_last] reads_first simp del: length_drop)
  then show ?thesis by (rule writes_weaken) auto
qed

lemma writes_cmdHmget: "writes H 0 (cmdHmget E st now args) (\<lambda>_. True)"
  unfolding cmdHmget_def hmgetOne_def
  by (auto intro!: writes_fold0 [THEN writes_bind0] reads_first)

lemma writes_hdelOne: "writes H (Suc 0) (hdelOne st now key f n) (\<lambda>_. True)"
  unfolding hdelOne_def by (auto intro!: reads_first writes_first split: option.split)

lemma writes_anyLive: "writes H 0 (anyLive st now pre ps) (\<lambda>_. True)"
  by (induction ps) (auto intro!: reads_first)

lemma writes_cmdHdel: "writes H (length args) (cmdHdel st now args) (\<lambda>_. True)"
proof -
  have "writes H (length (drop 2 args)) (cmdHdel st now args) (\<lambda>_. True)"
    unfolding cmdHdel_def
    by (auto intro!: writes_fold1 [THEN writes_bind_last] writes_hdelOne checks_first reads_first writes_types
        writes_anyLive [THEN writes_bind0] writes_bind0 [where m = "if _ then _ else _"] simp del: length_drop)
  then show ?thesis by (rule writes_weaken) auto
qed

lemma writes_cmdHinfo: "writes H 0 (cmdHinfo E st now cmd args) (\<lambda>_. True)"
  unfolding cmdHinfo_def hashFieldsOf_def fieldOne_def
  by (auto intro!: writes_bind0 [where m = "sbind _ _"] writes_fold0 reads_first)

lemma writes_cmdFlush:
  assumes sv: "served H sv" and room: "clk (svStore sv) + length (sFrontierPaths st now (svStore sv)) \<le> cap"
  shows "served H (snd (cmdFlush st now sv))"
proof -
  let ?ps = "sFrontierPaths st now (svStore sv)"
  let ?m = "sbind (sfold (\<lambda>p _. putTombstone st now p) ?ps ()) (\<lambda>_. sbind clearKeyTypes (\<lambda>_. reply okReply))"
  have "writes H (length ?ps) ?m (\<lambda>_. True)"
    by (auto intro!: writes_fold1 [THEN writes_bind_last] writes_putTombstone reads_first)
  moreover have "cmdFlush st now sv = ?m sv" by (simp add: cmdFlush_def frontierPaths_def sbind_def)
  ultimately show ?thesis using sv room by (auto simp: writes_def)
qed

end

section \<open>Reductions leave the store as it is\<close>

context engine_reads
begin

lemma same_inv: "same s s' \<Longrightarrow> inv s'"
  by (simp add: same_def)

lemma reduceAtoms_same:
  assumes k: "\<And>e s nc z. inv s \<Longrightarrow> same s (fst (snd (reduceTree E st now k e s nc z)))"
  shows "inv s \<Longrightarrow> same s (fst (snd (reduceAtoms E st now k hs rec s nc z)))"
proof (induction hs arbitrary: rec s nc z)
  case (Cons h hs)
  define g where "g = (case sGetAtom st now h s of
      Some a \<Rightarrow> if aPath a \<noteq> [] then
          (case sGetCurrent st now (aPath a) s of (Some c, s1) \<Rightarrow> (Some c, s1) | (None, s1) \<Rightarrow> (Some a, s1))
        else (Some a, s)
    | None \<Rightarrow> (None, s))"
  obtain c s1 where g1: "g = (c, s1)" by fastforce
  have s1: "same s s1"
    using same_GetCurrent [OF Cons.prems, of now] g1 same_refl [OF Cons.prems]
    by (auto simp: g_def split: option.splits if_splits prod.splits) (metis snd_conv)+
  show ?case
  proof (cases c)
    case None
    with s1 g1 show ?thesis by (simp add: g_def [symmetric])
  next
    case (Some a)
    obtain r s2 nc2 z2 where t: "reduceTree E st now k (aExpr a) s1 nc z = (r, s2, nc2, z2)" by (metis surj_pair)
    then have s2: "same s1 s2" using k [OF same_inv [OF s1], of "aExpr a" nc z] by simp
    show ?thesis
      using g1 Some t same_trans [OF s1 s2] Cons.IH [OF same_inv [OF s2]]
      by (cases r) (auto simp: g_def [symmetric] intro: same_trans)
  qed
qed (simp add: same_refl)

lemma reduceTree_same: "inv s \<Longrightarrow> same s (fst (snd (reduceTree E st now k e s nc z)))"
proof (induction k arbitrary: e s nc z)
  case (Suc k)
  show ?case
  proof (cases "map_of nc (ExprHash E e)")
    case None
    have tree: "same s' s1" if "reduceTree E st now k e' s' nc' z' = (r, s1, nc1, z1)" "inv s'" for e' s' nc' z' r s1 nc1 z1
      using Suc.IH [OF that(2), of e' nc' z'] that(1) by simp
    show ?thesis
    proof (cases e)
      case (EFieldAccess f e')
      obtain r s1 nc1 z1 where t: "reduceTree E st now k e' s nc (miss z) = (r, s1, nc1, z1)" by (metis surj_pair)
      with None EFieldAccess tree [OF t Suc.prems] show ?thesis by (cases r) (simp_all add: Let_def)
    next
      case (ECompose hs)
      obtain r s1 nc1 z1 where t: "reduceAtoms E st now k hs [] s nc (miss z) = (r, s1, nc1, z1)" by (metis surj_pair)
      with reduceAtoms_same [OF Suc.IH Suc.prems, of hs "[]" nc "miss z"] have "same s s1" by simp
      with None ECompose t show ?thesis by (cases r) (simp_all add: Let_def)
    next
      case (EApply f a)
      obtain r s1 nc1 z1 where t: "reduceTree E st now k f s nc (miss z) = (r, s1, nc1, z1)" by (metis surj_pair)
      note s1 = tree [OF t Suc.prems]
      obtain r2 s2 nc2 z2 where u: "reduceTree E st now k a s1 nc1 z1 = (r2, s2, nc2, z2)" by (metis surj_pair)
      note s2 = same_trans [OF s1 tree [OF u same_inv [OF s1]]]
      show ?thesis
        using None EApply t u s1 s2 by (cases r; cases r2) (simp_all add: Let_def split: option.split)
    qed (use None Suc.prems same_refl in \<open>simp_all add: Let_def\<close>)
  qed (use Suc.prems same_refl in simp)
qed (simp add: same_refl)

lemma sqlAtoms_same: "inv s \<Longrightarrow> same s (snd (sqlAtoms st now table ident cols s))"
proof (induction cols arbitrary: s)
  case (Cons c cols)
  obtain g s1 where g: "sGetCurrent st now (table @ '':'' @ ident @ '':'' @ c) s = (g, s1)" by fastforce
  with same_GetCurrent [OF Cons.prems, of now "table @ '':'' @ ident @ '':'' @ c"] have s1: "same s s1" by simp
  with Cons.IH [OF same_inv [OF s1]] g show ?case
    by (auto split: option.splits prod.splits result.splits intro: same_trans)
qed (simp add: same_refl)

lemma SQLToProofTree_same:
  assumes "inv s"
  shows "same s (snd (SQLToProofTree E st now q s))"
proof -
  have "same s s1" if "sqlAtoms st now table ident cols s = (r, s1)" for table ident cols r s1
    using sqlAtoms_same [OF assms, of now table ident cols] that by simp
  with same_refl [OF assms] show ?thesis
    by (auto simp: SQLToProofTree_def Let_def split: option.splits result.splits prod.splits list.splits)
qed

end

section \<open>The commands that read through the cache\<close>

context server_store
begin

definition reads :: "history \<Rightarrow> ('s, 'a) step \<Rightarrow> bool" where
  "reads H m \<longleftrightarrow> (\<forall>sv. readOk H sv \<longrightarrow> unchanged H sv (snd (m sv)))"

lemma reads_ret [intro!]: "reads H (ret x)"
  by (simp add: reads_def step_simps unchanged_refl readOk_def)

lemma reads_fail [intro!]: "reads H (fail e)"
  by (simp add: reads_def step_simps unchanged_refl readOk_def)

lemma reads_bind [intro!]:
  assumes m: "reads H m" and f: "\<And>x. reads H (f x)"
  shows "reads H (sbind m f)"
  unfolding reads_def
proof (intro allI impI)
  fix sv assume sv: "readOk H sv"
  obtain r sv1 where ms: "m sv = (r, sv1)" by fastforce
  with m sv have u: "unchanged H sv sv1" by (auto simp: reads_def)
  then have "unchanged H sv (snd (f x sv1))" for x
    using f [of x] readOk_unchanged [OF sv u] unchanged_trans [OF u] by (auto simp: reads_def)
  with ms u show "unchanged H sv (snd (sbind m f sv))" by (cases r) (auto simp: sbind_def)
qed

lemma reads_attempt [intro!]: "reads H m \<Longrightarrow> reads H (attempt m)"
  by (simp add: reads_def snd_attempt)

lemma reads_fold [intro!]: "(\<And>x b. reads H (f x b)) \<Longrightarrow> reads H (sfold f xs b)"
  by (induction xs arbitrary: b) auto

lemma reads_steps:
  "reads H (getCurrent st now p)" "reads H (frontierPaths st now)" "reads H (staleRefused E now)"
  "histOk E H \<Longrightarrow> reads H (serveCached E st now k p)"
  "histOk E H \<Longrightarrow> 0 < k \<Longrightarrow> reads H (composeCached E st st now k p)"
proof -
  show "reads H (getCurrent st now p)" using getCurrent_spec [of H _ now p] by (force simp: reads_def readOk_def)
  show "reads H (frontierPaths st now)" "reads H (staleRefused E now)"
    by (auto simp: reads_def frontierPaths_def staleRefused_def unchanged_refl readOk_def split: option.split)
  assume h: "histOk E H"
  then show "reads H (serveCached E st now k p)" using serveCached_spec [of H _ now k p] by (force simp: reads_def)
  assume k: "0 < k"
  show "reads H (composeCached E st st now k p)"
    unfolding reads_def
  proof (intro allI impI)
    fix sv assume sv: "readOk H sv"
    show "unchanged H sv (snd (composeCached E st st now k p sv))"
    proof (cases "cur now (svStore sv) p")
      case None
      with composeCached_absent [of H sv now p k] sv show ?thesis by (auto simp: readOk_def)
    next
      case (Some a)
      from composeCached_present [OF sv h Some k] show ?thesis by auto
    qed
  qed
qed

lemma reads_same:
  assumes "readOk H sv" and "eng.same (clk (svStore sv)) (svStore sv) s'"
  shows "unchanged H sv (sv\<lparr>svStore := s'\<rparr>)"
  using served_same assms by (auto simp: readOk_def)

lemma reads_reduceExpr: "reads H (reduceExpr E st now k e)"
  unfolding reads_def
proof (intro allI impI)
  fix sv assume sv: "readOk H sv"
  let ?s = "svStore sv"
  obtain r s1 nc z where t: "reduceTree E st now k e ?s [] zeroStats = (r, s1, nc, z)" by (metis surj_pair)
  have "eng.same (clk ?s) ?s s1"
    using eng.reduceTree_same [of ?s "clk ?s" E now k e "[]" zeroStats] sv t by (simp add: readOk_def served_def)
  with reads_same [OF sv] t show "unchanged H sv (snd (reduceExpr E st now k e sv))"
    by (cases r) (simp_all add: reduceExpr_def ReduceProofTree_def)
qed

lemma reads_sqlTree: "reads H (sqlTree E st now q)"
  unfolding reads_def
proof (intro allI impI)
  fix sv assume sv: "readOk H sv"
  let ?s = "svStore sv"
  obtain r s1 where t: "SQLToProofTree E st now q ?s = (r, s1)" by fastforce
  have "eng.same (clk ?s) ?s s1"
    using eng.SQLToProofTree_same [of ?s "clk ?s" E now q] sv t by (simp add: readOk_def served_def)
  with reads_same [OF sv] have u: "unchanged H sv (sv\<lparr>svStore := s1\<rparr>)" by simp
  have "unchanged H sv (sv\<lparr>svStore := s1, svIntern := t'\<rparr>)" if "Intern E (ICompose hs) (svIntern sv) = Ok (n, t')" for hs n t'
    using Intern_plain [OF _ _ that] u sv by (auto simp: unchanged_def served_def readOk_def)
  with u t show "unchanged H sv (snd (sqlTree E st now q sv))"
    by (auto simp: sqlTree_def split: result.splits prod.splits expr.splits)
qed

lemma reads_commands:
  assumes "histOk E H" and "0 < k"
  shows "reads H (cmdGet E st st now k args)" "reads H (cmdMget E st st now k args)"
    "reads H (cmdHget E st st now k args)" "reads H (cmdHgetall E st st now k args)"
  unfolding cmdGet_def cmdMget_def cmdHget_def cmdHgetall_def sqlGet_def plainGet_def getOrNil_def hashFields_def
    hgetallOne_def Let_def
  using assms
  by (auto intro!: reads_steps reads_sqlTree reads_reduceExpr split: list.split option.split sum.split result.split prod.split)

end

end
