(* ===== verification/Freshness.thy ===== *)
theory Freshness
  imports Commands
begin

text \<open>
  The theorems on whole runs of the server: the invariant of theory \<open>Serving\<close> holds after
  every sequence of commands, so a read always answers with what is current.
\<close>

text \<open>The handler of a server whose store is not write-through.\<close>

definition serverHandle ::
    "(string list \<Rightarrow> 's xstep) \<Rightarrow> gotime \<Rightarrow> ext \<Rightarrow> 's store \<Rightarrow> nat \<Rightarrow> gotime \<Rightarrow> string list \<Rightarrow> ('s, string) step" where
  "serverHandle ip start E st k now args = HandleCommand (HandleExtended ip start E st now) E st st now k args"

text \<open>The states between the commands of a run, the last one included.\<close>

fun serverTrace ::
    "(gotime \<Rightarrow> string list \<Rightarrow> ('s, string) step) \<Rightarrow> (gotime \<times> string list) list \<Rightarrow> 's server \<Rightarrow> 's server list" where
  "serverTrace handle [] sv = [sv]"
| "serverTrace handle ((now, args) # cmds) sv = sv # serverTrace handle cmds (snd (handle now args sv))"

lemma serverTrace_nonempty [simp]: "serverTrace handle cmds sv \<noteq> []"
  by (cases cmds) auto

text \<open>
  Room for the writes of a run: a command writes at most once per argument, and FLUSHALL once
  per path.
\<close>

fun roomFor ::
    "('s \<Rightarrow> nat) \<Rightarrow> nat \<Rightarrow> 's store \<Rightarrow> (gotime \<Rightarrow> string list \<Rightarrow> ('s, string) step) \<Rightarrow>
      (gotime \<times> string list) list \<Rightarrow> 's server \<Rightarrow> bool" where
  "roomFor clk cap st handle [] sv \<longleftrightarrow> True"
| "roomFor clk cap st handle ((now, args) # cmds) sv \<longleftrightarrow>
     clk (svStore sv) + length args + length (sFrontierPaths st now (svStore sv)) \<le> cap \<and>
     roomFor clk cap st handle cmds (snd (handle now args sv))"

text \<open>Path, hash and expression of every atom that is current in one of the states, at any time.\<close>

definition traceAtoms :: "(gotime \<Rightarrow> 's \<Rightarrow> string \<Rightarrow> catom option) \<Rightarrow> 's server list \<Rightarrow> history" where
  "traceAtoms cur tr = {(p, aHash a, aExpr a) |p a. \<exists>sv \<in> set tr. \<exists>t. cur t (svStore sv) p = Some a}"

lemma traceAtoms_mono: "traceAtoms cur tr \<subseteq> traceAtoms cur (sv # tr)"
  unfolding traceAtoms_def by fastforce

definition byValue :: "ext \<Rightarrow> (gotime \<times> string list) list \<Rightarrow> bool" where
  "byValue E cmds \<longleftrightarrow> list_all (\<lambda>(now, args). ToUpper E (hd args) \<notin> set inPlace) cmds"

context server_store
begin

section \<open>One command\<close>

lemma writes_if: "(b \<Longrightarrow> writes H n m Q) \<Longrightarrow> (\<not> b \<Longrightarrow> writes H n m' Q) \<Longrightarrow> writes H n (if b then m else m') Q"
  by simp

lemma writes_up: "writes H 0 m Q \<Longrightarrow> writes H n m Q" "writes H (Suc 0) m Q \<Longrightarrow> writes H (length (c # cs)) m Q"
  by (rule writes_weaken, auto)+

lemmas extended_writes =
  writes_cmdIncr [THEN writes_up(2)] writes_cmdAppend [THEN writes_up(2)] writes_cmdStrlen [THEN writes_up(1)]
  writes_cmdGetset [THEN writes_up(2)] writes_cmdSetnx [THEN writes_up(2)] writes_cmdSetex [THEN writes_up(2)]
  writes_cmdLpush [THEN writes_up(2)] writes_cmdPop [THEN writes_up(2)] writes_list_reads [THEN writes_up(1)]
  writes_cmdSadd [THEN writes_up(2)] writes_set_reads [THEN writes_up(1)] writes_cmdZadd [THEN writes_up(2)]
  writes_cmdHmset writes_cmdHmget [THEN writes_up(1)] writes_cmdHdel writes_cmdHinfo [THEN writes_up(1)]
  writes_keys [THEN writes_up(1)] writes_deadlines(1,2) [THEN writes_up(2)] writes_deadlines(3) [THEN writes_up(1)]
  writes_reply

lemma writes_HandleExtended:
  assumes "ToUpper E (hd args) \<notin> {''FLUSHDB'', ''FLUSHALL''}" and "ToUpper E (hd args) \<notin> set inPlace"
  shows "writes H (length args) (HandleExtended ip start E st now args) (\<lambda>_. True)"
proof (cases args)
  case Nil
  then show ?thesis by (auto simp: HandleExtended_def)
next
  case (Cons c cs)
  show ?thesis
    unfolding HandleExtended_def Cons list.case Let_def
    by (intro writes_if; (rule extended_writes | (use assms Cons in \<open>simp; fail\<close>) | (rule writes_ret, simp)))
qed

lemma writes_served: "writes H n m Q \<Longrightarrow> served H sv \<Longrightarrow> clk (svStore sv) + n \<le> cap \<Longrightarrow> served H (snd (m sv))"
  by (simp add: writes_def)

lemma reads_served: "reads H m \<Longrightarrow> readOk H sv \<Longrightarrow> served H (snd (m sv))"
  by (simp add: reads_def unchanged_def)

lemma extended_served:
  assumes "served H sv" and "clk (svStore sv) + length args + length (sFrontierPaths st now (svStore sv)) \<le> cap"
    and "ToUpper E (hd args) \<notin> set inPlace"
  shows "served H (snd (HandleExtended ip start E st now args sv))"
proof (cases "ToUpper E (hd args) \<in> {''FLUSHDB'', ''FLUSHALL''} \<and> args \<noteq> []")
  case True
  then have "HandleExtended ip start E st now args = cmdFlush st now"
    by (cases args) (auto simp: HandleExtended_def)
  with writes_cmdFlush [OF assms(1), of now] assms(2) show ?thesis by simp
next
  case False
  then have "writes H (length args) (HandleExtended ip start E st now args) (\<lambda>_. True)"
    using writes_HandleExtended [of args] assms(3) by (cases args) (auto simp: HandleExtended_def)
  from writes_served [OF this assms(1)] assms(2) show ?thesis by simp
qed

lemma if_served:
  "(b \<Longrightarrow> served H (snd (m sv))) \<Longrightarrow> (\<not> b \<Longrightarrow> served H (snd (m' sv))) \<Longrightarrow> served H (snd ((if b then m else m') sv))"
  by simp

lemma default_served:
  assumes sv: "served H sv" and x: "served H (snd (m sv))"
  shows "served H (snd (sbind (if b then staleRefused E now else ret ()) (\<lambda>_.
      sbind m (\<lambda>r. case r of Some resp \<Rightarrow> ret resp | None \<Rightarrow> fail e)) sv))"
proof -
  let ?f = "\<lambda>r. case r of Some resp \<Rightarrow> ret resp | None \<Rightarrow> fail e"
  have "snd (?f r s) = s" for r and s :: "'s server" by (cases r) (simp_all add: step_simps)
  then have "snd (sbind m ?f sv) = snd (m sv)"
    by (auto simp: sbind_def split: prod.splits result.splits)
  moreover have "sbind (staleRefused E now) g sv =
      (case staleError E now sv of None \<Rightarrow> g () sv | Some e \<Rightarrow> (Err e, sv))" for g :: "unit \<Rightarrow> ('s, 'a) step"
    by (simp add: sbind_def staleRefused_def split: option.split)
  ultimately show ?thesis using sv x by (simp split: option.split)
qed

lemma handle_served:
  assumes ok: "readOk H sv" and h: "histOk E H" and k: "0 < k" and ip: "ToUpper E (hd args) \<notin> set inPlace"
    and room: "clk (svStore sv) + length args + length (sFrontierPaths st now (svStore sv)) \<le> cap"
  shows "served H (snd (serverHandle ip' start E st k now args sv))"
proof (cases args)
  case Nil
  with ok show ?thesis by (simp add: serverHandle_def HandleCommand_def step_simps readOk_def)
next
  case (Cons c cs)
  have sv: "served H sv" using ok by (simp add: readOk_def)
  have r0: "clk (svStore sv) + 0 \<le> cap" and r1: "clk (svStore sv) + Suc 0 \<le> cap"
    and rn: "clk (svStore sv) + length args \<le> cap" using room Cons by auto
  note w0 = writes_served [OF _ sv r0] and w1 = writes_served [OF _ sv r1] and wn = writes_served [OF _ sv rn]
  note cases = writes_cmdSet [THEN w1] reads_commands [OF h k, THEN reads_served, OF ok] writes_cmdDel [THEN wn]
    writes_cmdExists [THEN w0] writes_cmdDbsize [THEN w0] writes_cmdMset [THEN wn] writes_cmdHset [THEN w1]
    writes_cmdExpire [THEN w1] writes_cmdTtl [THEN w0]
    default_served [where m = "HandleExtended ip' start E st now args", OF sv extended_served [OF sv room ip]]
  show ?thesis
    unfolding serverHandle_def HandleCommand_def Cons list.case Let_def
    by (intro if_served; (rule cases [unfolded Cons] | (simp add: step_simps sv; fail)))
qed

section \<open>Runs\<close>

lemma trace_served:
  assumes "histOk E H" and "0 < k"
  shows "served H sv \<Longrightarrow> traceAtoms cur (serverTrace (serverHandle ip start E st k) cmds sv) \<subseteq> H \<Longrightarrow> byValue E cmds \<Longrightarrow>
    roomFor clk cap st (serverHandle ip start E st k) cmds sv \<Longrightarrow>
    readOk H (last (serverTrace (serverHandle ip start E st k) cmds sv))"
proof (induction cmds arbitrary: sv)
  case Nil
  then show ?case by (auto simp: readOk_def atomsIn_def traceAtoms_def)
next
  case (Cons c cmds)
  obtain now args where c: "c = (now, args)" by fastforce
  let ?sv = "snd (serverHandle ip start E st k now args sv)"
  have "readOk H sv" using Cons.prems(1,2) by (auto simp: c readOk_def atomsIn_def traceAtoms_def)
  then have "served H ?sv"
    using handle_served [OF _ assms] Cons.prems(3,4) by (auto simp: c byValue_def)
  moreover have "traceAtoms cur (serverTrace (serverHandle ip start E st k) cmds ?sv) \<subseteq> H"
    using Cons.prems(2) traceAtoms_mono [of cur "serverTrace (serverHandle ip start E st k) cmds ?sv" sv] by (simp add: c)
  ultimately show ?case using Cons.IH [of ?sv] Cons.prems(3,4) by (auto simp: c byValue_def)
qed

text \<open>GET at the end of a run.\<close>

lemma get_fresh:
  assumes sv0: "served {} sv0" and tr: "tr = serverTrace (serverHandle ip start E st k) cmds sv0"
    and h: "histOk E (traceAtoms cur tr)" and k: "0 < k" and v: "byValue E cmds"
    and room: "roomFor clk cap st (serverHandle ip start E st k) cmds sv0"
    and path: "\<not> HasPrefix (ToUpper E path) ''SELECT''" and fresh: "staleError E now (last tr) = None"
  shows "fst (serverHandle ip start E st k now [''GET'', path] (last tr)) =
    Ok (getReply E (cur now (svStore (last tr)) path))"
proof -
  let ?H = "traceAtoms cur tr"
  have "served ?H sv0" using sv0 by (auto simp: served_def leafProof_def)
  then have ok: "readOk ?H (last tr)" using trace_served [OF h k] v room by (auto simp: tr)
  have u: "ToUpper E ''GET'' = ''GET''" unfolding ToUpper_def by (rule trans [OF if_P]; code_simp)
  have "serverHandle ip start E st k now [''GET'', path] (last tr) = plainGet E st st now k path (last tr)"
    using path fresh by (simp add: serverHandle_def HandleCommand_def u cmdGet_def sbind_def staleRefused_def
        sqlGet_def step_simps)
  with plainGet_exact [OF ok h k, of now path] show ?thesis by auto
qed

end

section \<open>The caches of the code\<close>

lemma shAppend_origin:
  assumes inv: "sh_inv E f" and ap: "shAppendAtom E now e p ps x f = (Ok h, f')" and c: "shCur E t f' p = Some a"
  shows "aExpr a = e \<or> shCur E t f p = Some a"
proof -
  let ?a = "mintAtom E e p (shClock f + 1) now x" and ?f = "f\<lparr>shClock := shClock f + 1\<rparr>"
  have ok: "sh_ok E ?f" using inv by (simp add: sh_inv_def sh_ok_def)
  obtain k g where cm: "shCommit E ?a ?f = (k, h, g)" and f': "f' = (if k = Stored then shEnforce g else g)"
    using shAppendAtom_split [OF ap] by blast
  have okg: "sh_ok E g" by (rule shCommit_ok [OF ok cm])
  have "shEntry E f' p \<in> {None, shEntry E g p}" using shEnforce_sub(1) [OF okg] by (auto simp: f')
  moreover have "shEntry E g p \<in> {Some ?a, shEntry E f p}" using shCommit_entry [OF ok cm, of p] by auto
  moreover have "sh_ok E f'" using okg shEnforce_sub(2) [OF okg] by (simp add: f')
  ultimately show ?thesis using c inv
    by (auto simp: shCur_entry sh_inv_def mintAtom_def Let_def split: option.splits if_splits)
qed

interpretation shServe: server_store "shStore E" "sh_inv E" "shCur E" E sh_room "\<lambda>f. unat (shClock f)" "2 ^ 64 - 1" for E
proof (unfold_locales, goal_cases)
  case (1 f)
  then show ?case by (auto simp: sh_room_def unsigned_minus_1_eq_mask mask_eq_exp_minus_1)
next
  case (2 f now p)
  then show ?case by (simp add: shStore_def shGetCurrent_clock)
next
  case (3 f now e p ps x h f')
  then have "sh_room f" by (auto simp: sh_room_def unsigned_minus_1_eq_mask mask_eq_exp_minus_1)
  with 3 have "shClock f' = shClock f + 1" by (auto simp: shStore_def intro: sh_inv_Append(2))
  then show ?case by (simp add: unat_word_ariths mod_less_eq_dividend)
next
  case (4 f now e p ps x h f' t a)
  then show ?case using shAppend_origin [of E f now e p ps x h f' t a] by (simp add: shStore_def)
qed

lemma served_new:
  "shServe.served E {} (NewServer E (NewShardedFrontierCacheWithLimit lim) pw newInternTable)"
proof -
  let ?f = "NewShardedFrontierCacheWithLimit lim"
  have "shServe.flat E ?f" by (simp add: shServe.flat_def shCur_entry shEntry_new)
  then show ?thesis
    by (auto simp: shServe.served_def NewServer_def internPlain_new sh_inv_new cachedIn_def newCacheShard_def)
qed

text \<open>One SET on a fresh server, and commands that never change a value in place.\<close>

definition noInPlace :: "string list \<Rightarrow> sharded xstep" where
  "noInPlace args = fail ''ERR unknown command''"

lemma first_write:
  fixes f :: sharded and a :: catom
  assumes f: "f = NewShardedFrontierCacheWithLimit 100000" and a: "a = mintAtom ext0 (EConst (VString ''v'')) ''k'' 1 5 zeroTime"
  obtains g where "shAppendAtom ext0 5 (EConst (VString ''v'')) ''k'' [] zeroTime f = (Ok (aHash a), g)"
    and "\<And>q. shEntry ext0 g q = (if q = ''k'' then Some a else None)"
proof -
  let ?f = "f\<lparr>shClock := 1\<rparr>" and ?i = "shardFor ext0 ''k''"
  let ?g = "setShard ?i (tabWrite ''k'' a emptyTab) ?f"
  have n: "shShards f ! ?i = emptyTab" "shClock f = 0" "shBytes f = 0"
    using shardFor_lt [of ext0 "''k''"] by (simp_all add: f NewShardedFrontierCacheWithLimit_def)
  have cm: "shCommit ext0 a ?f = (Stored, aHash a, ?g)"
    using n by (simp add: shCommit_def tabCommit_def Let_def a) (simp add: emptyTab_def)
  have "shBytes ?g = estimateAtomBytes ''k'' a" "ceiling90 (shMax ?g) = 90000"
    using n by (simp_all add: setShard_def tabWrite_def tabPut_def emptyTab_def Let_def f NewShardedFrontierCacheWithLimit_def
      ceiling90_def f64scale_def round53_def bitlen.simps f64_consts)
  moreover have "estimateAtomBytes ''k'' a < 90000" by (simp add: estimateAtomBytes_def a mintAtom_def Let_def)
  ultimately have e: "shEnforce ?g = ?g" by (simp add: shEnforce_def)
  have "shAppendAtom ext0 5 (EConst (VString ''v'')) ''k'' [] zeroTime f = (Ok (aHash a), ?g)"
    using cm n e by (simp add: shAppendAtom_def shMint_def Let_def a)
  moreover have "shEntry ext0 ?g q = (if q = ''k'' then Some a else None)" for q
    using shCommit_entry [OF _ cm, of q] shEntry_new by (simp add: f sh_ok_new shEntry_def shard_def a)
  ultimately show ?thesis by (rule that)
qed


lemma first_set:
  assumes c: "0 < (k :: nat)" and sv: "sv = NewServer ext0 (NewShardedFrontierCacheWithLimit 100000) [] newInternTable"
    and a: "a = mintAtom ext0 (EConst (VString ''v'')) ''k'' 1 5 zeroTime"
  obtains sv' where "serverHandle ip 0 ext0 (shStore ext0) k 5 [''SET'', ''k'', ''v''] sv = (Ok okReply, sv')"
    and "\<And>q. shEntry ext0 (svStore sv') q = (if q = ''k'' then Some a else None)"
    and "staleError ext0 now sv' = None"
proof -
  let ?f = "NewShardedFrontierCacheWithLimit 100000"
  obtain g where g: "shAppendAtom ext0 5 (EConst (VString ''v'')) ''k'' [] zeroTime ?f = (Ok (aHash a), g)"
    "\<And>q. shEntry ext0 g q = (if q = ''k'' then Some a else None)"
    using first_write [OF refl a] by blast
  have s: "shardsOk newInternTable" "stringsIn {} newInternTable"
    by (simp_all add: shardsOk_def stringsIn_def bucket_def newInternTable_def list_all_iff)
  then obtain t where t: "NewEConst ext0 (VString ''v'') newInternTable = Ok (VString ''v'', t)"
    using NewEConst_fresh by blast
  have u: "ToUpper ext0 ''SET'' = ''SET''" unfolding ToUpper_def by (rule trans [OF if_P]; code_simp)
  have n: "shGetCurrent ext0 5 ''k'' ?f = (None, ?f)" "shFrontierPaths 5 ?f = []"
    using shEntry_new [of ext0 100000 "''k''"]
    by (simp_all add: shGetCurrent_def shEntry_def shFrontierPaths_def NewShardedFrontierCacheWithLimit_def emptyTab_def)
  show ?thesis
    by (rule that [of "sv\<lparr>svStore := g, svIntern := t, svTypes := [(''k'', ''string'')]\<rparr>"])
     (simp_all add: serverHandle_def HandleCommand_def u cmdSet_def assertKeyType_def keyTypeOf_def loadKeyType_def curValue_def
      getCurrent_def frontierPaths_def newConst_def writeString_def appendAtom_def setKeyType_def sbind_def sv NewServer_def
      shStore_def n g t staleError_def step_simps)
qed



end
