(* ===== verification/Json.thy ===== *)
theory Json
  imports GoLib
begin

text \<open>
  What the program uses of \<open>encoding/json\<close> and \<open>encoding/base64\<close>: the text of a document,
  the scanner that reads it back, and the quoting of strings.

  A document is a \<open>json\<close> tree.  As in the package, a string keeps the bytes between its
  quotes until it is stored into a Go value, and a number keeps its digits.
\<close>

section \<open>UTF-8\<close>

text \<open>
  \<open>utf8.DecodeRune\<close> on a string that starts with a byte from 128: the length of the encoded
  rune, or 0 for an invalid encoding.
\<close>

definition runeSize :: "char \<Rightarrow> nat" where
  "runeSize c =
     (let n = code_of c in
      if 194 \<le> n \<and> n \<le> 223 then 2 else if 224 \<le> n \<and> n \<le> 239 then 3 else if 240 \<le> n \<and> n \<le> 244 then 4 else 0)"

definition secondOk :: "char \<Rightarrow> char \<Rightarrow> bool" where
  "secondOk c d \<longleftrightarrow>
     (let n = code_of c; m = code_of d in
      (if n = 224 then 160 else if n = 240 then 144 else 128) \<le> m \<and>
      m \<le> (if n = 237 then 159 else if n = 244 then 143 else 191))"

definition isCont :: "char \<Rightarrow> bool" where
  "isCont c \<longleftrightarrow> 128 \<le> code_of c \<and> code_of c \<le> 191"

definition runeLen :: "string \<Rightarrow> nat" where
  "runeLen s =
     (case s of
        c # d # r \<Rightarrow>
          (let n = runeSize c in
           if n \<noteq> 0 \<and> n - 2 \<le> length r \<and> secondOk c d \<and> list_all isCont (take (n - 2) r) then n else 0)
      | _ \<Rightarrow> 0)"

function validUTF8 :: "string \<Rightarrow> bool" where
  "validUTF8 [] \<longleftrightarrow> True"
| "validUTF8 (c # s) \<longleftrightarrow>
     (if code_of c < 128 then validUTF8 s
      else runeLen (c # s) \<noteq> 0 \<and> validUTF8 (drop (runeLen (c # s) - 1) s))"
  by pat_completeness auto
termination by (relation "measure length") auto

text \<open>\<open>utf8.AppendRune\<close>.\<close>

definition replacement :: string where
  "replacement = map char_of [239::nat, 191, 189]"

definition appendRune :: "nat \<Rightarrow> string" where
  "appendRune r =
     (if r < 128 then [char_of r]
      else if r < 2048 then map char_of [192 + r div 64, 128 + r mod 64]
      else if 55296 \<le> r \<and> r < 57344 \<or> 1114112 \<le> r then replacement
      else if r < 65536 then map char_of [224 + r div 4096, 128 + r div 64 mod 64, 128 + r mod 64]
      else map char_of [240 + r div 262144, 128 + r div 4096 mod 64, 128 + r div 64 mod 64, 128 + r mod 64])"

section \<open>Strings\<close>

definition hexDig :: "nat \<Rightarrow> char" where
  "hexDig n = ''0123456789abcdef'' ! n"

definition hexVal :: "char \<Rightarrow> nat option" where
  "hexVal c =
     (if isDigit c then Some (code_of c - 48)
      else if 97 \<le> code_of c \<and> code_of c \<le> 102 then Some (code_of c - 87)
      else if 65 \<le> code_of c \<and> code_of c \<le> 70 then Some (code_of c - 55)
      else None)"

definition bslash :: char where "bslash = CHR 0x5C"
definition dquote :: char where "dquote = CHR 0x22"

definition u4 :: "nat \<Rightarrow> string" where
  "u4 n = bslash # CHR ''u'' # map hexDig [n div 4096 mod 16, n div 256 mod 16, n div 16 mod 16, n mod 16]"

text \<open>The encoder escapes controls, quotes, backslashes and the characters of HTML.\<close>

definition escChar :: "char \<Rightarrow> string" where
  "escChar c =
     (if c = dquote \<or> c = bslash then [bslash, c]
      else if code_of c = 8 then [bslash, CHR ''b'']
      else if code_of c = 12 then [bslash, CHR ''f'']
      else if code_of c = 10 then [bslash, CHR ''n'']
      else if code_of c = 13 then [bslash, CHR ''r'']
      else if code_of c = 9 then [bslash, CHR ''t'']
      else if code_of c < 32 \<or> c \<in> {CHR ''<'', CHR ''>'', CHR ''&''} then u4 (code_of c)
      else [c])"

text \<open>U+2028 and U+2029 are escaped, invalid bytes become the escaped replacement character.\<close>

definition escRune :: "string \<Rightarrow> string" where
  "escRune w =
     (if w = map char_of [226::nat, 128, 168] then u4 8232
      else if w = map char_of [226::nat, 128, 169] then u4 8233
      else w)"

function quoteBody :: "string \<Rightarrow> string" where
  "quoteBody [] = []"
| "quoteBody (c # s) =
     (if code_of c < 128 then escChar c @ quoteBody s
      else if runeLen (c # s) = 0 then u4 65533 @ quoteBody s
      else escRune (take (runeLen (c # s)) (c # s)) @ quoteBody (drop (runeLen (c # s) - 1) s))"
  by pat_completeness auto
termination by (relation "measure length") auto

definition getu4 :: "string \<Rightarrow> nat option" where
  "getu4 s =
     (case s of
        b # u # c1 # c2 # c3 # c4 # _ \<Rightarrow>
          (if b = bslash \<and> u = CHR ''u'' then
             (case (hexVal c1, hexVal c2, hexVal c3, hexVal c4) of
                (Some n1, Some n2, Some n3, Some n4) \<Rightarrow> Some (4096 * n1 + 256 * n2 + 16 * n3 + n4)
              | _ \<Rightarrow> None)
           else None)
      | _ \<Rightarrow> None)"

definition plainEsc :: "char \<Rightarrow> char option" where
  "plainEsc c =
     (if c \<in> {dquote, bslash, CHR ''/''} then Some c
      else if c = CHR ''b'' then Some (char_of (8::nat))
      else if c = CHR ''f'' then Some (char_of (12::nat))
      else if c = CHR ''n'' then Some LF
      else if c = CHR ''r'' then Some CR
      else if c = CHR ''t'' then Some (char_of (9::nat))
      else None)"

text \<open>
  The scanner of a string, after its opening quote: the bytes up to the closing quote, with
  every escape checked, and what follows.
\<close>

definition pre :: "string \<Rightarrow> (string \<times> string) option \<Rightarrow> (string \<times> string) option" where
  "pre w x = map_option (\<lambda>(b, r). (w @ b, r)) x"

function lexStr :: "string \<Rightarrow> (string \<times> string) option" where
  "lexStr [] = None"
| "lexStr (c # s) =
     (if c = dquote then Some ([], s)
      else if code_of c < 32 then None
      else if c \<noteq> bslash then pre [c] (lexStr s)
      else if getu4 (c # s) \<noteq> None then pre (c # take 5 s) (lexStr (drop 5 s))
      else case s of
        [] \<Rightarrow> None
      | e # s' \<Rightarrow> if plainEsc e \<noteq> None then pre [c, e] (lexStr s') else None)"
  by pat_completeness auto
termination by (relation "measure length") auto

text \<open>
  \<open>unquote\<close>: escapes are replaced, a pair of surrogates becomes one rune, and what is not a
  rune becomes the replacement character.
\<close>

definition surrogate :: "nat \<Rightarrow> bool" where
  "surrogate r \<longleftrightarrow> 55296 \<le> r \<and> r < 57344"

definition surrogatePair :: "nat \<Rightarrow> nat option \<Rightarrow> nat option" where
  "surrogatePair r r1 =
     (case r1 of
        None \<Rightarrow> None
      | Some r2 \<Rightarrow>
          if 55296 \<le> r \<and> r < 56320 \<and> 56320 \<le> r2 \<and> r2 < 57344
          then Some ((r - 55296) * 1024 + (r2 - 56320) + 65536) else None)"

function unquoteBody :: "string \<Rightarrow> string" where
  "unquoteBody [] = []"
| "unquoteBody (c # s) =
     (if c = bslash then
        (case getu4 (c # s) of
           Some r \<Rightarrow>
             (if \<not> surrogate r then appendRune r @ unquoteBody (drop 5 s)
              else case surrogatePair r (getu4 (drop 5 s)) of
                Some q \<Rightarrow> appendRune q @ unquoteBody (drop 11 s)
              | None \<Rightarrow> replacement @ unquoteBody (drop 5 s))
         | None \<Rightarrow>
             (case s of
                [] \<Rightarrow> []
              | e # s' \<Rightarrow> (case plainEsc e of Some x \<Rightarrow> [x] | None \<Rightarrow> []) @ unquoteBody s'))
      else if code_of c < 128 then c # unquoteBody s
      else if runeLen (c # s) = 0 then replacement @ unquoteBody s
      else take (runeLen (c # s)) (c # s) @ unquoteBody (drop (runeLen (c # s) - 1) s))"
  by pat_completeness auto
termination by (relation "measure length") auto

lemmas [simp del] = validUTF8.simps(2) quoteBody.simps(2) lexStr.simps(2) unquoteBody.simps(2)

subsection \<open>Reading back a quoted string\<close>

lemma runeSize_cases: "runeSize c \<in> {0, 2, 3, 4}"
  by (simp add: runeSize_def Let_def)

lemma runeLenE:
  assumes "runeLen s \<noteq> 0"
  obtains c d r where "s = c # d # take (runeLen s - 2) r @ drop (runeLen s - 2) r" "s = c # d # r"
    and "runeLen s = runeSize c" "2 \<le> runeLen s" "runeLen s - 2 \<le> length r" "secondOk c d"
    and "list_all isCont (take (runeLen s - 2) r)" "128 \<le> code_of c" "128 \<le> code_of d"
proof -
  obtain c d r where s: "s = c # d # r" using assms by (auto simp: runeLen_def split: list.splits)
  with assms have n: "runeLen s = runeSize c" "runeSize c - 2 \<le> length r" "secondOk c d" "list_all isCont (take (runeSize c - 2) r)"
    by (auto simp: runeLen_def Let_def split: if_splits)
  moreover have "2 \<le> runeSize c" "128 \<le> code_of c" using assms n(1) by (auto simp: runeSize_def Let_def split: if_splits)
  moreover have "128 \<le> code_of d" using n(3) by (auto simp: secondOk_def Let_def split: if_splits)
  ultimately show ?thesis using that [of c d r] s by simp
qed

lemma runeLen_take:
  assumes "runeLen s \<noteq> 0"
  shows "runeLen (take (runeLen s) s @ t) = runeLen s" and "runeLen s \<le> length s"
    and "\<forall>x \<in> set (take (runeLen s) s). 128 \<le> code_of x"
proof -
  obtain c d r where s: "s = c # d # r" and n: "runeLen s = runeSize c" "2 \<le> runeLen s" "runeLen s - 2 \<le> length r"
      "secondOk c d" "list_all isCont (take (runeLen s - 2) r)" "128 \<le> code_of c" "128 \<le> code_of d"
    using assms by (rule runeLenE)
  then obtain k where k: "runeLen s = Suc (Suc k)" by (metis Suc_le_D Suc_le_mono numeral_2_eq_2)
  have "take k (take k r @ t) = take k r" using n(3) k by simp
  with n k show "runeLen (take (runeLen s) s @ t) = runeLen s" "runeLen s \<le> length s"
    by (simp_all add: s) (simp add: runeLen_def Let_def)
  show "\<forall>x \<in> set (take (runeLen s) s). 128 \<le> code_of x"
    using n(5,6,7) k by (auto simp: s list_all_iff isCont_def)
qed

lemma hexVal_hexDig: "n < 16 \<Longrightarrow> hexVal (hexDig n) = Some n"
proof -
  have "list_all (\<lambda>n. hexVal (hexDig n) = Some n) [0..<16]" by code_simp
  then show "n < 16 \<Longrightarrow> hexVal (hexDig n) = Some n" by (simp add: list_all_iff)
qed

lemma getu4_u4:
  assumes "n < 65536"
  shows "getu4 (u4 n @ t) = Some n"
proof -
  have d: "n div 256 = n div 16 div 16" "n div 4096 = n div 16 div 16 div 16" by (simp_all add: div_mult2_eq [symmetric])
  have "n = 4096 * (n div 4096) + 256 * (n div 256 mod 16) + 16 * (n div 16 mod 16) + n mod 16"
    unfolding d using mult_div_mod_eq [of 16 n] mult_div_mod_eq [of 16 "n div 16"] mult_div_mod_eq [of 16 "n div 16 div 16"]
    by linarith
  moreover have "n div 4096 mod 16 = n div 4096" "n div 4096 < 16" using assms by simp_all
  ultimately show ?thesis by (simp add: getu4_def u4_def hexVal_hexDig)
qed

lemma u4_shape:
  obtains w where "u4 n = bslash # w" "length w = 5" "\<And>t. n < 65536 \<Longrightarrow> getu4 (bslash # w @ t) = Some n"
proof (rule that)
  show "u4 n = bslash # tl (u4 n)" "length (tl (u4 n)) = 5" by (simp_all add: u4_def)
  show "getu4 (bslash # tl (u4 n) @ t) = Some n" if "n < 65536" for t
    using getu4_u4 [OF that, of t] by (simp add: u4_def)
qed

lemma bslash_facts: "bslash \<noteq> dquote" "code_of bslash = (92::nat)" "code_of dquote = (34::nat)"
  by (simp_all add: bslash_def dquote_def)

lemma lexStr_u4: "n < 65536 \<Longrightarrow> lexStr (u4 n @ t) = pre (u4 n) (lexStr t)"
  by (rule u4_shape [of n]) (simp add: lexStr.simps bslash_facts)

lemma unquote_u4: "n < 65536 \<Longrightarrow> \<not> surrogate n \<Longrightarrow> unquoteBody (u4 n @ t) = appendRune n @ unquoteBody t"
  by (rule u4_shape [of n]) (simp add: unquoteBody.simps)

lemma char_codeI: "code_of c = n \<Longrightarrow> char_of n = c"
  by auto

lemma escChar_cases:
  obtains (raw) "escChar c = [c]" "c \<noteq> bslash" "c \<noteq> dquote" "\<not> code_of c < 32"
    | (esc) e where "escChar c = [bslash, e]" "plainEsc e = Some c" "e \<noteq> CHR ''u''"
    | (hex) "escChar c = u4 (code_of c)" "code_of c < (128::nat)"
proof -
  have p: "plainEsc dquote = Some dquote" "plainEsc bslash = Some bslash" "plainEsc (CHR ''b'') = Some (char_of (8::nat))"
    "plainEsc (CHR ''f'') = Some (char_of (12::nat))" "plainEsc (CHR ''n'') = Some (char_of (10::nat))"
    "plainEsc (CHR ''r'') = Some (char_of (13::nat))" "plainEsc (CHR ''t'') = Some (char_of (9::nat))"
    by (simp_all add: plainEsc_def bslash_def dquote_def LF_def CR_def)
  have q: "escChar (char_of (8::nat)) = [bslash, CHR ''b'']" "escChar (char_of (12::nat)) = [bslash, CHR ''f'']"
    "escChar (char_of (10::nat)) = [bslash, CHR ''n'']" "escChar (char_of (13::nat)) = [bslash, CHR ''r'']"
    "escChar (char_of (9::nat)) = [bslash, CHR ''t'']"
    by code_simp+
  have u: "dquote \<noteq> CHR ''u''" "bslash \<noteq> CHR ''u''" by (simp_all add: bslash_def dquote_def)
  consider "c = dquote \<or> c = bslash" | "code_of c = (8::nat)" | "code_of c = (12::nat)" | "code_of c = (10::nat)"
    | "code_of c = (13::nat)" | "code_of c = (9::nat)" | "code_of c < (32::nat) \<or> c \<in> {CHR ''<'', CHR ''>'', CHR ''&''}"
      "c \<noteq> dquote" "c \<noteq> bslash" "code_of c \<notin> {8, 12, 10, 13, 9::nat}"
    | "c \<noteq> bslash" "c \<noteq> dquote" "\<not> code_of c < (32::nat)" "c \<notin> {CHR ''<'', CHR ''>'', CHR ''&''}"
    by auto
  then show ?thesis
  proof cases
    case 7
    then show ?thesis using hex by (auto simp: escChar_def)
  next
    case 8
    then show ?thesis using raw by (auto simp: escChar_def)
  next
    case 1
    then show ?thesis using esc p u by (auto simp: escChar_def)
  qed (use esc p q in \<open>force dest: char_codeI\<close>)+
qed

lemma getu4_not_u: "e \<noteq> CHR ''u'' \<Longrightarrow> getu4 (b # e # t) = None"
  by (auto simp: getu4_def split: list.splits)

lemma lexStr_escChar: "lexStr (escChar c @ t) = pre (escChar c) (lexStr t)"
  by (rule escChar_cases [of c]) (simp_all add: lexStr_u4, simp_all add: lexStr.simps bslash_facts getu4_not_u)

lemma unquote_escChar: "code_of c < (128::nat) \<Longrightarrow> unquoteBody (escChar c @ t) = c # unquoteBody t"
  by (rule escChar_cases [of c])
    (simp_all add: unquote_u4 surrogate_def appendRune_def, simp_all add: unquoteBody.simps getu4_not_u)

lemma pre_append: "pre (v @ w) x = pre v (pre w x)"
  by (cases x) (auto simp: pre_def)

lemma lexStr_high: "\<forall>x \<in> set w. 128 \<le> code_of x \<Longrightarrow> lexStr (w @ t) = pre w (lexStr t)"
proof (induction w)
  case Nil
  then show ?case by (cases "lexStr t") (auto simp: pre_def)
next
  case (Cons c w)
  then have "c \<noteq> dquote" "c \<noteq> bslash" "\<not> code_of c < 32" by (auto simp: bslash_facts dquote_def bslash_def)
  with Cons show ?case by (simp add: lexStr.simps pre_append [of "[c]" w, simplified])
qed

lemma lexStr_escRune: "\<forall>x \<in> set w. 128 \<le> code_of x \<Longrightarrow> lexStr (escRune w @ t) = pre (escRune w) (lexStr t)"
  by (simp add: escRune_def lexStr_u4 lexStr_high del: list.map)

lemma unquote_escRune:
  assumes "runeLen s \<noteq> 0"
  shows "unquoteBody (escRune (take (runeLen s) s) @ t) = take (runeLen s) s @ unquoteBody t"
proof -
  let ?w = "take (runeLen s) s"
  obtain c w where w: "?w = c # w" "128 \<le> code_of c" using runeLen_take(2,3) [OF assms] assms by (cases ?w) auto
  then have n: "runeLen s = Suc (length w)" by (metis length_Cons length_take min.absorb2 runeLen_take(2) assms)
  have "runeLen (c # w @ t) = runeLen s" using runeLen_take(1) [OF assms, of t] w(1) by simp
  moreover have "c \<noteq> bslash" using w(2) by (auto simp: bslash_facts)
  ultimately have raw: "unquoteBody (?w @ t) = ?w @ unquoteBody t"
    using w n assms by (simp add: unquoteBody.simps)
  have "appendRune 8232 = map char_of [226::nat, 128, 168]" "appendRune 8233 = map char_of [226::nat, 128, 169]"
    by (simp_all add: appendRune_def)
  then show ?thesis using raw by (auto simp: escRune_def unquote_u4 surrogate_def simp del: list.map)
qed

lemma lexStr_quoteBody: "lexStr (quoteBody s @ t) = pre (quoteBody s) (lexStr t)"
proof (induction s rule: quoteBody.induct)
  case 1
  then show ?case by (cases "lexStr t") (auto simp: pre_def)
next
  case (2 c s)
  then show ?case
    using runeLen_take(3) [of "c # s"]
    by (auto simp: quoteBody.simps lexStr_escChar lexStr_u4 lexStr_escRune pre_append [symmetric] simp del: take_Cons)
qed

lemma unquote_quoteBody: "validUTF8 s \<Longrightarrow> unquoteBody (quoteBody s) = s"
proof (induction s rule: validUTF8.induct)
  case (2 c s)
  show ?case
  proof (cases "code_of c < (128::nat)")
    case True
    with 2 show ?thesis by (simp add: validUTF8.simps quoteBody.simps unquote_escChar)
  next
    case False
    let ?n = "runeLen (c # s)"
    have n: "?n \<noteq> 0" using 2(3) False by (simp add: validUTF8.simps)
    then have "take ?n (c # s) @ drop (?n - 1) s = c # s" by (cases ?n) auto
    with 2 False n unquote_escRune [OF n] show ?thesis by (simp add: validUTF8.simps quoteBody.simps)
  qed
qed simp

subsection \<open>Quoted strings are valid\<close>

lemma runeLen_append:
  assumes "runeLen s \<noteq> 0"
  shows "runeLen (s @ t) = runeLen s"
proof -
  have "take (runeLen s) s @ drop (runeLen s) s @ t = s @ t" by simp
  with runeLen_take(1) [OF assms, of "drop (runeLen s) s @ t"] show ?thesis by metis
qed

lemma validUTF8_append: "validUTF8 s \<Longrightarrow> validUTF8 t \<Longrightarrow> validUTF8 (s @ t)"
proof (induction s rule: validUTF8.induct)
  case (2 c s)
  show ?case
  proof (cases "code_of c < (128::nat)")
    case True
    with 2 show ?thesis by (simp add: validUTF8.simps)
  next
    case False
    with 2 have n: "runeLen (c # s) \<noteq> 0" by (simp add: validUTF8.simps)
    then have "runeLen (c # s) - 1 \<le> length s" using runeLen_take(2) [OF n] by simp
    with 2 False n runeLen_append [OF n, of t] show ?thesis by (simp add: validUTF8.simps)
  qed
qed simp

lemma ascii_validUTF8: "isASCII s \<Longrightarrow> validUTF8 s"
  by (induction s) (auto simp: validUTF8.simps isASCII_def)

lemma hexDig_ascii: "n < 16 \<Longrightarrow> code_of (hexDig n) < (128::nat)"
proof -
  have "list_all (\<lambda>n. code_of (hexDig n) < (128::nat)) [0..<16]" by code_simp
  then show "n < 16 \<Longrightarrow> code_of (hexDig n) < (128::nat)" by (simp add: list_all_iff)
qed

lemma u4_ascii: "isASCII (u4 n)"
  by (simp add: isASCII_def u4_def bslash_facts hexDig_ascii)

lemma escChar_ascii: "code_of c < (128::nat) \<Longrightarrow> isASCII (escChar c)"
  using u4_ascii by (simp add: escChar_def) (simp add: isASCII_def bslash_facts)

lemma validUTF8_rune:
  assumes "runeLen s \<noteq> 0"
  shows "validUTF8 (escRune (take (runeLen s) s))"
proof -
  let ?w = "take (runeLen s) s"
  obtain c w where w: "?w = c # w" "128 \<le> code_of c" using runeLen_take(2,3) [OF assms] assms by (cases ?w) auto
  have "length ?w = runeLen s" using runeLen_take(2) [OF assms] by simp
  then have "runeLen s = Suc (length w)" using w(1) by simp
  moreover have "runeLen (c # w) = runeLen s" using runeLen_take(1) [OF assms, of "[]"] w(1) by simp
  ultimately have "validUTF8 ?w" using w by (simp add: validUTF8.simps)
  then show ?thesis by (simp add: escRune_def u4_ascii ascii_validUTF8)
qed

lemma validUTF8_quoteBody: "validUTF8 (quoteBody s)"
proof (induction s rule: quoteBody.induct)
  case (2 c s)
  then show ?case
    using validUTF8_rune [of "c # s"]
    by (auto simp: quoteBody.simps ascii_validUTF8 escChar_ascii u4_ascii simp del: take_Cons intro!: validUTF8_append)
qed simp

section \<open>Documents\<close>

datatype json = JNull | JBool bool | JNum string | JStr string | JArr "json list" | JObj "(string \<times> json) list"

text \<open>A number: the longest run of its characters, which must have the form of a JSON number.\<close>

definition isNumChar :: "char \<Rightarrow> bool" where
  "isNumChar c \<longleftrightarrow> isDigit c \<or> c \<in> set ''+-.eE''"

definition validExp :: "string \<Rightarrow> bool" where
  "validExp s \<longleftrightarrow>
     (case s of
        [] \<Rightarrow> True
      | e # r \<Rightarrow> e \<in> set ''eE'' \<and>
          (let d = (case r of c # r' \<Rightarrow> if c \<in> set ''+-'' then r' else r | [] \<Rightarrow> r) in d \<noteq> [] \<and> list_all isDigit d))"

definition validFrac :: "string \<Rightarrow> bool" where
  "validFrac s \<longleftrightarrow>
     (if s \<noteq> [] \<and> hd s = CHR ''.'' then takeWhile isDigit (tl s) \<noteq> [] \<and> validExp (dropWhile isDigit (tl s))
      else validExp s)"

definition validNumber :: "string \<Rightarrow> bool" where
  "validNumber s \<longleftrightarrow>
     (let r = (case s of c # r \<Rightarrow> if c = CHR ''-'' then r else s | [] \<Rightarrow> s); d = takeWhile isDigit r in
      d \<noteq> [] \<and> (hd d = CHR ''0'' \<longrightarrow> length d = 1) \<and> validFrac (dropWhile isDigit r) \<and> list_all isNumChar s)"

definition quoted :: "string \<Rightarrow> string" where
  "quoted b = dquote # b @ [dquote]"

fun jsonText :: "json \<Rightarrow> string" where
  "jsonText JNull = ''null''"
| "jsonText (JBool b) = (if b then ''true'' else ''false'')"
| "jsonText (JNum s) = s"
| "jsonText (JStr b) = quoted b"
| "jsonText (JArr xs) = ''['' @ joinWith '','' (map jsonText xs) @ '']''"
| "jsonText (JObj kvs) = ''{'' @ joinWith '','' (map (\<lambda>(k, v). quoted k @ CHR '':'' # jsonText v) kvs) @ ''}''"

definition isJsonWs :: "char \<Rightarrow> bool" where
  "isJsonWs c \<longleftrightarrow> code_of c \<in> {32, 9, 13, 10::nat}"

abbreviation skipWs :: "string \<Rightarrow> string" where
  "skipWs s \<equiv> dropWhile isJsonWs s"

text \<open>
  The reader of a value, of the elements of an array after its bracket and of the members of
  an object after its brace.  The second argument is the nesting that is left, of the 10000
  levels that the package allows; the first bounds the recursion.
\<close>

definition jatom :: "string \<Rightarrow> (json \<times> string) option" where
  "jatom s =
     (if HasPrefix s ''null'' then Some (JNull, drop 4 s)
      else if HasPrefix s ''true'' then Some (JBool True, drop 4 s)
      else if HasPrefix s ''false'' then Some (JBool False, drop 5 s)
      else if validNumber (takeWhile isNumChar s) then Some (JNum (takeWhile isNumChar s), dropWhile isNumChar s)
      else None)"

fun jval :: "nat \<Rightarrow> nat \<Rightarrow> string \<Rightarrow> (json \<times> string) option"
  and jelems :: "nat \<Rightarrow> nat \<Rightarrow> string \<Rightarrow> (json list \<times> string) option"
  and jmembers :: "nat \<Rightarrow> nat \<Rightarrow> string \<Rightarrow> ((string \<times> json) list \<times> string) option" where
  "jval 0 d s = None"
| "jval (Suc k) d s =
     (case skipWs s of
        [] \<Rightarrow> None
      | c # r \<Rightarrow>
          if c = dquote then map_option (\<lambda>(b, t). (JStr b, t)) (lexStr r)
          else if c = CHR ''['' then
            (if d = 0 then None
             else case skipWs r of
               [] \<Rightarrow> None
             | e # t \<Rightarrow> if e = CHR '']'' then Some (JArr [], t)
                 else map_option (\<lambda>(xs, t). (JArr xs, t)) (jelems k (d - 1) r))
          else if c = CHR ''{'' then
            (if d = 0 then None
             else case skipWs r of
               [] \<Rightarrow> None
             | e # t \<Rightarrow> if e = CHR ''}'' then Some (JObj [], t)
                 else map_option (\<lambda>(xs, t). (JObj xs, t)) (jmembers k (d - 1) r))
          else jatom (c # r))"
| "jelems 0 d s = None"
| "jelems (Suc k) d s =
     (case jval k d s of
        None \<Rightarrow> None
      | Some (v, r) \<Rightarrow>
          (case skipWs r of
             [] \<Rightarrow> None
           | c # t \<Rightarrow>
               if c = CHR '','' then map_option (\<lambda>(xs, t). (v # xs, t)) (jelems k d t)
               else if c = CHR '']'' then Some ([v], t) else None))"
| "jmembers 0 d s = None"
| "jmembers (Suc k) d s =
     (case skipWs s of
        [] \<Rightarrow> None
      | q # s1 \<Rightarrow>
          if q \<noteq> dquote then None
          else case lexStr s1 of
            None \<Rightarrow> None
          | Some (key, s2) \<Rightarrow>
              (case skipWs s2 of
                 [] \<Rightarrow> None
               | c1 # s3 \<Rightarrow>
                   if c1 \<noteq> CHR '':'' then None
                   else case jval k d s3 of
                     None \<Rightarrow> None
                   | Some (v, r) \<Rightarrow>
                       (case skipWs r of
                          [] \<Rightarrow> None
                        | c # t \<Rightarrow>
                            if c = CHR '','' then map_option (\<lambda>(xs, t). ((key, v) # xs, t)) (jmembers k d t)
                            else if c = CHR ''}'' then Some ([(key, v)], t) else None)))"

definition jsonParse :: "string \<Rightarrow> json option" where
  "jsonParse s =
     (case jval (2 * length s + 2) 10000 s of
        None \<Rightarrow> None
      | Some (v, r) \<Rightarrow> if skipWs r = [] then Some v else None)"

subsection \<open>Reading back a document\<close>

text \<open>Documents whose strings and numbers have a text, with at most \<open>d\<close> levels.\<close>

definition strOk :: "string \<Rightarrow> bool" where
  "strOk b \<longleftrightarrow> (\<forall>t. lexStr (b @ dquote # t) = Some (b, t)) \<and> validUTF8 b"

fun jsonOk :: "nat \<Rightarrow> json \<Rightarrow> bool" where
  "jsonOk d JNull = True"
| "jsonOk d (JBool b) = True"
| "jsonOk d (JNum s) = validNumber s"
| "jsonOk d (JStr b) = strOk b"
| "jsonOk d (JArr xs) = (0 < d \<and> (\<forall>x \<in> set xs. jsonOk (d - 1) x))"
| "jsonOk d (JObj kvs) = (0 < d \<and> (\<forall>kv \<in> set kvs. strOk (fst kv) \<and> jsonOk (d - 1) (snd kv)))"

lemma strOk_quoteBody: "strOk (quoteBody s)"
  by (simp add: strOk_def lexStr_quoteBody lexStr.simps pre_def validUTF8_quoteBody)

definition stops :: "string \<Rightarrow> bool" where
  "stops r \<longleftrightarrow> (case r of [] \<Rightarrow> True | c # _ \<Rightarrow> \<not> isNumChar c)"

lemma numChar_facts:
  assumes "isNumChar c"
  shows "c \<noteq> dquote" "c \<noteq> CHR ''[''" "c \<noteq> CHR ''{''" "\<not> isJsonWs c" "c \<noteq> CHR '']''" "c \<noteq> CHR ''}''"
    "c \<noteq> CHR ''n''" "c \<noteq> CHR ''t''" "c \<noteq> CHR ''f''"
  using assms by (auto simp: isNumChar_def isDigit_def isJsonWs_def dquote_def)

lemma not_numChar: "\<not> isNumChar (CHR '','')" "\<not> isNumChar (CHR '']'')" "\<not> isNumChar (CHR ''}'')"
  by (simp_all add: isNumChar_def isDigit_def)

lemma not_ws: "\<not> isJsonWs dquote" "\<not> isJsonWs (CHR ''['')" "\<not> isJsonWs (CHR ''{'')" "\<not> isJsonWs (CHR '','')"
  "\<not> isJsonWs (CHR '']'')" "\<not> isJsonWs (CHR ''}'')" "\<not> isJsonWs (CHR '':'')" "\<not> isJsonWs (CHR ''n'')"
  "\<not> isJsonWs (CHR ''t'')" "\<not> isJsonWs (CHR ''f'')"
  by (simp_all add: isJsonWs_def dquote_def)

lemma validNumber_chars: "validNumber s \<Longrightarrow> s \<noteq> [] \<and> list_all isNumChar s"
  by (auto simp: validNumber_def Let_def split: list.splits)

lemma takeWhile_num: "list_all isNumChar s \<Longrightarrow> stops r \<Longrightarrow> takeWhile isNumChar (s @ r) = s \<and> dropWhile isNumChar (s @ r) = r"
  by (induction s) (auto simp: stops_def split: list.splits)

lemma jsonText_hd:
  assumes "jsonOk d j"
  obtains c t where "jsonText j = c # t" "\<not> isJsonWs c" "c \<noteq> CHR '']''" "c \<noteq> CHR ''}''"
proof (cases j)
  case (JNum s)
  with assms obtain c t where "s = c # t" "isNumChar c" using validNumber_chars [of s] by (cases s) auto
  with JNum that numChar_facts [of c] show ?thesis by simp
next
  case (JBool b)
  then show ?thesis using that not_ws by (cases b) auto
qed (use that not_ws in \<open>auto simp: quoted_def dquote_def\<close>)

lemma jatom_num:
  assumes "validNumber s" and "stops r"
  shows "jatom (s @ r) = Some (JNum s, r)"
proof -
  from validNumber_chars [OF assms(1)] obtain c t where s: "s = c # t" and c: "isNumChar c" by (cases s) auto
  from c have "\<not> HasPrefix (s @ r) ''null''" "\<not> HasPrefix (s @ r) ''true''" "\<not> HasPrefix (s @ r) ''false''"
    by (auto simp: s HasPrefix_def dest: numChar_facts)
  with assms takeWhile_num [of s r] validNumber_chars show ?thesis by (simp add: jatom_def)
qed

lemma jelems_text:
  assumes "\<And>x k r. x \<in> set xs \<Longrightarrow> 2 * length (jsonText x) < k \<Longrightarrow> stops r \<Longrightarrow> jval k d (jsonText x @ r) = Some (x, r)"
  shows "xs \<noteq> [] \<Longrightarrow> 2 * length (joinWith '','' (map jsonText xs)) + 2 \<le> k \<Longrightarrow>
    jelems k d (joinWith '','' (map jsonText xs) @ CHR '']'' # r) = Some (xs, r)"
  using assms
proof (induction xs arbitrary: k)
  case (Cons x xs)
  obtain m where k: "k = Suc m" using Cons.prems(2) by (cases k) auto
  show ?case
  proof (cases xs)
    case Nil
    then show ?thesis
      using Cons.prems(3) [of x m "CHR '']'' # r"] Cons.prems(2) by (simp add: k stops_def not_numChar not_ws)
  next
    case (Cons y ys)
    let ?t = "joinWith '','' (map jsonText xs)"
    have j: "joinWith '','' (map jsonText (x # xs)) = jsonText x @ CHR '','' # ?t" using Cons by simp
    then have "2 * length (jsonText x) < m" "2 * length ?t + 2 \<le> m" using Cons.prems(2) by (simp_all add: k)
    moreover have "stops (CHR '','' # ?t @ CHR '']'' # r)" by (simp add: stops_def not_numChar)
    ultimately show ?thesis
      using Cons.prems(3) [of x m "CHR '','' # ?t @ CHR '']'' # r"] Cons.IH [of m] Cons Cons.prems(3)
      by (simp only: j k append_assoc append_Cons) (simp add: not_ws)
  qed
qed simp

abbreviation memberText :: "string \<times> json \<Rightarrow> string" where
  "memberText \<equiv> (\<lambda>(k, v). quoted k @ CHR '':'' # jsonText v)"

lemma jmembers_one:
  assumes "strOk key" and "\<And>r. stops r \<Longrightarrow> jval m d (jsonText v @ r) = Some (v, r)" and "stops (c # r)" "\<not> isJsonWs c"
  shows "jmembers (Suc m) d (memberText (key, v) @ c # r) =
    (if c = CHR '','' then map_option (\<lambda>(xs, t). ((key, v) # xs, t)) (jmembers m d r)
     else if c = CHR ''}'' then Some ([(key, v)], r) else None)"
  using assms by (simp add: quoted_def strOk_def not_ws)

lemma jmembers_text:
  assumes "\<And>x k r. x \<in> set xs \<Longrightarrow> 2 * length (jsonText (snd x)) < k \<Longrightarrow> stops r \<Longrightarrow>
      jval k d (jsonText (snd x) @ r) = Some (snd x, r)"
    and "\<forall>x \<in> set xs. strOk (fst x)"
  shows "xs \<noteq> [] \<Longrightarrow> 2 * length (joinWith '','' (map memberText xs)) + 2 \<le> k \<Longrightarrow>
    jmembers k d (joinWith '','' (map memberText xs) @ CHR ''}'' # r) = Some (xs, r)"
  using assms
proof (induction xs arbitrary: k)
  case (Cons x xs)
  obtain m where k: "k = Suc m" using Cons.prems(2) by (cases k) auto
  obtain key v where x: "x = (key, v)" by fastforce
  have "2 * length (jsonText v) < m" using Cons.prems(2) by (cases xs) (simp_all add: k x)
  then have jv: "jval m d (jsonText v @ r) = Some (v, r)" if "stops r" for r
    using Cons.prems(3) [of x m r] that by (simp add: x)
  have one: "jmembers k d (memberText x @ c # r) =
      (if c = CHR '','' then map_option (\<lambda>(xs, t). (x # xs, t)) (jmembers m d r) else Some ([x], r))"
    if "c \<in> {CHR '','', CHR ''}''}" for c r
    unfolding k x by (subst jmembers_one [OF _ jv])
      (use Cons.prems(4) x that in \<open>auto simp: stops_def not_numChar not_ws\<close>)
  show ?case
  proof (cases "xs = []")
    case True
    then show ?thesis using one [of "CHR ''}''" r] by simp
  next
    case False
    let ?t = "joinWith '','' (map memberText xs)"
    have j: "joinWith '','' (map memberText (x # xs)) = memberText x @ CHR '','' # ?t" using False by (cases xs) auto
    then have "2 * length ?t + 2 \<le> m" using Cons.prems(2) by (simp add: k)
    then have "jmembers m d (?t @ CHR ''}'' # r) = Some (xs, r)" using False Cons.IH Cons.prems by auto
    then show ?thesis using one [of "CHR '',''" "?t @ CHR ''}'' # r"] unfolding j by simp
  qed
qed simp

lemma jval_text:
  "jsonOk d j \<Longrightarrow> 2 * length (jsonText j) < k \<Longrightarrow> stops r \<Longrightarrow> jval k d (jsonText j @ r) = Some (j, r)"
proof (induction j arbitrary: d k r)
  case (JArr xs)
  obtain m where k: "k = Suc m" using JArr.prems(2) by (cases k) auto
  show ?case
  proof (cases xs)
    case (Cons x ys)
    have "jsonOk (d - 1) x" using JArr.prems(1) Cons by simp
    then obtain c t where c: "jsonText x = c # t" "\<not> isJsonWs c" "c \<noteq> CHR '']''"
      by (metis jsonText_hd)
    let ?t = "joinWith '','' (map jsonText xs)"
    obtain t' where t': "?t = c # t'" using c Cons by (cases ys) auto
    have "jelems m (d - 1) (?t @ CHR '']'' # r) = Some (xs, r)"
      by (rule jelems_text) (use JArr Cons k in auto)
    then show ?thesis using JArr.prems(1) c by (simp add: k t' not_ws dquote_def)
  qed (use JArr.prems k in \<open>simp add: not_ws dquote_def\<close>)
next
  case (JObj xs)
  obtain m where k: "k = Suc m" using JObj.prems(2) by (cases k) auto
  show ?case
  proof (cases xs)
    case (Cons x ys)
    let ?t = "joinWith '','' (map memberText xs)"
    obtain t' where t': "?t = dquote # t'" using Cons by (cases x; cases ys) (auto simp: quoted_def)
    have "jval n (d - 1) (jsonText (snd y) @ t) = Some (snd y, t)"
      if "y \<in> set xs" "2 * length (jsonText (snd y)) < n" "stops t" for y n t
      using JObj.IH [of y "snd y"] JObj.prems(1) that by (cases y) auto
    then have "jmembers m (d - 1) (?t @ CHR ''}'' # r) = Some (xs, r)"
      by (rule jmembers_text) (use JObj.prems Cons k in auto)
    then show ?thesis using JObj.prems(1) by (simp add: k t' not_ws) (simp add: dquote_def)
  qed (use JObj.prems k in \<open>simp add: not_ws dquote_def\<close>)
next
  case (JNum s)
  then obtain m where k: "k = Suc m" by (cases k) auto
  obtain c t where s: "s = c # t" "isNumChar c" using validNumber_chars [of s] JNum(1) by (cases s) auto
  with JNum jatom_num [of s r] numChar_facts [OF s(2)] show ?case by (simp add: k)
next
  case (JStr b)
  then show ?case by (cases k) (simp_all add: quoted_def not_ws strOk_def)
next
  case (JBool b)
  then show ?case by (cases k; cases b) (simp_all add: not_ws jatom_def HasPrefix_def dquote_def)
next
  case JNull
  then show ?case by (cases k) (simp_all add: not_ws jatom_def HasPrefix_def dquote_def)
qed

theorem jsonParse_text: "jsonOk 10000 j \<Longrightarrow> jsonParse (jsonText j) = Some j"
  using jval_text [of 10000 j "2 * length (jsonText j) + 2" "[]"] by (simp add: jsonParse_def stops_def)

subsection \<open>The text is one line\<close>

lemma hexVal_code: "hexVal c \<noteq> None \<Longrightarrow> 32 \<le> code_of c"
  by (auto simp: hexVal_def isDigit_def split: if_splits)

lemma getu4_codes: "getu4 (c # s) \<noteq> None \<Longrightarrow> \<forall>x \<in> set (take 5 s). 32 \<le> code_of x"
  using hexVal_code by (fastforce simp: getu4_def split: list.splits if_splits option.splits)

lemma plainEsc_code: "plainEsc e \<noteq> None \<Longrightarrow> 32 \<le> code_of e"
  by (auto simp: plainEsc_def dquote_def bslash_def split: if_splits)

lemma lexStr_codes: "lexStr s = Some (b, r) \<Longrightarrow> \<forall>c \<in> set b. 32 \<le> code_of c"
proof (induction s arbitrary: b r rule: lexStr.induct)
  case (2 c s)
  consider "c = dquote" | "c \<noteq> dquote" "c \<noteq> bslash" | "c = bslash" "getu4 (c # s) \<noteq> None"
    | "c = bslash" "getu4 (c # s) = None" by blast
  then show ?case
  proof cases
    case 1
    with 2(4) show ?thesis by (simp add: lexStr.simps)
  next
    case 2
    with "2.prems" "2.IH"(1) show ?thesis by (fastforce simp: lexStr.simps pre_def split: if_splits)
  next
    case 3
    with "2.prems" "2.IH"(2) getu4_codes [OF 3(2)] show ?thesis
      by (fastforce simp: lexStr.simps pre_def bslash_facts split: if_splits)
  next
    case 4
    with "2.prems" "2.IH"(3) plainEsc_code show ?thesis
      by (fastforce simp: lexStr.simps pre_def bslash_facts split: if_splits list.splits)
  qed
qed simp

lemma strOk_codes: "strOk b \<Longrightarrow> \<forall>c \<in> set b. 32 \<le> code_of c"
  using lexStr_codes [of "b @ [dquote]" b "[]"] by (auto simp: strOk_def)

lemma joinWith_set: "set (joinWith sep ws) \<subseteq> set sep \<union> \<Union> (set (map set ws))"
proof (induction ws)
  case (Cons w ws)
  then show ?case by (cases ws) auto
qed simp

lemma jsonText_codes: "jsonOk d j \<Longrightarrow> \<forall>c \<in> set (jsonText j). 32 \<le> code_of c"
proof (induction j arbitrary: d)
  case (JNum s)
  then show ?case using validNumber_chars [of s] by (auto simp: list_all_iff isNumChar_def isDigit_def)
next
  case (JStr b)
  then show ?case using strOk_codes [of b] by (auto simp: quoted_def bslash_facts)
next
  case (JArr xs)
  have "\<forall>c \<in> set (jsonText x). 32 \<le> code_of c" if "x \<in> set xs" for x using JArr that by auto
  then show ?case using joinWith_set [of "'',''" "map jsonText xs"] by fastforce
next
  case (JObj xs)
  have "\<forall>c \<in> set (memberText x). 32 \<le> code_of c" if "x \<in> set xs" for x
    using JObj.IH [of x "snd x"] JObj.prems strOk_codes [of "fst x"] that by (cases x) (auto simp: quoted_def bslash_facts)
  then show ?case using joinWith_set [of "'',''" "map memberText xs"] by fastforce
qed auto

lemma validUTF8_join: "\<forall>w \<in> set ws. validUTF8 w \<Longrightarrow> validUTF8 sep \<Longrightarrow> validUTF8 (joinWith sep ws)"
proof (induction ws)
  case (Cons w ws)
  then show ?case by (cases ws) (auto intro!: validUTF8_append)
qed simp

lemma validUTF8_ascii_Cons: "code_of c < (128::nat) \<Longrightarrow> validUTF8 (c # s) = validUTF8 s"
  by (simp add: validUTF8.simps)

lemma validUTF8_quoted: "validUTF8 b \<Longrightarrow> validUTF8 (quoted b)"
  by (simp add: quoted_def validUTF8_ascii_Cons bslash_facts validUTF8_append)

lemma validUTF8_jsonText: "jsonOk d j \<Longrightarrow> validUTF8 (jsonText j)"
proof (induction j arbitrary: d)
  case (JNum s)
  then show ?case using validNumber_chars [of s]
    by (intro ascii_validUTF8) (auto simp: isASCII_def list_all_iff isNumChar_def isDigit_def)
next
  case (JStr b)
  then show ?case by (simp add: strOk_def validUTF8_quoted)
next
  case (JArr xs)
  have "\<forall>w \<in> set (map jsonText xs). validUTF8 w" using JArr by auto
  then show ?case by (simp add: validUTF8_ascii_Cons validUTF8_append validUTF8_join)
next
  case (JObj xs)
  have "validUTF8 (memberText x)" if "x \<in> set xs" for x
    using JObj.IH [of x "snd x"] JObj.prems that
    by (cases x) (auto simp: strOk_def validUTF8_ascii_Cons intro!: validUTF8_append validUTF8_quoted)
  then have "\<forall>w \<in> set (map memberText xs). validUTF8 w" by (simp del: split_paired_All)
  then show ?case by (simp add: validUTF8_ascii_Cons validUTF8_append validUTF8_join)
qed (auto simp: validUTF8_ascii_Cons)

lemma jsonText_no_LF: "jsonOk d j \<Longrightarrow> LF \<notin> set (jsonText j)"
  using jsonText_codes [of d j] by (force simp: LF_def)

section \<open>Numbers and bytes\<close>

lemma showNat_hd: "hd (showNat n) = CHR ''0'' \<Longrightarrow> length (showNat n) = 1"
proof (induction n rule: showNat.induct)
  case (1 n)
  show ?case
  proof (cases "n < 10")
    case False
    then have "hd (showNat (n div 10)) = CHR ''0''" using 1(2) by (simp add: showNat.simps [of n])
    with 1(1) False have l: "length (showNat (n div 10)) = 1" by simp
    then have "n div 10 < 10" by (metis False length_0_conv length_append list.size(3) n_not_Suc_n showNat.simps showNat_nonempty One_nat_def add_Suc_right length_Cons add.right_neutral nat.inject)
    with False 1(2) have "char_of (48 + n div 10) = CHR ''0''"
      by (simp add: showNat.simps [of n] showNat.simps [of "n div 10"] digitChar_def)
    then have "code_of (char_of (48 + n div 10) :: char) = (48::nat)" by simp
    with False \<open>n div 10 < 10\<close> show ?thesis by simp
  qed (simp add: showNat.simps [of n])
qed

lemma validNumber_showNat: "validNumber (showNat n)"
proof -
  have d: "list_all isDigit (showNat n)" using showNat_digits [of n] by (simp add: list_all_iff)
  then have t: "takeWhile isDigit (showNat n) = showNat n" "dropWhile isDigit (showNat n) = []"
    by (auto simp: list_all_iff)
  have "\<not> (\<exists>r. showNat n = CHR ''-'' # r)" using d by (auto simp: isDigit_def)
  then have "(case showNat n of c # r \<Rightarrow> if c = CHR ''-'' then r else showNat n | [] \<Rightarrow> showNat n) = showNat n"
    by (auto split: list.splits)
  moreover have "list_all isNumChar (showNat n)" using d by (simp add: list_all_iff isNumChar_def)
  ultimately show ?thesis using showNat_hd [of n] d
    by (simp add: validNumber_def Let_def validFrac_def validExp_def t list_all_iff)
qed

lemma validNumber_minus: "validNumber s \<Longrightarrow> hd s \<noteq> CHR ''-'' \<Longrightarrow> validNumber (CHR ''-'' # s)"
  by (cases s) (auto simp: validNumber_def Let_def isNumChar_def)

lemma validNumber_FormatInt: "validNumber (FormatInt i)"
proof -
  have "hd (showNat n) \<noteq> CHR ''-''" for n
    using showNat_digits [of n] by (cases "showNat n") (auto simp: isDigit_def)
  then show ?thesis by (simp add: FormatInt_def validNumber_showNat validNumber_minus)
qed

text \<open>\<open>base64.StdEncoding\<close>; the decoder skips the characters of line ends.\<close>

definition b64Alphabet :: string where
  "b64Alphabet = ''ABCDEFGHIJKLMNOPQRSTUVWXYZabcdefghijklmnopqrstuvwxyz0123456789+/''"

definition b64Char :: "nat \<Rightarrow> char" where
  "b64Char n = b64Alphabet ! n"

definition b64Val :: "char \<Rightarrow> nat option" where
  "b64Val c = map_of (zip b64Alphabet [0..<64]) c"

fun b64Enc :: "string \<Rightarrow> string" where
  "b64Enc [] = []"
| "b64Enc [a] = [b64Char (code_of a div 4), b64Char (code_of a mod 4 * 16), CHR ''='', CHR ''='']"
| "b64Enc [a, b] =
     [b64Char (code_of a div 4), b64Char (code_of a mod 4 * 16 + code_of b div 16), b64Char (code_of b mod 16 * 4), CHR ''='']"
| "b64Enc (a # b # c # r) =
     b64Char (code_of a div 4) # b64Char (code_of a mod 4 * 16 + code_of b div 16) #
     b64Char (code_of b mod 16 * 4 + code_of c div 64) # b64Char (code_of c mod 64) # b64Enc r"

fun b64Quads :: "string \<Rightarrow> string option" where
  "b64Quads [] = Some []"
| "b64Quads (p # q # r # s # t) =
     (case (b64Val p, b64Val q) of
        (Some i, Some j) \<Rightarrow>
          (case b64Val r of
             Some k \<Rightarrow>
               (case b64Val s of
                  Some l \<Rightarrow>
                    map_option (\<lambda>w. char_of (i * 4 + j div 16) # char_of (j mod 16 * 16 + k div 4) #
                      char_of (k mod 4 * 64 + l) # w) (b64Quads t)
                | None \<Rightarrow>
                    if s = CHR ''='' \<and> t = []
                    then Some [char_of (i * 4 + j div 16), char_of (j mod 16 * 16 + k div 4)] else None)
           | None \<Rightarrow>
               if r = CHR ''='' \<and> s = CHR ''='' \<and> t = [] then Some [char_of (i * 4 + j div 16)] else None)
      | _ \<Rightarrow> None)"
| "b64Quads _ = None"

definition b64Dec :: "string \<Rightarrow> string option" where
  "b64Dec s = b64Quads (filter (\<lambda>c. c \<noteq> CR \<and> c \<noteq> LF) s)"

lemma b64_facts: "n < 64 \<Longrightarrow> b64Val (b64Char n) = Some n \<and> b64Char n \<noteq> CR \<and> b64Char n \<noteq> LF \<and> code_of (b64Char n) < (128::nat)"
  and b64_pad: "b64Val (CHR ''='') = None" "CHR ''='' \<noteq> CR" "CHR ''='' \<noteq> LF"
proof -
  have "list_all (\<lambda>n. b64Val (b64Char n) = Some n \<and> b64Char n \<noteq> CR \<and> b64Char n \<noteq> LF \<and> code_of (b64Char n) < (128::nat)) [0..<64]"
    by code_simp
  then show "n < 64 \<Longrightarrow> b64Val (b64Char n) = Some n \<and> b64Char n \<noteq> CR \<and> b64Char n \<noteq> LF \<and> code_of (b64Char n) < (128::nat)"
    by (simp add: list_all_iff)
  show "b64Val (CHR ''='') = None" "CHR ''='' \<noteq> CR" "CHR ''='' \<noteq> LF" by code_simp+
qed

lemma b64Quads_Enc: "b64Quads (b64Enc s) = Some s \<and> (\<forall>c \<in> set (b64Enc s). c \<noteq> CR \<and> c \<noteq> LF \<and> code_of c < (128::nat))"
proof (induction s rule: b64Enc.induct)
  case (4 a b c r)
  have l: "code_of a < (256::nat)" "code_of b < (256::nat)" "code_of c < (256::nat)" by simp_all
  have "code_of a div 4 < (64::nat)" "code_of a mod 4 * 16 + code_of b div 16 < (64::nat)"
    "code_of b mod 16 * 4 + code_of c div 64 < (64::nat)" "code_of c mod 64 < (64::nat)" using l by linarith+
  note f = this [THEN b64_facts]
  have q: "code_of b div 16 < (16::nat)" "code_of c div 64 < (4::nat)" using l by linarith+
  have "code_of a div 4 * 4 + (code_of a mod 4 * 16 + code_of b div 16) div 16 = (code_of a :: nat)"
    "(code_of a mod 4 * 16 + code_of b div 16) mod 16 * 16 + (code_of b mod 16 * 4 + code_of c div 64) div 4 = (code_of b :: nat)"
    "(code_of b mod 16 * 4 + code_of c div 64) mod 4 * 64 + code_of c mod 64 = (code_of c :: nat)" using q by simp_all
  with 4 f show ?case by simp
next
  case (3 a b)
  have l: "code_of a < (256::nat)" "code_of b < (256::nat)" by simp_all
  have "code_of a div 4 < (64::nat)" "code_of a mod 4 * 16 + code_of b div 16 < (64::nat)" "code_of b mod 16 * 4 < (64::nat)"
    using l by linarith+
  note f = this [THEN b64_facts]
  have q: "code_of b div 16 < (16::nat)" using l by linarith
  have "code_of a div 4 * 4 + (code_of a mod 4 * 16 + code_of b div 16) div 16 = (code_of a :: nat)"
    "(code_of a mod 4 * 16 + code_of b div 16) mod 16 * 16 + code_of b mod 16 * 4 div 4 = (code_of b :: nat)" using q by simp_all
  with f show ?case by (simp add: b64_pad)
next
  case (2 a)
  have l: "code_of a < (256::nat)" by simp
  have "code_of a div 4 < (64::nat)" "code_of a mod 4 * 16 < (64::nat)" using l by linarith+
  note f = this [THEN b64_facts]
  then show ?case by (simp add: b64_pad)
qed simp

lemma b64_roundtrip: "b64Dec (b64Enc s) = Some s"
  using b64Quads_Enc [of s] by (simp add: b64Dec_def filter_True)

section \<open>Decoding into Go values\<close>

text \<open>
  \<open>json.Unmarshal\<close> into a variable: \<open>null\<close> leaves the variable, a value of the wrong kind is
  an error.  The argument \<open>v\<close> is what the variable holds before.
\<close>

definition jString :: "json \<Rightarrow> string \<Rightarrow> string option" where
  "jString j v = (case j of JStr b \<Rightarrow> Some (unquoteBody b) | JNull \<Rightarrow> Some v | _ \<Rightarrow> None)"

definition jUint :: "nat \<Rightarrow> json \<Rightarrow> nat \<Rightarrow> nat option" where
  "jUint w j v =
     (case j of
        JNum s \<Rightarrow> (case parseUint s of Some n \<Rightarrow> if n < 2 ^ w then Some n else None | None \<Rightarrow> None)
      | JNull \<Rightarrow> Some v
      | _ \<Rightarrow> None)"

definition jInt64 :: "json \<Rightarrow> int \<Rightarrow> int option" where
  "jInt64 j v = (case j of JNum s \<Rightarrow> ParseInt s | JNull \<Rightarrow> Some v | _ \<Rightarrow> None)"

definition jFloat64 :: "ext \<Rightarrow> json \<Rightarrow> 64 word \<Rightarrow> 64 word option" where
  "jFloat64 E j v = (case j of JNum s \<Rightarrow> parseFloat E s | JNull \<Rightarrow> Some v | _ \<Rightarrow> None)"

text \<open>A time unmarshals itself, from the bytes between the quotes.\<close>

definition jTime :: "ext \<Rightarrow> json \<Rightarrow> gotime \<Rightarrow> gotime option" where
  "jTime E j v = (case j of JStr b \<Rightarrow> parseTime E b | JNull \<Rightarrow> Some v | _ \<Rightarrow> None)"

fun mapOption :: "('a \<Rightarrow> 'b option) \<Rightarrow> 'a list \<Rightarrow> 'b list option" where
  "mapOption f [] = Some []"
| "mapOption f (x # xs) =
     (case f x of None \<Rightarrow> None | Some y \<Rightarrow> map_option (\<lambda>ys. y # ys) (mapOption f xs))"

definition jSlice :: "(json \<Rightarrow> 'a option) \<Rightarrow> json \<Rightarrow> 'a list option" where
  "jSlice f j = (case j of JArr xs \<Rightarrow> mapOption f xs | JNull \<Rightarrow> Some [] | _ \<Rightarrow> None)"

definition jMap :: "(json \<Rightarrow> 'a option) \<Rightarrow> json \<Rightarrow> (string \<times> 'a) list option" where
  "jMap f j =
     (case j of
        JObj kvs \<Rightarrow>
          map_option (\<lambda>vs. fold (\<lambda>(k, v). AList.update k v) vs [])
            (mapOption (\<lambda>(k, v). map_option (Pair (unquoteBody k)) (f v)) kvs)
      | JNull \<Rightarrow> Some []
      | _ \<Rightarrow> None)"

text \<open>A slice of bytes is a base64 string, or an array of numbers.\<close>

definition jBytes :: "json \<Rightarrow> string option" where
  "jBytes j =
     (case j of
        JStr b \<Rightarrow> b64Dec (unquoteBody b)
      | _ \<Rightarrow> map_option (map char_of) (jSlice (\<lambda>x. jUint 8 x 0) j))"

text \<open>
  The key of an object names a field of a struct when both agree up to simple case folding;
  besides the letters, only U+017F and U+212A fold to ASCII.
\<close>

fun foldName :: "string \<Rightarrow> string" where
  "foldName [] = []"
| "foldName (c # s) =
     (if code_of c = (197::nat) \<and> HasPrefix s [char_of (191::nat)] then CHR ''S'' # foldName (drop 1 s)
      else if code_of c = (226::nat) \<and> HasPrefix s (map char_of [132::nat, 170]) then CHR ''K'' # foldName (drop 2 s)
      else upperChar c # foldName s)"

definition keyIs :: "string \<Rightarrow> string \<Rightarrow> bool" where
  "keyIs name raw \<longleftrightarrow> foldName (unquoteBody raw) = foldName name"

text \<open>The fields of a struct in the order of the document, from the values \<open>r\<close>.\<close>

fun jFields :: "(string \<Rightarrow> json \<Rightarrow> 'r \<Rightarrow> 'r option) \<Rightarrow> (string \<times> json) list \<Rightarrow> 'r \<Rightarrow> 'r option" where
  "jFields f [] r = Some r"
| "jFields f ((k, v) # kvs) r = (case f k v r of None \<Rightarrow> None | Some r' \<Rightarrow> jFields f kvs r')"

definition jStruct :: "(string \<Rightarrow> json \<Rightarrow> 'r \<Rightarrow> 'r option) \<Rightarrow> json \<Rightarrow> 'r \<Rightarrow> 'r option" where
  "jStruct f j r = (case j of JObj kvs \<Rightarrow> jFields f kvs r | JNull \<Rightarrow> Some r | _ \<Rightarrow> None)"

definition jstr :: "string \<Rightarrow> json" where
  "jstr s = JStr (quoteBody s)"

lemma jString_jstr [simp]: "validUTF8 s \<Longrightarrow> jString (jstr s) v = Some s"
  by (simp add: jString_def jstr_def unquote_quoteBody)

lemma jsonOk_jstr [simp]: "jsonOk d (jstr s)"
  by (simp add: jstr_def strOk_quoteBody)

lemma mapOption_map: "\<forall>x \<in> set xs. f (g x) = Some (h x) \<Longrightarrow> mapOption f (map g xs) = Some (map h xs)"
  by (induction xs) auto

lemma jBytes_b64: "jBytes (jstr (b64Enc s)) = Some s"
proof -
  have "validUTF8 (b64Enc s)" using b64Quads_Enc [of s] by (intro ascii_validUTF8) (simp add: isASCII_def)
  then show ?thesis by (simp add: jBytes_def jstr_def unquote_quoteBody b64_roundtrip)
qed

subsection \<open>What the code relies on\<close>

text \<open>
  Documented behaviour of \<open>strconv\<close> and \<open>time\<close>: the shortest decimal form of a float64 reads
  back as the same number, an integer reads as a float64, and the RFC 3339 form of a time of the years 1 to 9999 as the same
  instant; it needs no escapes.
\<close>

definition jsonRange :: "gotime \<Rightarrow> bool" where
  "jsonRange t \<longleftrightarrow> zeroTime \<le> t \<and> t < 253402300800 * 1000000000"

definition rawOk :: "string \<Rightarrow> bool" where
  "rawOk s \<longleftrightarrow> list_all (\<lambda>c. 32 \<le> code_of c \<and> code_of c < (128::nat) \<and> c \<noteq> dquote \<and> c \<noteq> bslash) s"

definition codecLaws :: "ext \<Rightarrow> bool" where
  "codecLaws E \<longleftrightarrow>
     (\<forall>t. jsonRange t \<longrightarrow> parseTime E (jsonTime E t) = Some t \<and> rawOk (jsonTime E t)) \<and>
     (\<forall>f s. jsonFloat E f = Some s \<longrightarrow> validNumber s \<and> parseFloat E s = Some f) \<and>
     (\<forall>i. - (2 ^ 63) \<le> i \<and> i < 2 ^ 64 \<longrightarrow> parseFloat E (FormatInt i) \<noteq> None)"

lemma rawOk_strOk: "rawOk s \<Longrightarrow> strOk s"
proof -
  assume r: "rawOk s"
  have "lexStr (s @ dquote # t) = Some (s, t)" for t
    using r by (induction s) (auto simp: lexStr.simps pre_def rawOk_def)
  moreover have "isASCII s" using r by (auto simp: rawOk_def isASCII_def list_all_iff)
  ultimately show ?thesis by (simp add: strOk_def ascii_validUTF8)
qed

lemma showNat_no_minus: "showNat n \<noteq> CHR ''-'' # r"
  using showNat_digits [of n] by (auto simp: isDigit_def)

lemma ext0_parse_showNat:
  "parseTime ext0 (showNat n) = Some (int n)" "parseFloat ext0 (showNat n) = Some (of_nat n)"
proof -
  obtain c r where s: "showNat n = c # r" by (cases "showNat n") auto
  then have c: "c \<noteq> CHR ''-''" using showNat_no_minus [of n r] by auto
  have "parseTime ext0 (showNat n) = map_option int (parseUint (showNat n))"
    "parseFloat ext0 (showNat n) = map_option of_nat (parseUint (showNat n))"
    using c by (simp_all add: ext0_def s split: char.splits bool.splits)
  then show "parseTime ext0 (showNat n) = Some (int n)" "parseFloat ext0 (showNat n) = Some (of_nat n)" by simp_all
qed

lemma codecLaws_ext0: "codecLaws ext0"
proof -
  have "parseTime ext0 (FormatInt t) = Some t" for t
    by (cases "t < 0") (simp_all add: FormatInt_def ext0_parse_showNat, simp add: ext0_def)
  moreover have "parseFloat ext0 (FormatInt i) \<noteq> None" for i
    by (cases "i < 0") (simp_all add: FormatInt_def ext0_parse_showNat, simp add: ext0_def)
  moreover have "rawOk (FormatInt t)" for t
  proof -
    have "rawOk (showNat n)" for n
      using showNat_digits [of n] by (auto simp: rawOk_def list_all_iff isDigit_def dquote_def bslash_def)
    then show ?thesis by (simp add: FormatInt_def) (simp add: rawOk_def dquote_def bslash_def)
  qed
  moreover have "jsonTime ext0 = FormatInt" "jsonFloat ext0 f = Some (showNat (unat f))" for f by (simp_all add: ext0_def)
  ultimately show ?thesis by (auto simp: codecLaws_def validNumber_showNat ext0_parse_showNat)
qed

end
