(* ===== verification/Snapshot.thy ===== *)
theory Snapshot
  imports Sharded Intern Json
begin

text \<open>
  The warm-restart snapshot of \<open>sharded_frontier.go\<close>: one JSON record per line for every live
  value that has a record, and the load that writes the records back through \<open>AppendAtom\<close>.
  The content of the file stands for the file; a snapshot is taken at one instant.
\<close>

section \<open>Records\<close>

record snapshotRecord =
  srPath :: string
  srValue :: string
  srValueType :: string
  srData :: string
  srExpiresAt :: gotime
  srClock :: nat

record snapElem =
  seT :: string
  seV :: string

text \<open>\<open>json.Marshal\<close> of a value: a map is sorted by its keys, a NaN or an infinity is an error.\<close>

function valueJson :: "ext \<Rightarrow> Value \<Rightarrow> json option" where
  "valueJson E VNil = Some JNull"
| "valueJson E VNull = Some (JObj [])"
| "valueJson E (VBool b) = Some (JBool b)"
| "valueJson E (VInt i) = Some (JNum (FormatInt (sint i)))"
| "valueJson E (VFloat f) = map_option JNum (jsonFloat E f)"
| "valueJson E (VString s) = Some (jstr s)"
| "valueJson E (VBytes s) = Some (jstr (b64Enc s))"
| "valueJson E (VArray vs) = map_option JArr (those (map (valueJson E) vs))"
| "valueJson E (VRecord m) =
     map_option JObj (those (map (\<lambda>kv. map_option (Pair (quoteBody (fst kv))) (valueJson E (snd kv))) (sort_key fst m)))"
  by pat_completeness auto
termination
proof (relation "measure (\<lambda>(E, v). size v)", goal_cases)
  case (2 E vs v)
  then show ?case by (induction vs) auto
next
  case (3 E m kv)
  then show ?case using size_record_elem [of kv m] by simp
qed simp

text \<open>The bytes of \<open>json.Marshal\<close>, none when it fails.\<close>

definition marshalled :: "json option \<Rightarrow> string" where
  "marshalled j = (case j of None \<Rightarrow> [] | Some j \<Rightarrow> jsonText j)"

definition encodeScalar :: "ext \<Rightarrow> Value \<Rightarrow> (string \<times> string) option" where
  "encodeScalar E v =
     (case v of
        VString s \<Rightarrow> Some (s, ''string'')
      | VInt i \<Rightarrow> Some (marshalled (valueJson E v), ''int'')
      | VFloat f \<Rightarrow> Some (marshalled (valueJson E v), ''float'')
      | VBool b \<Rightarrow> Some (if b then ''1'' else ''0'', ''bool'')
      | VBytes s \<Rightarrow> Some (marshalled (valueJson E v), ''bytes'')
      | _ \<Rightarrow> None)"

text \<open>\<open>json.Unmarshal\<close> of the bytes of a document.\<close>

definition unmarshal :: "(json \<Rightarrow> 'a option) \<Rightarrow> string \<Rightarrow> 'a option" where
  "unmarshal f s = (case jsonParse s of None \<Rightarrow> None | Some j \<Rightarrow> f j)"

definition decodeScalar :: "ext \<Rightarrow> string \<Rightarrow> string \<Rightarrow> Value option" where
  "decodeScalar E typ val =
     (if typ = ''string'' then Some (VString val)
      else if typ = ''int'' then map_option (\<lambda>i. VInt (of_int i)) (unmarshal (\<lambda>j. jInt64 j 0) val)
      else if typ = ''float'' then map_option VFloat (unmarshal (\<lambda>j. jFloat64 E j 0) val)
      else if typ = ''bool'' then Some (VBool (val = ''1''))
      else if typ = ''bytes'' then map_option VBytes (unmarshal jBytes val)
      else None)"

section \<open>Saving\<close>

definition encodeElem :: "ext \<Rightarrow> Value \<Rightarrow> snapElem option" where
  "encodeElem E e =
     (case e of
        VRecord m \<Rightarrow> Some \<lparr>seT = ''record'', seV = marshalled (valueJson E e)\<rparr>
      | _ \<Rightarrow> map_option (\<lambda>(v, t). \<lparr>seT = t, seV = v\<rparr>) (encodeScalar E e))"

definition elemJson :: "snapElem \<Rightarrow> json" where
  "elemJson e = JObj [(''t'', jstr (seT e)), (''v'', jstr (seV e))]"

text \<open>The fields \<open>Value\<close>, \<open>ValueType\<close> and \<open>Data\<close> of the record of a value.\<close>

definition encodeValue :: "ext \<Rightarrow> Value \<Rightarrow> (string \<times> string \<times> string) option" where
  "encodeValue E v =
     (case v of
        VArray vs \<Rightarrow>
          map_option (\<lambda>es. ([], ''list'', jsonText (JArr (map elemJson es)))) (those (map (encodeElem E) vs))
      | VRecord m \<Rightarrow>
          (let isZ = list_all (\<lambda>(k, w). case w of VFloat _ \<Rightarrow> True | _ \<Rightarrow> False) m;
               isS = list_all (\<lambda>(k, w). w = VInt 1) m in
           if isZ \<and> m \<noteq> [] then Some ([], ''zset'', marshalled (valueJson E v))
           else if isS then Some ([], ''set'', jsonText (JArr (map (\<lambda>(k, w). jstr k) m)))
           else None)
      | _ \<Rightarrow> map_option (\<lambda>(val, typ). (val, typ, [])) (encodeScalar E v))"

definition recordOf :: "ext \<Rightarrow> string \<Rightarrow> catom \<Rightarrow> snapshotRecord option" where
  "recordOf E path a =
     (case aExpr a of
        EConst v \<Rightarrow>
          map_option (\<lambda>(val, typ, data).
            \<lparr>srPath = path, srValue = val, srValueType = typ, srData = data,
             srExpiresAt = aExpiresAt a, srClock = unat (aLogicalClock a)\<rparr>) (encodeValue E v)
      | _ \<Rightarrow> None)"

text \<open>The tag of \<open>Data\<close> omits the field when it is empty.\<close>

definition recordJson :: "ext \<Rightarrow> snapshotRecord \<Rightarrow> json" where
  "recordJson E r = JObj
     ([(''path'', jstr (srPath r)), (''value'', jstr (srValue r)), (''value_type'', jstr (srValueType r))]
      @ (if srData r = [] then [] else [(''data'', jstr (srData r))])
      @ [(''expires_at'', JStr (jsonTime E (srExpiresAt r))), (''clock'', JNum (showNat (srClock r)))])"

definition saveOne :: "ext \<Rightarrow> gotime \<Rightarrow> string \<Rightarrow> string \<times> sharded \<Rightarrow> string \<times> sharded" where
  "saveOne E now path = (\<lambda>(out, f).
     case shGetCurrent E now path f of
       (None, f') \<Rightarrow> (out, f')
     | (Some a, f') \<Rightarrow>
         (case recordOf E path a of
            None \<Rightarrow> (out, f')
          | Some r \<Rightarrow> (out @ jsonText (recordJson E r) @ [LF], f')))"

definition SaveSnapshot :: "ext \<Rightarrow> gotime \<Rightarrow> sharded \<Rightarrow> string \<times> sharded" where
  "SaveSnapshot E now f = fold (saveOne E now) (shFrontierPaths now f) ([], f)"

section \<open>Loading\<close>

definition recordField :: "ext \<Rightarrow> string \<Rightarrow> json \<Rightarrow> snapshotRecord \<Rightarrow> snapshotRecord option" where
  "recordField E k j r =
     (if keyIs ''path'' k then map_option (\<lambda>x. r\<lparr>srPath := x\<rparr>) (jString j (srPath r))
      else if keyIs ''value'' k then map_option (\<lambda>x. r\<lparr>srValue := x\<rparr>) (jString j (srValue r))
      else if keyIs ''value_type'' k then map_option (\<lambda>x. r\<lparr>srValueType := x\<rparr>) (jString j (srValueType r))
      else if keyIs ''data'' k then map_option (\<lambda>x. r\<lparr>srData := x\<rparr>) (jString j (srData r))
      else if keyIs ''expires_at'' k then map_option (\<lambda>x. r\<lparr>srExpiresAt := x\<rparr>) (jTime E j (srExpiresAt r))
      else if keyIs ''clock'' k then map_option (\<lambda>x. r\<lparr>srClock := x\<rparr>) (jUint 64 j (srClock r))
      else Some r)"

definition blankRecord :: snapshotRecord where
  "blankRecord = \<lparr>srPath = [], srValue = [], srValueType = [], srData = [], srExpiresAt = zeroTime, srClock = 0\<rparr>"

definition elemField :: "string \<Rightarrow> json \<Rightarrow> snapElem \<Rightarrow> snapElem option" where
  "elemField k j e =
     (if keyIs ''t'' k then map_option (\<lambda>x. e\<lparr>seT := x\<rparr>) (jString j (seT e))
      else if keyIs ''v'' k then map_option (\<lambda>x. e\<lparr>seV := x\<rparr>) (jString j (seV e))
      else Some e)"

definition decodeElem :: "ext \<Rightarrow> snapElem \<Rightarrow> Value option" where
  "decodeElem E e =
     (if seT e = ''record''
      then map_option (\<lambda>m. VRecord (map (\<lambda>(k, s). (k, VString s)) m)) (unmarshal (jMap (\<lambda>j. jString j [])) (seV e))
      else decodeScalar E (seT e) (seV e))"

definition decodeValue :: "ext \<Rightarrow> snapshotRecord \<Rightarrow> Value option" where
  "decodeValue E r =
     (if srValueType r \<in> {''string'', ''int'', ''float'', ''bool'', ''bytes''}
      then decodeScalar E (srValueType r) (srValue r)
      else if srValueType r = ''list'' then
        (case unmarshal (jSlice (\<lambda>j. jStruct elemField j \<lparr>seT = [], seV = []\<rparr>)) (srData r) of
           None \<Rightarrow> None
         | Some es \<Rightarrow> map_option VArray (mapOption (decodeElem E) es))
      else if srValueType r = ''set'' then
        map_option (\<lambda>ms. VRecord (fold (\<lambda>m. AList.update m (VInt 1)) ms []))
          (unmarshal (jSlice (\<lambda>j. jString j [])) (srData r))
      else if srValueType r = ''zset'' then
        map_option (\<lambda>m. VRecord (map (\<lambda>(k, s). (k, VFloat s)) m))
          (unmarshal (jMap (\<lambda>j. jFloat64 E j 0)) (srData r))
      else None)"

type_synonym load = "nat \<times> sharded \<times> internTable"

definition loadLine :: "ext \<Rightarrow> gotime \<Rightarrow> string \<Rightarrow> load \<Rightarrow> load result" where
  "loadLine E now line = (\<lambda>(n, f, t).
     case unmarshal (\<lambda>j. jStruct (recordField E) j blankRecord) line of
       None \<Rightarrow> Ok (n, f, t)
     | Some r \<Rightarrow>
         if expired now (srExpiresAt r) then Ok (n, f, t)
         else case decodeValue E r of
           None \<Rightarrow> Ok (n, f, t)
         | Some v \<Rightarrow>
             bind_result (NewEConst E v t) (\<lambda>(w, t').
               case shAppendAtom E now (EConst w) (srPath r) [] (srExpiresAt r) f of
                 (Ok h, f') \<Rightarrow> Ok (n + 1, f', t')
               | (_, f') \<Rightarrow> Ok (n, f', t')))"

fun loadRecords :: "ext \<Rightarrow> gotime \<Rightarrow> string list \<Rightarrow> load \<Rightarrow> load result" where
  "loadRecords E now [] l = Ok l"
| "loadRecords E now (line # ls) l = bind_result (loadLine E now line l) (loadRecords E now ls)"

text \<open>The number of restored records, whether the scan ended with an error, and the new state.\<close>

definition LoadSnapshot :: "ext \<Rightarrow> gotime \<Rightarrow> string \<Rightarrow> sharded \<Rightarrow> internTable \<Rightarrow> (bool \<times> load) result" where
  "LoadSnapshot E now content f t =
     bind_result (loadRecords E now (scanTokens (1024 * 1024) content) (0, f, t))
       (\<lambda>l. Ok (scanTooLong (1024 * 1024) content, l))"

section \<open>Values that survive\<close>

text \<open>Equality of Go maps, of the elements of a list and of the values that a snapshot can hold.\<close>

definition recEq :: "(string \<times> Value) list \<Rightarrow> (string \<times> Value) list \<Rightarrow> bool" where
  "recEq m n \<longleftrightarrow> gomap_ok m \<and> gomap_ok n \<and> map_of m = map_of n"

definition elemEq :: "Value \<Rightarrow> Value \<Rightarrow> bool" where
  "elemEq v w = (case (v, w) of (VRecord m, VRecord n) \<Rightarrow> recEq m n | _ \<Rightarrow> v = w)"

definition goEq :: "Value \<Rightarrow> Value \<Rightarrow> bool" where
  "goEq v w = (case (v, w) of (VArray vs, VArray ws) \<Rightarrow> list_all2 elemEq vs ws | _ \<Rightarrow> elemEq v w)"

definition scalarOk :: "ext \<Rightarrow> Value \<Rightarrow> bool" where
  "scalarOk E v \<longleftrightarrow>
     (case v of
        VString s \<Rightarrow> validUTF8 s
      | VFloat f \<Rightarrow> jsonFloat E f \<noteq> None
      | VInt _ \<Rightarrow> True
      | VBool _ \<Rightarrow> True
      | VBytes _ \<Rightarrow> True
      | _ \<Rightarrow> False)"

definition stringOk :: "Value \<Rightarrow> bool" where
  "stringOk v \<longleftrightarrow> (case v of VString s \<Rightarrow> validUTF8 s | _ \<Rightarrow> False)"

definition floatOk :: "ext \<Rightarrow> Value \<Rightarrow> bool" where
  "floatOk E v \<longleftrightarrow> (case v of VFloat f \<Rightarrow> jsonFloat E f \<noteq> None | _ \<Rightarrow> False)"

lemma stringOk_iff: "stringOk v \<longleftrightarrow> (\<exists>s. v = VString s \<and> validUTF8 s)"
  by (cases v) (auto simp: stringOk_def)

lemma floatOk_iff: "floatOk E v \<longleftrightarrow> (\<exists>f s. v = VFloat f \<and> jsonFloat E f = Some s)"
  by (cases v) (auto simp: floatOk_def)

definition elemOk :: "ext \<Rightarrow> Value \<Rightarrow> bool" where
  "elemOk E v \<longleftrightarrow>
     (case v of
        VRecord m \<Rightarrow> gomap_ok m \<and> list_all (\<lambda>(k, w). validUTF8 k \<and> stringOk w) m
      | _ \<Rightarrow> scalarOk E v)"

definition storable :: "ext \<Rightarrow> Value \<Rightarrow> bool" where
  "storable E v \<longleftrightarrow>
     (case v of
        VArray vs \<Rightarrow> list_all (elemOk E) vs
      | VRecord m \<Rightarrow>
          gomap_ok m \<and> list_all (\<lambda>(k, w). validUTF8 k) m \<and>
          (list_all (\<lambda>(k, w). w = VInt 1) m \<or> list_all (\<lambda>(k, w). floatOk E w) m)
      | _ \<Rightarrow> scalarOk E v)"

declare jsonText.simps [simp del]

lemma unmarshal_text [simp]: "jsonOk 10000 j \<Longrightarrow> unmarshal f (jsonText j) = f j"
  by (simp add: unmarshal_def jsonParse_text)

lemma ascii_number: "validNumber s \<Longrightarrow> validUTF8 s"
  using validUTF8_jsonText [of 0 "JNum s"] by (simp add: jsonText.simps)

lemma unmarshal_num: "validNumber s \<Longrightarrow> unmarshal f s = f (JNum s)"
  using unmarshal_text [of "JNum s" f] by (simp add: jsonText.simps)

lemma scalar_roundtrip:
  assumes E: "codecLaws E" and v: "scalarOk E v"
  shows "\<exists>val typ. encodeScalar E v = Some (val, typ) \<and> decodeScalar E typ val = Some v \<and> validUTF8 val \<and>
    typ \<in> {''string'', ''int'', ''float'', ''bool'', ''bytes''}"
proof (cases v)
  case (VInt i)
  have "- (2 ^ 63) \<le> sint i" "sint i < 2 ^ 63" using sint_ge [of i] sint_lt [of i] by simp_all
  then have "ParseInt (FormatInt (sint i)) = Some (sint i)" by (rule ParseInt_FormatInt)
  then show ?thesis
    by (simp add: VInt encodeScalar_def decodeScalar_def marshalled_def jsonText.simps unmarshal_num validNumber_FormatInt jInt64_def ascii_number)
next
  case (VFloat f)
  with v obtain s where s: "jsonFloat E f = Some s" by (auto simp: scalarOk_def)
  with E have "validNumber s" "parseFloat E s = Some f" by (auto simp: codecLaws_def)
  with s show ?thesis
    by (simp add: VFloat encodeScalar_def decodeScalar_def marshalled_def jsonText.simps unmarshal_num jFloat64_def ascii_number)
next
  case (VBytes s)
  show ?thesis
    using validUTF8_jsonText [of 0 "jstr (b64Enc s)"]
    by (simp add: VBytes encodeScalar_def decodeScalar_def marshalled_def jBytes_b64)
next
  case (VBool b)
  then show ?thesis by (auto simp: encodeScalar_def decodeScalar_def ascii_validUTF8 isASCII_def)
next
  case (VString s)
  with v show ?thesis by (auto simp: encodeScalar_def decodeScalar_def scalarOk_def)
qed (use v in \<open>simp_all add: scalarOk_def\<close>)

subsection \<open>Maps\<close>

lemma map_of_fold_update:
  "map_of (fold (\<lambda>(k, v). AList.update k v) xs m) = map_of m ++ map_of (rev xs)"
  by (induction xs arbitrary: m) (auto simp: gomap map_add_def fun_eq_iff split: option.splits)

lemma gomap_ok_fold_update: "gomap_ok m \<Longrightarrow> gomap_ok (fold (\<lambda>(k, v). AList.update k v) xs m)"
  by (induction xs arbitrary: m) (auto split: prod.splits)

lemma map_of_perm: "gomap_ok m \<Longrightarrow> gomap_ok n \<Longrightarrow> set m = set n \<Longrightarrow> map_of m = map_of n"
  by (metis gomap_ok_def map_of_inject_set)

lemma map_of_rev_gomap: "gomap_ok m \<Longrightarrow> map_of (rev m) = map_of m"
  by (intro map_of_perm) (auto simp: gomap_ok_def rev_map [symmetric])

lemma map_fst_insort: "map fst (insort_key fst x xs) = insort (fst x) (map fst xs)"
  by (induction xs) auto

lemma map_fst_sort: "map fst (sort_key fst m) = sort (map fst m)"
  by (induction m) (simp_all add: map_fst_insort)

lemma gomap_ok_sort: "gomap_ok (sort_key fst m) = gomap_ok m"
  by (simp add: gomap_ok_def map_fst_sort)

lemma map_of_sort: "gomap_ok m \<Longrightarrow> map_of (sort_key fst m) = map_of m"
  by (intro map_of_perm) (simp_all add: gomap_ok_sort)

lemma those_map: "\<forall>x \<in> set xs. f x = Some (g x) \<Longrightarrow> those (map f xs) = Some (map g xs)"
  by (induction xs) auto

lemma gomap_ok_map_snd: "gomap_ok (map (\<lambda>(k, v). (k, f v)) m) = gomap_ok m"
  by (simp add: gomap_ok_def split_def comp_def)

lemma map_of_map_snd: "map_of (map (\<lambda>(k, v). (k, f v)) m) = map_option f \<circ> map_of m"
  by (induction m) (auto simp: fun_eq_iff)

text \<open>A map survives when its keys and its elements do.\<close>

lemma map_roundtrip:
  assumes m: "gomap_ok m" and k: "\<forall>kv \<in> set m. validUTF8 (fst kv)"
    and w: "\<forall>kv \<in> set m. \<exists>j. valueJson E (snd kv) = Some j \<and> jsonOk 9999 j \<and> dec j = Some (un (snd kv))"
  shows "\<exists>j n. valueJson E (VRecord m) = Some j \<and> jsonOk 10000 j \<and> jMap dec j = Some n \<and> gomap_ok n \<and>
    map_of n = map_option un \<circ> map_of m"
proof -
  define g where "g v = the (valueJson E v)" for v
  let ?s = "sort_key fst m" and ?u = "\<lambda>kv. (fst kv, un (snd kv))"
  have g: "valueJson E (snd kv) = Some (g (snd kv))" "jsonOk 9999 (g (snd kv))" "dec (g (snd kv)) = Some (un (snd kv))"
    if "kv \<in> set m" for kv using w that by (auto simp: g_def)
  let ?j = "JObj (map (\<lambda>kv. (quoteBody (fst kv), g (snd kv))) ?s)" and ?n = "fold (\<lambda>(k, v). AList.update k v) (map ?u ?s) []"
  have "valueJson E (VRecord m) = Some ?j" using g(1) by (simp add: those_map)
  moreover have "jsonOk 10000 ?j" using g(2) by (auto simp: strOk_quoteBody)
  moreover have "jMap dec ?j = Some ?n"
    using g(3) k by (simp add: jMap_def mapOption_map [where h = ?u] unquote_quoteBody)
  moreover have "map_of ?n = map_option un \<circ> map_of m"
  proof -
    have u: "map ?u ?s = map (\<lambda>(k, v). (k, un v)) ?s" by (simp add: split_def)
    have "gomap_ok (map ?u ?s)" unfolding u using m by (simp add: gomap_ok_map_snd gomap_ok_sort)
    then have "map_of ?n = map_of (map ?u ?s)" by (simp add: map_of_fold_update map_of_rev_gomap)
    then show ?thesis unfolding u by (simp add: map_of_map_snd map_of_sort [OF m])
  qed
  moreover have "gomap_ok ?n" by (simp add: gomap_ok_fold_update)
  ultimately show ?thesis by blast
qed

lemma map_option_id: "\<forall>v \<in> ran g. f v = v \<Longrightarrow> map_option f \<circ> g = g"
  by (force simp: fun_eq_iff ran_def map_option_case split: option.splits)

lemma recEq_decoded:
  assumes m: "gomap_ok m" and n: "gomap_ok n" "map_of n = map_option un \<circ> map_of m"
    and c: "\<forall>kv \<in> set m. C (un (snd kv)) = snd kv"
  shows "recEq m (map (\<lambda>(k, s). (k, C s)) n)"
proof -
  have "map_option (C \<circ> un) \<circ> map_of m = map_of m"
    using c by (intro map_option_id) (auto simp: ran_def dest!: map_of_SomeD)
  moreover have "map_option C \<circ> (map_option un \<circ> map_of m) = map_option (C \<circ> un) \<circ> map_of m"
    by (simp add: fun_eq_iff option.map_comp)
  ultimately show ?thesis using m n by (simp add: recEq_def gomap_ok_map_snd map_of_map_snd)
qed

text \<open>The elements of a list.\<close>

definition stringOf :: "Value \<Rightarrow> string" where
  "stringOf v = (case v of VString s \<Rightarrow> s | _ \<Rightarrow> [])"

definition floatOf :: "Value \<Rightarrow> 64 word" where
  "floatOf v = (case v of VFloat f \<Rightarrow> f | _ \<Rightarrow> 0)"

lemma elem_roundtrip:
  assumes E: "codecLaws E" and v: "elemOk E v"
  shows "\<exists>e w. encodeElem E v = Some e \<and> decodeElem E e = Some w \<and> elemEq v w \<and> validUTF8 (seT e) \<and> validUTF8 (seV e)"
proof (cases "\<exists>m. v = VRecord m")
  case True
  then obtain m where r: "v = VRecord m" by blast
  have str: "validUTF8 (fst kv) \<and> (\<exists>s. snd kv = VString s \<and> validUTF8 s)" if "kv \<in> set m" for kv
    using v that by (auto simp: r elemOk_def list_all_iff stringOk_iff)
  have ok: "gomap_ok m" using v by (simp add: r elemOk_def)
  have "\<exists>j n. valueJson E v = Some j \<and> jsonOk 10000 j \<and> jMap (\<lambda>j. jString j []) j = Some n \<and> gomap_ok n \<and>
      map_of n = map_option stringOf \<circ> map_of m"
    unfolding r by (rule map_roundtrip [OF ok]) (use str in \<open>fastforce simp: stringOf_def\<close>)+
  then obtain j n where j: "valueJson E v = Some j" "jsonOk 10000 j" "jMap (\<lambda>j. jString j []) j = Some n" "gomap_ok n"
      "map_of n = map_option stringOf \<circ> map_of m" by blast
  have "recEq m (map (\<lambda>(k, s). (k, VString s)) n)"
    by (rule recEq_decoded [OF ok j(4,5)]) (use str in \<open>fastforce simp: stringOf_def\<close>)
  with j validUTF8_jsonText [OF j(2)] show ?thesis
    by (simp add: r encodeElem_def decodeElem_def marshalled_def elemEq_def ascii_validUTF8 isASCII_def del: valueJson.simps)
next
  case False
  then have "scalarOk E v" using v by (auto simp: elemOk_def split: Value.splits)
  from scalar_roundtrip [OF E this] obtain val ty where "encodeScalar E v = Some (val, ty)" "decodeScalar E ty val = Some v"
    "validUTF8 val" "ty \<in> {''string'', ''int'', ''float'', ''bool'', ''bytes''}" by blast
  note sc = this
  let ?e = "\<lparr>seT = ty, seV = val\<rparr>"
  have "encodeElem E v = Some ?e" using False sc(1) by (cases v) (simp_all add: encodeElem_def)
  moreover have "decodeElem E ?e = Some v" using sc(2,4) by (auto simp: decodeElem_def)
  moreover have "elemEq v v" using False by (cases v) (simp_all add: elemEq_def)
  moreover have "validUTF8 ty" using sc(4) by (auto simp: ascii_validUTF8 isASCII_def)
  ultimately show ?thesis using sc(3) by auto
qed

lemma keyIs_elem: "keyIs ''t'' ''t''" "\<not> keyIs ''t'' ''v''" "keyIs ''v'' ''v''"
  by code_simp+

lemma elem_fields:
  "validUTF8 (seT e) \<Longrightarrow> validUTF8 (seV e) \<Longrightarrow> jStruct elemField (elemJson e) \<lparr>seT = [], seV = []\<rparr> = Some e"
  by (simp add: jStruct_def elemJson_def elemField_def keyIs_elem)

lemma rawOk_elem: "strOk ''t''" "strOk ''v''"
  by (intro rawOk_strOk; code_simp)+

lemma jsonOk_elems: "jsonOk 10000 (JArr (map elemJson es))"
  by (auto simp: elemJson_def rawOk_elem)

text \<open>The elements of a list one after the other.\<close>

lemma elems_roundtrip:
  assumes E: "codecLaws E" and vs: "list_all (elemOk E) vs"
  shows "\<exists>es ws. those (map (encodeElem E) vs) = Some es \<and> mapOption (decodeElem E) es = Some ws \<and> list_all2 elemEq vs ws \<and>
    (\<forall>e \<in> set es. validUTF8 (seT e) \<and> validUTF8 (seV e))"
  using vs
proof (induction vs)
  case (Cons v vs)
  then obtain es ws where "those (map (encodeElem E) vs) = Some es" "mapOption (decodeElem E) es = Some ws"
    "list_all2 elemEq vs ws" "\<forall>e \<in> set es. validUTF8 (seT e) \<and> validUTF8 (seV e)" by auto
  moreover obtain e w where "encodeElem E v = Some e" "decodeElem E e = Some w" "elemEq v w" "validUTF8 (seT e)" "validUTF8 (seV e)"
    using elem_roundtrip [OF E, of v] Cons.prems by auto
  ultimately show ?case by (intro exI [of _ "e # es"] exI [of _ "w # ws"]) auto
qed simp

definition payload :: "snapshotRecord \<Rightarrow> string \<times> string \<times> string" where
  "payload r = (srValue r, srValueType r, srData r)"

text \<open>Sorted sets and sets.\<close>

definition isZSet :: "(string \<times> Value) list \<Rightarrow> bool" where
  "isZSet m \<longleftrightarrow> m \<noteq> [] \<and> list_all (\<lambda>(k, w). case w of VFloat _ \<Rightarrow> True | _ \<Rightarrow> False) m"

definition survives :: "ext \<Rightarrow> Value \<Rightarrow> bool" where
  "survives E v \<longleftrightarrow>
     (\<exists>val ty data w. encodeValue E v = Some (val, ty, data) \<and> goEq v w \<and> validUTF8 val \<and> validUTF8 ty \<and> validUTF8 data \<and>
        (\<forall>r. payload r = (val, ty, data) \<longrightarrow> decodeValue E r = Some w))"

lemma set_kinds:
  assumes "list_all (\<lambda>(k, w). w = VInt 1) m \<or> list_all (\<lambda>(k, w). floatOk E w) m"
  shows "isZSet m \<Longrightarrow> list_all (\<lambda>(k, w). floatOk E w) m" and "\<not> isZSet m \<Longrightarrow> list_all (\<lambda>(k, w). w = VInt 1) m"
  using assms by (cases m; fastforce simp: isZSet_def floatOk_iff list_all_iff)+

lemma zset_roundtrip:
  assumes E: "codecLaws E" and m: "gomap_ok m" "list_all (\<lambda>(k, w). validUTF8 k) m" "isZSet m" "list_all (\<lambda>(k, w). floatOk E w) m"
  shows "survives E (VRecord m)"
proof -
  have fl: "\<exists>f s. snd kv = VFloat f \<and> jsonFloat E f = Some s \<and> validNumber s \<and> parseFloat E s = Some f" if "kv \<in> set m" for kv
    using m(4) that E by (auto simp: list_all_iff floatOk_iff codecLaws_def)
  have "\<exists>j n. valueJson E (VRecord m) = Some j \<and> jsonOk 10000 j \<and> jMap (\<lambda>j. jFloat64 E j 0) j = Some n \<and> gomap_ok n \<and>
      map_of n = map_option floatOf \<circ> map_of m"
    by (rule map_roundtrip [OF m(1)]) (use m(2) fl in \<open>fastforce simp: list_all_iff floatOf_def jFloat64_def\<close>)+
  then obtain j n where j: "valueJson E (VRecord m) = Some j" "jsonOk 10000 j" "jMap (\<lambda>j. jFloat64 E j 0) j = Some n" "gomap_ok n"
      "map_of n = map_option floatOf \<circ> map_of m" by blast
  let ?w = "VRecord (map (\<lambda>(k, s). (k, VFloat s)) n)"
  have "recEq m (map (\<lambda>(k, s). (k, VFloat s)) n)"
    by (rule recEq_decoded [OF m(1) j(4,5)]) (use fl in \<open>fastforce simp: floatOf_def\<close>)
  then have "goEq (VRecord m) ?w" by (simp add: goEq_def elemEq_def)
  moreover have "encodeValue E (VRecord m) = Some ([], ''zset'', jsonText j)"
    using m(3) j(1) by (simp add: encodeValue_def isZSet_def marshalled_def del: valueJson.simps)
  moreover have "decodeValue E r = Some ?w" if "payload r = ([], ''zset'', jsonText j)" for r
    using that j by (simp add: decodeValue_def payload_def)
  moreover have "validUTF8 ''zset''" by (simp add: ascii_validUTF8 isASCII_def)
  ultimately show ?thesis using validUTF8_jsonText [OF j(2)] unfolding survives_def by (metis validUTF8.simps(1))
qed

lemma set_roundtrip:
  assumes m: "gomap_ok m" "list_all (\<lambda>(k, w). validUTF8 k) m" "\<not> isZSet m" "list_all (\<lambda>(k, w). w = VInt 1) m"
  shows "survives E (VRecord m)"
proof -
  let ?j = "JArr (map (\<lambda>(k, w). jstr k) m)" and ?n = "fold (\<lambda>k. AList.update k (VInt 1)) (map fst m) []"
  have n: "?n = fold (\<lambda>(k, v). AList.update k v) m []"
    using m(4) by (simp add: fold_map comp_def) (rule fold_cong, auto simp: list_all_iff)
  have "gomap_ok ?n \<and> map_of ?n = map_of m"
    unfolding n by (simp add: gomap_ok_fold_update map_of_fold_update map_of_rev_gomap m(1))
  then have "goEq (VRecord m) (VRecord ?n)" using m(1) by (simp add: goEq_def elemEq_def recEq_def)
  moreover have ok: "jsonOk 10000 ?j" by (auto simp: split_def)
  moreover have "encodeValue E (VRecord m) = Some ([], ''set'', jsonText ?j)"
    using m(3,4) by (auto simp: encodeValue_def isZSet_def)
  moreover have "decodeValue E r = Some (VRecord ?n)" if "payload r = ([], ''set'', jsonText ?j)" for r
  proof -
    have "jSlice (\<lambda>j. jString j []) ?j = Some (map fst m)"
      unfolding jSlice_def json.case using m(2) by (intro mapOption_map) (auto simp: list_all_iff)
    with that ok show ?thesis by (simp add: decodeValue_def payload_def)
  qed
  moreover have "validUTF8 ''set''" by (simp add: ascii_validUTF8 isASCII_def)
  ultimately show ?thesis using validUTF8_jsonText [OF ok] unfolding survives_def by (metis validUTF8.simps(1))
qed

lemma value_roundtrip:
  assumes E: "codecLaws E" and v: "storable E v"
  shows "survives E v"
proof -
  consider (list) vs where "v = VArray vs" | (rec) m where "v = VRecord m" | (scalar) "\<nexists>vs. v = VArray vs" "\<nexists>m. v = VRecord m"
    by blast
  then show ?thesis
  proof cases
    case list
    with elems_roundtrip [OF E, of vs] v obtain es ws where es: "those (map (encodeElem E) vs) = Some es"
      "mapOption (decodeElem E) es = Some ws" "list_all2 elemEq vs ws" "\<forall>e \<in> set es. validUTF8 (seT e) \<and> validUTF8 (seV e)"
      by (auto simp: storable_def)
    let ?d = "jsonText (JArr (map elemJson es))"
    have "jSlice (\<lambda>j. jStruct elemField j \<lparr>seT = [], seV = []\<rparr>) (JArr (map elemJson es)) = Some es"
      using es(4) mapOption_map [where h = id and g = elemJson] by (simp add: jSlice_def elem_fields)
    then have "decodeValue E r = Some (VArray ws)" if "payload r = ([], ''list'', ?d)" for r
      using that es(2) jsonOk_elems [of es] by (simp add: decodeValue_def payload_def)
    moreover have "encodeValue E v = Some ([], ''list'', ?d)" using es(1) by (simp add: list encodeValue_def)
    moreover have "goEq v (VArray ws)" using es(3) by (simp add: list goEq_def)
    moreover have "validUTF8 ?d" by (rule validUTF8_jsonText [OF jsonOk_elems])
    moreover have "validUTF8 ''list''" by (simp add: ascii_validUTF8 isASCII_def)
    ultimately show ?thesis unfolding survives_def by (metis validUTF8.simps(1))
  next
    case rec
    with v show ?thesis using zset_roundtrip [OF E, of m] set_roundtrip [of m] set_kinds [of m E]
      by (cases "isZSet m") (simp_all add: storable_def)
  next
    case scalar
    then have "scalarOk E v" using v by (auto simp: storable_def split: Value.splits)
    from scalar_roundtrip [OF E this] obtain val ty where sc: "encodeScalar E v = Some (val, ty)" "decodeScalar E ty val = Some v"
      "validUTF8 val" "ty \<in> {''string'', ''int'', ''float'', ''bool'', ''bytes''}" by blast
    have "encodeValue E v = Some (val, ty, [])" using scalar sc(1) by (cases v) (simp_all add: encodeValue_def)
    moreover have "decodeValue E r = Some v" if "payload r = (val, ty, [])" for r
      using that sc(2,4) by (auto simp: payload_def decodeValue_def)
    moreover have "goEq v v" using scalar by (cases v) (simp_all add: goEq_def elemEq_def)
    moreover have "validUTF8 ty" using sc(4) by (auto simp: ascii_validUTF8 isASCII_def)
    ultimately show ?thesis using sc(3) unfolding survives_def by (metis validUTF8.simps(1))
  qed
qed

subsection \<open>Equal values have equal bytes\<close>

lemma recEq_sort:
  assumes "recEq m n"
  shows "sort_key fst m = sort_key fst n"
proof (rule map_sorted_distinct_set_unique [where f = fst])
  have d: "distinct (map fst m)" "distinct (map fst n)" "map_of m = map_of n"
    using assms by (simp_all add: recEq_def gomap_ok_def)
  then have s: "set m = set n" by (simp add: map_of_inject_set)
  then show "set (sort_key fst m) = set (sort_key fst n)" by simp
  show "inj_on fst (set (sort_key fst m) \<union> set (sort_key fst n))" using d(1) s by (simp add: distinct_map)
  show "distinct (map fst (sort_key fst m))" "distinct (map fst (sort_key fst n))" using d by (simp_all add: map_fst_sort)
qed simp_all

lemma elemEq_cases: "elemEq v w \<longleftrightarrow> (\<exists>m n. v = VRecord m \<and> w = VRecord n \<and> recEq m n) \<or> v = w \<and> (\<nexists>m. v = VRecord m)"
  by (auto simp: elemEq_def split: Value.splits)

lemma goEq_cases: "goEq v w \<longleftrightarrow> (\<exists>vs ws. v = VArray vs \<and> w = VArray ws \<and> list_all2 elemEq vs ws) \<or> elemEq v w \<and> (\<nexists>vs. v = VArray vs)"
  by (auto simp: goEq_def elemEq_cases split: Value.splits)

lemma elemEq_bytes: "elemEq v w \<Longrightarrow> Serialize E v = Serialize E w \<and> FastHash E v = FastHash E w"
  by (auto simp: elemEq_cases dest: recEq_sort)

lemma list_all2_map: "list_all2 R vs ws \<Longrightarrow> (\<And>v w. R v w \<Longrightarrow> f v = f w) \<Longrightarrow> map f vs = map f ws"
  by (induction rule: list_all2_induct) auto

lemma goEq_bytes:
  assumes "goEq v w"
  shows "Serialize E v = Serialize E w" and "FastHash E v = FastHash E w"
proof -
  have "map (Serialize E) vs = map (Serialize E) ws" if "list_all2 elemEq vs ws" for vs ws
    by (rule list_all2_map [OF that]) (simp add: elemEq_bytes)
  moreover have "map (\<lambda>v. be64 (FastHash E v)) vs = map (\<lambda>v. be64 (FastHash E v)) ws" if "list_all2 elemEq vs ws" for vs ws
    by (rule list_all2_map [OF that]) (simp add: elemEq_bytes)
  ultimately show "Serialize E v = Serialize E w" "FastHash E v = FastHash E w"
    using assms unfolding goEq_cases by (auto dest: elemEq_bytes)
qed

lemma goEq_hash: "goEq v w \<Longrightarrow> structuralHash E (IConst v) = structuralHash E (IConst w)"
  using goEq_bytes [of v w E] by (auto simp: structuralHash_def goEq_cases elemEq_cases)

lemma recEq_trans: "recEq l m \<Longrightarrow> recEq m n \<Longrightarrow> recEq l n"
  by (simp add: recEq_def)

lemma elemEq_trans: "elemEq u v \<Longrightarrow> elemEq v w \<Longrightarrow> elemEq u w"
  by (auto simp: elemEq_cases intro: recEq_trans)

lemma goEq_trans:
  assumes "goEq u v" and "goEq v w"
  shows "goEq u w"
proof (cases "\<exists>us. u = VArray us")
  case True
  with assms(1) obtain us vs where u: "u = VArray us" "v = VArray vs" "list_all2 elemEq us vs" unfolding goEq_cases by auto
  with assms(2) obtain ws where "w = VArray ws" "list_all2 elemEq vs ws" unfolding goEq_cases by auto
  with u list_all2_trans [OF elemEq_trans u(3)] show ?thesis unfolding goEq_cases by auto
next
  case False
  with assms(1) have e: "elemEq u v" unfolding goEq_cases by blast
  with False have "\<nexists>vs. v = VArray vs" unfolding elemEq_cases by auto
  with assms(2) have "elemEq v w" unfolding goEq_cases by blast
  with e elemEq_trans have "elemEq u w" by blast
  with False show ?thesis unfolding goEq_cases by blast
qed

lemma goEq_estimate:
  "goEq v w \<Longrightarrow> aExpr a = EConst v \<Longrightarrow> aExpr b = EConst w \<Longrightarrow> estimateAtomBytes p a = estimateAtomBytes p b"
  by (auto simp: estimateAtomBytes_def goEq_cases elemEq_cases split: Value.splits)

subsection \<open>Interning the loaded values\<close>

text \<open>Every constant in the table is a loaded form of one of the saved values.\<close>

definition internFrom :: "ext \<Rightarrow> Value set \<Rightarrow> internTable \<Rightarrow> bool" where
  "internFrom E S t \<longleftrightarrow> length (itShards t) = 256 \<and>
     (\<forall>h c. c \<in> set (bucket h t) \<longrightarrow> (\<exists>v \<in> S. \<exists>w. snd c = IConst w \<and> goEq v w \<and> structuralHash E (IConst w) = Ok h))"

definition unconfused :: "ext \<Rightarrow> Value set \<Rightarrow> bool" where
  "unconfused E S \<longleftrightarrow>
     (\<forall>v \<in> S. \<forall>w \<in> S. Serialize E v = Serialize E w \<and> structuralHash E (IConst v) = structuralHash E (IConst w) \<longrightarrow> goEq v w)"

lemma NewEConst_from:
  assumes t: "internFrom E S t" and S: "unconfused E S" and v: "v \<in> S" "goEq v w" "w \<noteq> VNil"
  shows "\<exists>w' t'. NewEConst E w t = Ok (w', t') \<and> goEq v w' \<and> internFrom E S t'"
proof -
  have len: "length (itShards t) = 256" using t by (simp add: internFrom_def)
  obtain h where h: "structuralHash E (IConst w) = Ok h" using v(3) by (auto simp: structuralHash_def)
  show ?thesis
  proof (cases "find (\<lambda>c. exprEqual E (IConst w) (snd c)) (bucket h t)")
    case None
    let ?i = "itNextID t + 1"
    let ?t = "setBucket h (bucket h t @ [(?i, IConst w)]) (t\<lparr>itNextID := ?i\<rparr>)"
    have b: "bucket g ?t = (if g = h then bucket h t @ [(?i, IConst w)] else bucket g t)" for g
      using len by (subst bucket_setBucket) simp_all
    have "internFrom E S ?t" using t h v len by (auto simp: internFrom_def b split: if_splits)
    with None h v show ?thesis by (simp add: NewEConst_def Intern_def Let_def)
  next
    case (Some c)
    then have c: "c \<in> set (bucket h t)" "exprEqual E (IConst w) (snd c)" by (auto simp: find_Some_iff)
    with t obtain u x where u: "u \<in> S" "snd c = IConst x" "goEq u x" "structuralHash E (IConst x) = Ok h"
      unfolding internFrom_def by blast
    have "Serialize E v = Serialize E u" "structuralHash E (IConst v) = structuralHash E (IConst u)"
      using c(2) u h goEq_bytes(1) [OF v(2), of E] goEq_bytes(1) [OF u(3), of E] goEq_hash [OF v(2), of E] goEq_hash [OF u(3), of E]
      by simp_all
    then have "goEq v u" using S v(1) u(1) unfolding unconfused_def by blast
    then have "goEq v x" using u(3) goEq_trans by blast
    with Some h u(2) t show ?thesis by (cases c) (auto simp: NewEConst_def Intern_def)
  qed
qed

section \<open>Lines\<close>

lemma keyIs_record:
  "keyIs ''path'' ''path''" "\<not> keyIs ''path'' ''value''" "keyIs ''value'' ''value''" "\<not> keyIs ''path'' ''value_type''"
  "\<not> keyIs ''value'' ''value_type''" "keyIs ''value_type'' ''value_type''" "\<not> keyIs ''path'' ''data''"
  "\<not> keyIs ''value'' ''data''" "\<not> keyIs ''value_type'' ''data''" "keyIs ''data'' ''data''" "\<not> keyIs ''path'' ''expires_at''"
  "\<not> keyIs ''value'' ''expires_at''" "\<not> keyIs ''value_type'' ''expires_at''" "\<not> keyIs ''data'' ''expires_at''"
  "keyIs ''expires_at'' ''expires_at''" "\<not> keyIs ''path'' ''clock''" "\<not> keyIs ''value'' ''clock''"
  "\<not> keyIs ''value_type'' ''clock''" "\<not> keyIs ''data'' ''clock''" "\<not> keyIs ''expires_at'' ''clock''" "keyIs ''clock'' ''clock''"
  by code_simp+

lemma strOk_record: "strOk ''path''" "strOk ''value''" "strOk ''value_type''" "strOk ''data''" "strOk ''expires_at''" "strOk ''clock''"
  by (intro rawOk_strOk; code_simp)+

lemma record_json:
  assumes E: "codecLaws E" and r: "validUTF8 (srPath r)" "validUTF8 (srValue r)" "validUTF8 (srValueType r)" "validUTF8 (srData r)"
    "jsonRange (srExpiresAt r)" "srClock r < 2 ^ 64"
  shows "jsonOk 10000 (recordJson E r)" and "jStruct (recordField E) (recordJson E r) blankRecord = Some r"
proof -
  have t: "parseTime E (jsonTime E (srExpiresAt r)) = Some (srExpiresAt r)" "strOk (jsonTime E (srExpiresAt r))"
    using E r(5) by (auto simp: codecLaws_def rawOk_strOk)
  show "jsonOk 10000 (recordJson E r)" using t(2) by (simp add: recordJson_def strOk_record validNumber_showNat)
  show "jStruct (recordField E) (recordJson E r) blankRecord = Some r"
    using r t(1) by (cases "srData r = []")
      (simp_all add: jStruct_def recordJson_def recordField_def keyIs_record blankRecord_def jTime_def jUint_def)
qed

section \<open>Writing into a cache with room\<close>

lemma sh_append_fresh:
  assumes inv: "sh_inv E g" and room: "sh_room g" and new: "shEntry E g p = None"
    and a: "a = mintAtom E e p (shClock g + 1) now x"
    and small: "shBytes g + estimateAtomBytes p a < ceiling90 (shMax g)"
  obtains h g' where "shAppendAtom E now e p ps x g = (Ok h, g')" and "sh_inv E g'" and "shClock g' = shClock g + 1"
    and "shMax g' = shMax g" and "shBytes g' = shBytes g + estimateAtomBytes p a"
    and "\<And>q. shEntry E g' q = (if q = p then Some a else shEntry E g q)"
proof -
  let ?f = "g\<lparr>shClock := shClock g + 1\<rparr>" and ?i = "shardFor E p"
  let ?g = "setShard ?i (tabWrite p a (shShards g ! ?i)) ?f"
  have ok: "sh_ok E ?f" using inv by (simp add: sh_inv_def)
  have n: "map_of (tEntries (shShards g ! ?i)) p = None" using new by (simp add: shEntry_def shard_def)
  have p: "aPath a = p" by (simp add: a)
  have cm: "shCommit E a ?f = (Stored, aHash a, ?g)" using n by (simp add: shCommit_def tabCommit_def Let_def p)
  have b: "shBytes ?g = shBytes g + estimateAtomBytes p a" using n by (simp add: setShard_def tabWrite_bytes)
  then have "shEnforce ?g = ?g" using small by (simp add: shEnforce_def setShard_def)
  then have ap: "shAppendAtom E now e p ps x g = (Ok (aHash a), ?g)"
    using cm by (simp add: shAppendAtom_def shMint_def Let_def a)
  have "shEntry E ?f q = shEntry E g q" for q by (simp add: shEntry_def shard_def)
  then have "shEntry E ?g q = (if q = p then Some a else shEntry E g q)" for q
    using shCommit_entry [OF ok cm, of q] by (simp add: p)
  with that [OF ap] sh_inv_Append(1,2,3) [OF inv room ap] b show ?thesis by blast
qed

section \<open>Loading what was saved\<close>

definition atomVal :: "catom \<Rightarrow> Value" where
  "atomVal a = (case aExpr a of EConst v \<Rightarrow> v | _ \<Rightarrow> VNil)"

text \<open>An atom with the record that was written for it.\<close>

definition goodSave :: "ext \<Rightarrow> catom \<times> snapshotRecord \<Rightarrow> bool" where
  "goodSave E = (\<lambda>(a, r).
     aExpr a = EConst (atomVal a) \<and> storable E (atomVal a) \<and> encodeValue E (atomVal a) = Some (payload r) \<and>
     validUTF8 (srPath r) \<and> jsonRange (srExpiresAt r) \<and> srClock r < 2 ^ 64)"

text \<open>What is stored for it after a load.\<close>

definition restoredAs :: "gotime \<Rightarrow> catom \<times> snapshotRecord \<Rightarrow> catom option \<Rightarrow> bool" where
  "restoredAs now = (\<lambda>(a, r) e.
     if expired now (srExpiresAt r) then e = None
     else \<exists>b w. e = Some b \<and> aExpr b = EConst w \<and> goEq (atomVal a) w \<and> aExpiresAt b = srExpiresAt r)"

lemma goodSave_line:
  assumes E: "codecLaws E" and g: "goodSave E (a, r)"
  obtains w where "unmarshal (\<lambda>j. jStruct (recordField E) j blankRecord) (jsonText (recordJson E r)) = Some r"
    and "decodeValue E r = Some w" and "goEq (atomVal a) w" and "w \<noteq> VNil" and "jsonOk 10000 (recordJson E r)"
proof -
  have s: "storable E (atomVal a)" and e: "encodeValue E (atomVal a) = Some (payload r)" using g by (auto simp: goodSave_def)
  from value_roundtrip [OF E s] e obtain w where v: "validUTF8 (srValue r)" "validUTF8 (srValueType r)" "validUTF8 (srData r)"
    "goEq (atomVal a) w" "decodeValue E r = Some w" unfolding survives_def by (auto simp: payload_def)
  have "w \<noteq> VNil" using v(4) s by (auto simp: goEq_cases elemEq_cases storable_def scalarOk_def)
  moreover note r = record_json [OF E _ v(1,2,3)]
  ultimately show ?thesis using that [of w] v(4,5) g r by (auto simp: goodSave_def)
qed

abbreviation recordLine :: "ext \<Rightarrow> catom \<times> snapshotRecord \<Rightarrow> string" where
  "recordLine E s \<equiv> jsonText (recordJson E (snd s))"

abbreviation savePath :: "catom \<times> snapshotRecord \<Rightarrow> string" where
  "savePath s \<equiv> srPath (snd s)"

lemma loadLine_good:
  assumes E: "codecLaws E" and g: "goodSave E s" and inv: "sh_inv E f" and it: "internFrom E S t" "unconfused E S" "atomVal (fst s) \<in> S"
    and new: "shEntry E f (savePath s) = None" and room: "Suc (unat (shClock f)) < 2 ^ 64"
    and small: "shBytes f + estimateAtomBytes (savePath s) (fst s) < ceiling90 (shMax f)"
  shows "\<exists>n' f' t'. loadLine E now (recordLine E s) (n, f, t) = Ok (n', f', t') \<and> sh_inv E f' \<and> internFrom E S t' \<and>
    unat (shClock f') \<le> Suc (unat (shClock f)) \<and> shMax f' = shMax f \<and>
    shBytes f' \<le> shBytes f + estimateAtomBytes (savePath s) (fst s) \<and>
    restoredAs now s (shEntry E f' (savePath s)) \<and> (\<forall>q. q \<noteq> savePath s \<longrightarrow> shEntry E f' q = shEntry E f q)"
proof -
  obtain a r where s: "s = (a, r)" by fastforce
  obtain w where w: "unmarshal (\<lambda>j. jStruct (recordField E) j blankRecord) (jsonText (recordJson E r)) = Some r"
    "decodeValue E r = Some w" "goEq (atomVal a) w" "w \<noteq> VNil" using goodSave_line [OF E] g s by metis
  show ?thesis
  proof (cases "expired now (srExpiresAt r)")
    case True
    then have "loadLine E now (recordLine E s) (n, f, t) = Ok (n, f, t)" using w(1) by (simp add: loadLine_def s)
    moreover have "0 \<le> estimateAtomBytes (srPath r) a" by (auto simp: estimateAtomBytes_def split: expr.split Value.split)
    ultimately show ?thesis using True inv it(1) new by (auto simp: s restoredAs_def)
  next
    case False
    obtain w' t' where n: "NewEConst E w t = Ok (w', t')" "goEq (atomVal a) w'" "internFrom E S t'"
      using NewEConst_from [OF it(1,2) _ w(3,4)] it(3) by (auto simp: s)
    let ?b = "mintAtom E (EConst w') (srPath r) (shClock f + 1) now (srExpiresAt r)"
    have ex: "aExpr a = EConst (atomVal a)" using g by (simp add: s goodSave_def)
    have est: "estimateAtomBytes (srPath r) ?b = estimateAtomBytes (srPath r) a"
      by (rule goEq_estimate [OF n(2) ex, symmetric]) simp
    have "shClock f \<noteq> - 1" using room by (auto simp: unsigned_minus_1_eq_mask mask_eq_exp_minus_1)
    then obtain h f' where f': "shAppendAtom E now (EConst w') (srPath r) [] (srExpiresAt r) f = (Ok h, f')" "sh_inv E f'"
      "shClock f' = shClock f + 1" "shMax f' = shMax f" "shBytes f' = shBytes f + estimateAtomBytes (srPath r) a"
      "\<And>q. shEntry E f' q = (if q = srPath r then Some ?b else shEntry E f q)"
      using sh_append_fresh [OF inv _ _ refl, of "srPath r" "EConst w'" now "srExpiresAt r"] new small
      by (auto simp: sh_room_def s est)
    have "loadLine E now (recordLine E s) (n, f, t) = Ok (n + 1, f', t')" using w(1,2) n(1) f'(1) False by (simp add: loadLine_def s)
    moreover have "unat (shClock f') \<le> Suc (unat (shClock f))" by (simp add: f'(3) unat_word_ariths mod_less_eq_dividend)
    ultimately show ?thesis using f' n(2,3) False by (auto simp: s restoredAs_def)
  qed
qed

lemma loadRecords_good:
  assumes E: "codecLaws E" and S: "unconfused E S"
  shows "list_all (goodSave E) L \<Longrightarrow> distinct (map savePath L) \<Longrightarrow> (\<forall>s \<in> set L. atomVal (fst s) \<in> S) \<Longrightarrow> sh_inv E f \<Longrightarrow>
    internFrom E S t \<Longrightarrow> (\<forall>s \<in> set L. shEntry E f (savePath s) = None) \<Longrightarrow> unat (shClock f) + length L < 2 ^ 64 \<Longrightarrow>
    shBytes f + (\<Sum>s \<leftarrow> L. estimateAtomBytes (savePath s) (fst s)) < ceiling90 (shMax f) \<Longrightarrow>
    \<exists>n' f' t'. loadRecords E now (map (recordLine E) L) (n, f, t) = Ok (n', f', t') \<and> sh_inv E f' \<and>
      (\<forall>s \<in> set L. restoredAs now s (shEntry E f' (savePath s))) \<and>
      (\<forall>q. q \<notin> savePath ` set L \<longrightarrow> shEntry E f' q = shEntry E f q)"
proof (induction L arbitrary: n f t)
  case (Cons s L)
  have pos: "0 \<le> (\<Sum>s \<leftarrow> L. estimateAtomBytes (savePath s) (fst s))"
    by (rule sum_list_nonneg) (auto simp: estimateAtomBytes_def split: expr.split Value.split)
  obtain n1 f1 t1 where l: "loadLine E now (recordLine E s) (n, f, t) = Ok (n1, f1, t1)" "sh_inv E f1" "internFrom E S t1"
    "unat (shClock f1) \<le> Suc (unat (shClock f))" "shMax f1 = shMax f"
    "shBytes f1 \<le> shBytes f + estimateAtomBytes (savePath s) (fst s)" "restoredAs now s (shEntry E f1 (savePath s))"
    "\<forall>q. q \<noteq> savePath s \<longrightarrow> shEntry E f1 q = shEntry E f q"
    using loadLine_good [OF E _ Cons.prems(4,5) S, of s now n] Cons.prems pos by auto
  have nin: "savePath s \<notin> savePath ` set L" using Cons.prems(2) by simp
  then have "\<forall>s' \<in> set L. savePath s' \<noteq> savePath s" by (metis image_eqI)
  then obtain n' f' t' where r: "loadRecords E now (map (recordLine E) L) (n1, f1, t1) = Ok (n', f', t')" "sh_inv E f'"
    "\<forall>s \<in> set L. restoredAs now s (shEntry E f' (savePath s))" "\<forall>q. q \<notin> savePath ` set L \<longrightarrow> shEntry E f' q = shEntry E f1 q"
    using Cons.IH [OF _ _ _ l(2,3), of n1] Cons.prems l(4,5,6,8) by auto
  with nin l(1,7,8) r show ?case by auto
qed auto

subsection \<open>The content of the file\<close>

definition savedEntries :: "ext \<Rightarrow> gotime \<Rightarrow> sharded \<Rightarrow> string list \<Rightarrow> (catom \<times> snapshotRecord) list" where
  "savedEntries E now f ps =
     List.map_filter (\<lambda>p. case shCur E now f p of None \<Rightarrow> None | Some a \<Rightarrow> map_option (Pair a) (recordOf E p a)) ps"

lemma shGetCurrent_cur:
  assumes "sh_ok E f"
  shows "\<exists>f'. shGetCurrent E now p f = (shCur E now f p, f') \<and> sh_ok E f' \<and> shCur E now f' = shCur E now f"
proof -
  have "shCur E now (snd (shGetCurrent E now p f)) = shCur E now f"
    using shGetCurrent_entry [OF assms] by (simp add: fun_eq_iff shCur_entry)
  moreover have "fst (shGetCurrent E now p f) = shCur E now f p"
    by (simp add: shGetCurrent_def shCur_entry shEntry_def split: option.split)
  ultimately show ?thesis using shGetCurrent_entry(1) [OF assms, of now p] by (metis prod.collapse)
qed

lemma save_content:
  "sh_ok E f \<Longrightarrow> fst (fold (saveOne E now) ps (out, f)) =
     out @ concat (map (\<lambda>s. recordLine E s @ [LF]) (savedEntries E now f ps))"
proof (induction ps arbitrary: out f)
  case (Cons p ps)
  obtain f' where f': "shGetCurrent E now p f = (shCur E now f p, f')" "sh_ok E f'" "shCur E now f' = shCur E now f"
    using shGetCurrent_cur [OF Cons.prems] by blast
  have "savedEntries E now f' ps = savedEntries E now f ps" by (simp add: savedEntries_def f'(3))
  with Cons.IH [OF f'(2)] f'(1) show ?case
    by (auto simp: saveOne_def savedEntries_def map_filter_simps split: option.split)
qed (simp add: savedEntries_def map_filter_simps)

text \<open>The paths of a cache: those of its live entries, each once.\<close>

definition listed :: "gotime \<Rightarrow> catom \<Rightarrow> bool" where
  "listed now a \<longleftrightarrow> IsZeroTime (aExpiresAt a) \<or> aExpiresAt a > now"

abbreviation liveOf :: "gotime \<Rightarrow> tab \<Rightarrow> (string \<times> catom) list" where
  "liveOf now t \<equiv> filter (\<lambda>(p, a). listed now a) (tEntries t)"

lemma shFrontierPaths_live: "shFrontierPaths now f = concat (map (\<lambda>t. map fst (liveOf now t)) (shShards f))"
  by (simp add: shFrontierPaths_def listed_def)

lemma live_entry:
  assumes ok: "sh_ok E f" and i: "i < length (shShards f)" and m: "(p, a) \<in> set (tEntries (shShards f ! i))"
  shows "shEntry E f p = Some a" and "shardFor E p = i"
proof -
  have t: "gomap_ok (tEntries (shShards f ! i))" using ok i by (auto simp: sh_ok_def tab_ok_def)
  then have e: "map_of (tEntries (shShards f ! i)) p = Some a" using m gomap_in_set by fastforce
  then show s: "shardFor E p = i" using ok i by (auto simp: sh_ok_def)
  show "shEntry E f p = Some a" using e s by (simp add: shEntry_def shard_def)
qed

lemma distinct_shards:
  assumes "\<And>i p. i < length ts \<Longrightarrow> p \<in> set (g (ts ! i)) \<Longrightarrow> F p = k + i" and "\<And>t. t \<in> set ts \<Longrightarrow> distinct (g t)"
  shows "distinct (concat (map g ts))"
  using assms
proof (induction ts arbitrary: k)
  case (Cons t ts)
  have "distinct (concat (map g ts))"
    by (rule Cons.IH [of "Suc k"]) (use Cons.prems(1) [of "Suc _"] Cons.prems(2) in auto)
  moreover have "F p = k" if "p \<in> set (g t)" for p using Cons.prems(1) [of 0 p] that by simp
  moreover have "F p \<noteq> k" if "p \<in> set (concat (map g ts))" for p
  proof -
    from that obtain t' where "t' \<in> set ts" "p \<in> set (g t')" by auto
    then obtain i where "i < length ts" "p \<in> set (g (ts ! i))" by (metis in_set_conv_nth)
    then show ?thesis using Cons.prems(1) [of "Suc i" p] by simp
  qed
  ultimately show ?case using Cons.prems(2) by auto
qed simp

lemma shFrontierPaths_spec:
  assumes ok: "sh_ok E f"
  shows "distinct (shFrontierPaths now f)"
    and "p \<in> set (shFrontierPaths now f) \<longleftrightarrow> (\<exists>a. shEntry E f p = Some a \<and> listed now a)"
proof -
  have d: "distinct (map fst (liveOf now t))" if "t \<in> set (shShards f)" for t
    using sh_ok_all [OF ok that] by (auto simp: tab_ok_def gomap_ok_def intro: distinct_map_filter)
  show "distinct (shFrontierPaths now f)"
    unfolding shFrontierPaths_live
    by (rule distinct_shards [where F = "shardFor E" and k = 0]) (use d live_entry(2) [OF ok] in auto)
  show "p \<in> set (shFrontierPaths now f) \<longleftrightarrow> (\<exists>a. shEntry E f p = Some a \<and> listed now a)"
  proof
    assume "p \<in> set (shFrontierPaths now f)"
    then obtain t a where "t \<in> set (shShards f)" "(p, a) \<in> set (tEntries t)" "listed now a"
      unfolding shFrontierPaths_live by auto
    then obtain i where "i < length (shShards f)" "(p, a) \<in> set (tEntries (shShards f ! i))" "listed now a"
      by (metis in_set_conv_nth)
    with live_entry(1) [OF ok] show "\<exists>a. shEntry E f p = Some a \<and> listed now a" by blast
  next
    assume "\<exists>a. shEntry E f p = Some a \<and> listed now a"
    then obtain a where "(p, a) \<in> set (tEntries (shard E p f))" "listed now a" by (auto simp: shEntry_def dest: map_of_SomeD)
    moreover have "shard E p f \<in> set (shShards f)" using ok by (simp add: sh_ok_def shard_def)
    ultimately show "p \<in> set (shFrontierPaths now f)" unfolding shFrontierPaths_live by force
  qed
qed

text \<open>What is saved weighs no more than the cache.\<close>

lemma estimate_nonneg [simp]: "0 \<le> estimateAtomBytes p a"
  by (auto simp: estimateAtomBytes_def split: expr.split Value.split)

definition entryBytes :: "ext \<Rightarrow> sharded \<Rightarrow> string \<Rightarrow> int" where
  "entryBytes E f p = (case shEntry E f p of None \<Rightarrow> 0 | Some a \<Rightarrow> estimateAtomBytes p a)"

lemma recordOf_path: "recordOf E p a = Some r \<Longrightarrow> srPath r = p"
  by (auto simp: recordOf_def split: expr.splits)

lemma savedEntries_bytes:
  "(\<Sum>s \<leftarrow> savedEntries E now f ps. estimateAtomBytes (savePath s) (fst s)) \<le> (\<Sum>p \<leftarrow> ps. entryBytes E f p)"
proof (induction ps)
  case (Cons p ps)
  have nn: "0 \<le> entryBytes E f p" by (simp add: entryBytes_def split: option.split)
  let ?g = "\<lambda>p. case shCur E now f p of None \<Rightarrow> None | Some a \<Rightarrow> map_option (Pair a) (recordOf E p a)"
  show ?case
  proof (cases "?g p")
    case None
    with Cons nn show ?thesis by (simp add: savedEntries_def map_filter_simps)
  next
    case (Some s)
    then obtain a r where s: "s = (a, r)" "shCur E now f p = Some a" "recordOf E p a = Some r" by (auto split: option.splits)
    then have "shEntry E f p = Some a" by (auto simp: shCur_entry split: option.splits if_splits)
    then have "entryBytes E f p = estimateAtomBytes (savePath s) (fst s)" using s recordOf_path by (simp add: entryBytes_def)
    with Some Cons show ?thesis by (simp add: savedEntries_def map_filter_simps)
  qed
qed (simp add: savedEntries_def map_filter_simps)

lemma live_bytes:
  "\<forall>t \<in> set ts. \<forall>(p, a) \<in> set (tEntries t). shEntry E f p = Some a \<Longrightarrow>
   (\<Sum>p \<leftarrow> concat (map (\<lambda>t. map fst (liveOf now t)) ts). entryBytes E f p) \<le> (\<Sum>t \<leftarrow> ts. weight estimateAtomBytes (tEntries t))"
proof (induction ts)
  case (Cons t ts)
  have "(\<Sum>p \<leftarrow> map fst (filter (\<lambda>(p, a). listed now a) m). entryBytes E f p) \<le> weight estimateAtomBytes m"
    if "\<forall>(p, a) \<in> set m. shEntry E f p = Some a" for m
    using that by (induction m) (auto simp: weight_def entryBytes_def intro: add_mono add_increasing)
  with Cons show ?case by (simp add: add_mono)
qed simp

lemma saved_bytes:
  assumes ok: "sh_ok E f"
  shows "(\<Sum>s \<leftarrow> savedEntries E now f (shFrontierPaths now f). estimateAtomBytes (savePath s) (fst s)) \<le> shBytes f"
proof -
  have "\<forall>t \<in> set (shShards f). \<forall>(p, a) \<in> set (tEntries t). shEntry E f p = Some a"
    using live_entry(1) [OF ok] by (fastforce simp: in_set_conv_nth [of _ "shShards f"])
  from live_bytes [OF this, of now] have "(\<Sum>p \<leftarrow> shFrontierPaths now f. entryBytes E f p) \<le>
      (\<Sum>t \<leftarrow> shShards f. weight estimateAtomBytes (tEntries t))"
    by (simp add: shFrontierPaths_live)
  also have "\<dots> = (\<Sum>t \<leftarrow> shShards f. tBytes t)"
    by (rule arg_cong [where f = sum_list], rule map_cong) (use sh_ok_all [OF ok] in \<open>auto simp: tab_ok_def\<close>)
  also have "\<dots> = shBytes f" using ok by (simp add: sh_ok_def)
  finally show ?thesis using savedEntries_bytes [of E now f "shFrontierPaths now f"] by linarith
qed

section \<open>Save and load\<close>

lemma savedEntries_set:
  "s \<in> set (savedEntries E now f ps) \<longleftrightarrow>
     (\<exists>p \<in> set ps. shCur E now f p = Some (fst s) \<and> recordOf E p (fst s) = Some (snd s))"
  by (cases s) (force simp: savedEntries_def map_filter_def split: option.splits)

lemma savedEntries_paths:
  "map savePath (savedEntries E now f ps) =
     filter (\<lambda>p. \<exists>a r. shCur E now f p = Some a \<and> recordOf E p a = Some r) ps"
  by (induction ps) (auto simp: savedEntries_def map_filter_simps split: option.splits dest: recordOf_path)

text \<open>The records that are written: their values, paths, deadlines and lengths survive the file.\<close>

definition snapshotOk :: "ext \<Rightarrow> gotime \<Rightarrow> sharded \<Rightarrow> bool" where
  "snapshotOk E now f \<longleftrightarrow>
     list_all (\<lambda>s. storable E (atomVal (fst s)) \<and> validUTF8 (savePath s) \<and> jsonRange (srExpiresAt (snd s)) \<and>
         length (recordLine E s) < 1024 * 1024)
       (savedEntries E now f (shFrontierPaths now f))"

definition savedValues :: "ext \<Rightarrow> gotime \<Rightarrow> sharded \<Rightarrow> Value set" where
  "savedValues E now f = (\<lambda>s. atomVal (fst s)) ` set (savedEntries E now f (shFrontierPaths now f))"

text \<open>Value and deadline of a path whose value has a record.\<close>

definition savedAt :: "ext \<Rightarrow> gotime \<Rightarrow> sharded \<Rightarrow> string \<Rightarrow> (Value \<times> gotime) option" where
  "savedAt E now f p =
     (case shCur E now f p of
        None \<Rightarrow> None
      | Some a \<Rightarrow> if recordOf E p a = None then None else Some (atomVal a, aExpiresAt a))"

lemma recordOf_fields:
  "recordOf E p a = Some r \<Longrightarrow> aExpr a = EConst (atomVal a) \<and> encodeValue E (atomVal a) = Some (payload r) \<and> srPath r = p \<and>
     srExpiresAt r = aExpiresAt a \<and> srClock r < 2 ^ 64"
  using unsigned_less [of "aLogicalClock a"]
  by (auto simp: recordOf_def atomVal_def payload_def split: expr.splits)

lemma scanTokens_records:
  assumes "list_all (\<lambda>s. jsonOk 10000 (recordJson E (snd s)) \<and> length (recordLine E s) < n) L"
  shows "scanTokens n (concat (map (\<lambda>s. recordLine E s @ [LF]) L)) = map (recordLine E) L"
    and "\<not> scanTooLong n (concat (map (\<lambda>s. recordLine E s @ [LF]) L))"
proof -
  have "list_all (\<lambda>l. LF \<notin> set l) (map (recordLine E) L)" using assms jsonText_no_LF by (fastforce simp: list_all_iff)
  from scanLines_lines [OF this, of "[]"]
  have l: "scanLines (concat (map (\<lambda>s. recordLine E s @ [LF]) L)) = map (recordLine E) L"
    by (simp add: comp_def scanLines_last)
  have "last (recordLine E s) = CHR ''}''" "recordLine E s \<noteq> []" for s by (simp_all add: recordJson_def jsonText.simps)
  then have d: "dropCR (recordLine E s) = recordLine E s" for s by (simp add: dropCR_def CR_def) (simp add: char_of_def)
  have "takeWhile (\<lambda>raw. length raw < n) (map (recordLine E) L) = map (recordLine E) L"
    using assms by (auto simp: list_all_iff takeWhile_eq_all_conv)
  then show "scanTokens n (concat (map (\<lambda>s. recordLine E s @ [LF]) L)) = map (recordLine E) L"
    unfolding scanTokens_def l by (simp only:) (simp add: d)
  show "\<not> scanTooLong n (concat (map (\<lambda>s. recordLine E s @ [LF]) L))"
    using assms by (auto simp: scanTooLong_def l list_ex_iff list_all_iff)
qed

lemma load_saved:
  assumes E: "codecLaws E" and f: "sh_inv E f" and ok: "snapshotOk E now f" and un: "unconfused E (savedValues E now f)"
    and room: "shBytes f < ceiling90 (shMax (NewShardedFrontierCacheWithLimit lim))" and len: "length (shFrontierPaths now f) < 2 ^ 64"
  defines "L \<equiv> savedEntries E now f (shFrontierPaths now f)" and "f0 \<equiv> NewShardedFrontierCacheWithLimit lim"
  shows "\<exists>n g t. LoadSnapshot E now' (fst (SaveSnapshot E now f)) f0 newInternTable = Ok (False, n, g, t) \<and>
    (\<forall>s \<in> set L. restoredAs now' s (shEntry E g (savePath s))) \<and> (\<forall>q. q \<notin> savePath ` set L \<longrightarrow> shEntry E g q = None)"
proof -
  have sh: "sh_ok E f" using f by (simp add: sh_inv_def)
  have good: "list_all (goodSave E) L"
    using ok recordOf_fields by (fastforce simp: list_all_iff L_def snapshotOk_def goodSave_def savedEntries_set)
  have lines: "list_all (\<lambda>s. jsonOk 10000 (recordJson E (snd s)) \<and> length (recordLine E s) < 1024 * 1024) L"
    unfolding list_all_iff
  proof
    fix s assume s: "s \<in> set L"
    then have "goodSave E (fst s, snd s)" using good by (simp add: list_all_iff)
    then obtain w :: Value where "jsonOk 10000 (recordJson E (snd s))" using goodSave_line [OF E] by metis
    with s ok show "jsonOk 10000 (recordJson E (snd s)) \<and> length (recordLine E s) < 1024 * 1024"
      by (auto simp: snapshotOk_def L_def list_all_iff)
  qed
  have "distinct (map savePath L)" unfolding L_def savedEntries_paths by (simp add: shFrontierPaths_spec(1) [OF sh])
  moreover have "length (map savePath L) \<le> length (shFrontierPaths now f)"
    unfolding L_def savedEntries_paths by (rule length_filter_le)
  moreover have "internFrom E (savedValues E now f) newInternTable" by (simp add: internFrom_def newInternTable_def bucket_def)
  moreover have "shBytes f0 + (\<Sum>s \<leftarrow> L. estimateAtomBytes (savePath s) (fst s)) < ceiling90 (shMax f0)"
    using saved_bytes [OF sh, of now] room by (simp add: L_def f0_def NewShardedFrontierCacheWithLimit_def)
  moreover have "shClock f0 = 0" by (simp add: f0_def NewShardedFrontierCacheWithLimit_def)
  moreover have "shEntry E f0 q = None" for q by (simp add: f0_def)
  ultimately obtain n g t where l: "loadRecords E now' (map (recordLine E) L) (0, f0, newInternTable) = Ok (n, g, t)"
    "\<forall>s \<in> set L. restoredAs now' s (shEntry E g (savePath s))" "\<forall>q. q \<notin> savePath ` set L \<longrightarrow> shEntry E g q = None"
    using loadRecords_good [OF E un good, of f0 newInternTable now' 0] sh_inv_new [of E lim] len
    by (auto simp: f0_def savedValues_def L_def)
  have c: "fst (SaveSnapshot E now f) = concat (map (\<lambda>s. recordLine E s @ [LF]) L)"
    using save_content [OF sh, of now _ "[]"] by (simp add: SaveSnapshot_def L_def)
  have "LoadSnapshot E now' (fst (SaveSnapshot E now f)) f0 newInternTable = Ok (False, n, g, t)"
    unfolding LoadSnapshot_def c scanTokens_records(1) [OF lines] using scanTokens_records(2) [OF lines] l(1) by simp
  with l(2,3) show ?thesis by blast
qed


text \<open>A cache with one value.\<close>

definition exCache :: sharded where
  "exCache = snd (shAppendAtom ext0 5 (EConst (VString ''v'')) ''k'' [] zeroTime (NewShardedFrontierCacheWithLimit 100000))"

definition exAtom :: catom where
  "exAtom = mintAtom ext0 (EConst (VString ''v'')) ''k'' 1 5 zeroTime"

definition exRecord :: snapshotRecord where
  "exRecord = \<lparr>srPath = ''k'', srValue = ''v'', srValueType = ''string'', srData = [], srExpiresAt = zeroTime, srClock = 1\<rparr>"

lemma exAtom_fields: "aExpr exAtom = EConst (VString ''v'')" "aExpiresAt exAtom = zeroTime" "aLogicalClock exAtom = 1"
  by (simp_all add: exAtom_def)

lemma ceiling_example: "ceiling90 (shMax (NewShardedFrontierCacheWithLimit 100000)) = 90000"
  by (simp add: NewShardedFrontierCacheWithLimit_def ceiling90_def f64scale_def round53_def bitlen.simps Let_def f64_consts)

lemma exCache_facts:
  "sh_inv ext0 exCache" "shBytes exCache < 90000" "shEntry ext0 exCache q = (if q = ''k'' then Some exAtom else None)"
proof -
  let ?f = "NewShardedFrontierCacheWithLimit 100000"
  have n: "shClock ?f = 0" "shBytes ?f = 0" by (simp_all add: NewShardedFrontierCacheWithLimit_def)
  have e: "estimateAtomBytes ''k'' exAtom < 90000" by (simp add: estimateAtomBytes_def exAtom_def)
  have "sh_room ?f" "shEntry ext0 ?f ''k'' = None" "shBytes ?f + estimateAtomBytes ''k'' exAtom < ceiling90 (shMax ?f)"
    using n e by (simp_all add: sh_room_def ceiling_example)
  moreover have "exAtom = mintAtom ext0 (EConst (VString ''v'')) ''k'' (shClock ?f + 1) 5 zeroTime" by (simp add: n exAtom_def)
  ultimately obtain h g where g: "shAppendAtom ext0 5 (EConst (VString ''v'')) ''k'' [] zeroTime ?f = (Ok h, g)" "sh_inv ext0 g"
    "shBytes g = shBytes ?f + estimateAtomBytes ''k'' exAtom" "\<And>q. shEntry ext0 g q = (if q = ''k'' then Some exAtom else shEntry ext0 ?f q)"
    using sh_append_fresh [OF sh_inv_new [of ext0 100000], of "''k''" exAtom "EConst (VString ''v'')" 5 zeroTime "[]"] by blast
  then show "sh_inv ext0 exCache" "shBytes exCache < 90000" "shEntry ext0 exCache q = (if q = ''k'' then Some exAtom else None)"
    using e n by (simp_all add: exCache_def)
qed

lemma exCache_saved: "shFrontierPaths 6 exCache = [''k'']" "savedEntries ext0 6 exCache [''k''] = [(exAtom, exRecord)]"
proof -
  have ok: "sh_ok ext0 exCache" using exCache_facts(1) by (simp add: sh_inv_def)
  have "set (shFrontierPaths 6 exCache) = {''k''}"
    by (auto simp: shFrontierPaths_spec(2) [OF ok] exCache_facts(3) listed_def exAtom_fields split: if_splits)
  note s = this
  then have "length (shFrontierPaths 6 exCache) = Suc 0" using distinct_card [OF shFrontierPaths_spec(1) [OF ok, of 6]] by simp
  then obtain x where "shFrontierPaths 6 exCache = [x]" by (cases "shFrontierPaths 6 exCache") auto
  with s show "shFrontierPaths 6 exCache = [''k'']" by simp
  show "savedEntries ext0 6 exCache [''k''] = [(exAtom, exRecord)]"
    by (simp add: savedEntries_def map_filter_simps shCur_entry exCache_facts(3) recordOf_def encodeValue_def encodeScalar_def
        exRecord_def exAtom_fields)
qed


end
