(* ===== verification/JsonTorn.thy ===== *)
theory JsonTorn
  imports Json
begin

text \<open>
  What the reader of documents makes of torn text: a value is read the same when the text goes
  on behind it, so no proper prefix of an object is a document, and an object that is glued to
  the torn start of another is none either.  The write-ahead log relies on the first and
  suffers from the second.
\<close>

section \<open>Reading a longer text\<close>

lemma getu4_append: "getu4 s \<noteq> None \<Longrightarrow> getu4 (s @ t) = getu4 s"
  by (auto simp: getu4_def split: list.splits)

lemma getu4_length: "getu4 (c # s) \<noteq> None \<Longrightarrow> 5 \<le> length s"
  by (auto simp: getu4_def split: list.splits)

lemma getu4_plainEsc: "plainEsc e \<noteq> None \<Longrightarrow> getu4 (c # e # s) = None"
  by (rule getu4_not_u) (auto simp: plainEsc_def dquote_def bslash_def)

lemma lexStr_append: "lexStr s = Some (b, r) \<Longrightarrow> lexStr (s @ t) = Some (b, r @ t)"
proof (induction s arbitrary: b r rule: lexStr.induct)
  case (2 c s)
  consider "c = dquote" | "c \<noteq> dquote" "c \<noteq> bslash" | "c = bslash" "getu4 (c # s) \<noteq> None"
    | "c = bslash" "getu4 (c # s) = None" by blast
  then show ?case
  proof cases
    case 1
    with "2.prems" show ?thesis by (simp add: lexStr.simps)
  next
    case 2
    with "2.prems" "2.IH"(1) show ?thesis by (auto simp: lexStr.simps pre_def split: if_splits)
  next
    case 3
    with "2.prems" "2.IH"(2) getu4_append [OF 3(2), of t] getu4_length [OF 3(2)] show ?thesis
      by (auto simp: lexStr.simps pre_def bslash_facts split: if_splits)
  next
    case 4
    with "2.prems" obtain e s' where s: "s = e # s'" "plainEsc e \<noteq> None" and l: "pre [c, e] (lexStr s') = Some (b, r)"
      by (auto simp: lexStr.simps bslash_facts split: if_splits list.splits)
    with "2.IH"(3) 4 obtain b' where "lexStr (s' @ t) = Some (b', r @ t)" "b = c # e # b'" by (auto simp: pre_def bslash_facts)
    with 4 s getu4_plainEsc [OF s(2)] show ?thesis by (simp add: lexStr.simps pre_def bslash_facts)
  qed
qed simp

lemma dropWhile_append_ne: "dropWhile P s = c # r \<Longrightarrow> dropWhile P (s @ t) = c # r @ t"
  by (induction s) (auto split: if_splits)

text \<open>
  A value that is not a bare number at the end of the text is read the same when the text goes
  on, and with more fuel.
\<close>

lemma HasPrefix_append2: "HasPrefix s p \<Longrightarrow> HasPrefix (s @ t) p \<and> drop (length p) (s @ t) = drop (length p) s @ t"
  by (auto simp: HasPrefix_iff)

lemma jatom_append:
  assumes "jatom s = Some (v, r)" and "r \<noteq> [] \<or> (\<nexists>n. v = JNum n)"
  shows "jatom (s @ t) = Some (v, r @ t)"
proof -
  consider "HasPrefix s ''null''" | "HasPrefix s ''true''" "\<not> HasPrefix s ''null''"
    | "HasPrefix s ''false''" "\<not> HasPrefix s ''null''" "\<not> HasPrefix s ''true''"
    | "\<not> HasPrefix s ''null''" "\<not> HasPrefix s ''true''" "\<not> HasPrefix s ''false''" "validNumber (takeWhile isNumChar s)"
      "v = JNum (takeWhile isNumChar s)" "r = dropWhile isNumChar s"
    using assms(1) by (auto simp: jatom_def split: if_splits)
  then show ?thesis
  proof cases
    case 4
    then obtain c q where c: "dropWhile isNumChar s = c # q" using assms(2) by (cases "dropWhile isNumChar s") auto
    then have "takeWhile isNumChar (s @ t) = takeWhile isNumChar s" by (metis append_eq_append_conv2 append_self_conv dropWhile_eq_Nil_conv list.distinct(1) takeWhile_append1 takeWhile_dropWhile_id)
    moreover have "dropWhile isNumChar (s @ t) = r @ t" using dropWhile_append_ne [OF c] 4(6) c by simp
    moreover obtain d w where "s = d # w" "isNumChar d" using validNumber_chars [OF 4(4)] by (cases s) (auto split: if_splits)
    then have "\<not> HasPrefix (s @ t) ''null''" "\<not> HasPrefix (s @ t) ''true''" "\<not> HasPrefix (s @ t) ''false''"
      using numChar_facts(7,8,9) [of d] by (auto simp: HasPrefix_def)
    ultimately show ?thesis using 4 by (simp add: jatom_def)
  qed (use assms(1) in \<open>auto simp: jatom_def HasPrefix_iff\<close>)
qed

lemma jval_step_append:
  assumes el: "\<And>s xs r. jelems k (d - 1) s = Some (xs, r) \<Longrightarrow> jelems k' (d - 1) (s @ t) = Some (xs, r @ t)"
    and me: "\<And>s xs r. jmembers k (d - 1) s = Some (xs, r) \<Longrightarrow> jmembers k' (d - 1) (s @ t) = Some (xs, r @ t)"
    and v: "jval (Suc k) d s = Some (v, r)" "r \<noteq> [] \<or> (\<nexists>n. v = JNum n)"
  shows "jval (Suc k') d (s @ t) = Some (v, r @ t)"
proof -
  obtain c q where c: "skipWs s = c # q" using v(1) by (auto split: list.splits)
  note c' = dropWhile_append_ne [OF c, of t]
  consider (str) "c = dquote" | (arr) "c = CHR ''[''" | (obj) "c = CHR ''{''" | (atom) "c \<noteq> dquote" "c \<noteq> CHR ''[''" "c \<noteq> CHR ''{''"
    by blast
  then show ?thesis
  proof cases
    case str
    with v(1) c c' lexStr_append [of q _ _ t] show ?thesis by auto
  next
    case arr
    then obtain e w where e: "skipWs q = e # w" "d \<noteq> 0" using v(1) c by (auto simp: dquote_def split: list.splits if_splits)
    show ?thesis using arr v(1) c c' e dropWhile_append_ne [OF e(1), of t] el [of q]
      by (cases "e = CHR '']''") (auto simp: dquote_def)
  next
    case obj
    then obtain e w where e: "skipWs q = e # w" "d \<noteq> 0" using v(1) c by (auto simp: dquote_def split: list.splits if_splits)
    show ?thesis using obj v(1) c c' e dropWhile_append_ne [OF e(1), of t] me [of q]
      by (cases "e = CHR ''}''") (auto simp: dquote_def)
  next
    case atom
    with v c c' jatom_append [of "c # q" v r t] show ?thesis by simp
  qed
qed

lemma jelems_step_append:
  assumes va: "\<And>s v r. jval k d s = Some (v, r) \<Longrightarrow> r \<noteq> [] \<Longrightarrow> jval k' d (s @ t) = Some (v, r @ t)"
    and el: "\<And>s xs r. jelems k d s = Some (xs, r) \<Longrightarrow> jelems k' d (s @ t) = Some (xs, r @ t)"
    and v: "jelems (Suc k) d s = Some (xs, r)"
  shows "jelems (Suc k') d (s @ t) = Some (xs, r @ t)"
proof -
  obtain y q where y: "jval k d s = Some (y, q)" using v by (auto split: option.splits)
  then obtain c w where c: "skipWs q = c # w" using v by (auto split: list.splits)
  then have "q \<noteq> []" by auto
  with va [OF y] v y c dropWhile_append_ne [OF c, of t] el [of w] show ?thesis by (auto split: if_splits)
qed

lemma jmembers_step_append:
  assumes va: "\<And>s v r. jval k d s = Some (v, r) \<Longrightarrow> r \<noteq> [] \<Longrightarrow> jval k' d (s @ t) = Some (v, r @ t)"
    and me: "\<And>s xs r. jmembers k d s = Some (xs, r) \<Longrightarrow> jmembers k' d (s @ t) = Some (xs, r @ t)"
    and v: "jmembers (Suc k) d s = Some (xs, r)"
  shows "jmembers (Suc k') d (s @ t) = Some (xs, r @ t)"
proof -
  obtain s1 where s1: "skipWs s = dquote # s1" using v by (auto split: list.splits if_splits)
  then obtain key s2 where s2: "lexStr s1 = Some (key, s2)" using v by (auto split: option.splits)
  then obtain s3 where s3: "skipWs s2 = CHR '':'' # s3" using v s1 by (auto split: list.splits if_splits)
  then obtain y q where y: "jval k d s3 = Some (y, q)" using v s1 s2 by (auto split: option.splits)
  then obtain c w where c: "skipWs q = c # w" using v s1 s2 s3 by (auto split: list.splits)
  then have "q \<noteq> []" by auto
  with va [OF y] v s1 s2 s3 y c dropWhile_append_ne [OF s1, of t] lexStr_append [OF s2, of t] dropWhile_append_ne [OF s3, of t]
    dropWhile_append_ne [OF c, of t] me [of w]
  show ?thesis by (auto split: if_splits)
qed

lemma jval_append:
  "k \<le> k' \<Longrightarrow>
   (jval k d s = Some (v, r) \<longrightarrow> (r \<noteq> [] \<or> (\<nexists>n. v = JNum n)) \<longrightarrow> jval k' d (s @ t) = Some (v, r @ t)) \<and>
   (jelems k d s = Some (xs, r) \<longrightarrow> jelems k' d (s @ t) = Some (xs, r @ t)) \<and>
   (jmembers k d s = Some (ms, r) \<longrightarrow> jmembers k' d (s @ t) = Some (ms, r @ t))"
proof (induction k arbitrary: k' d s v r xs ms)
  case (Suc k)
  then obtain m where m: "k' = Suc m" "k \<le> m" by (cases k') auto
  have va: "jval k d s = Some (v, r) \<Longrightarrow> r \<noteq> [] \<Longrightarrow> jval m d (s @ t) = Some (v, r @ t)" for d s v r using Suc.IH [OF m(2)] by blast
  have el: "jelems k d s = Some (xs, r) \<Longrightarrow> jelems m d (s @ t) = Some (xs, r @ t)" for d s xs r using Suc.IH [OF m(2)] by blast
  have me: "jmembers k d s = Some (xs, r) \<Longrightarrow> jmembers m d (s @ t) = Some (xs, r @ t)" for d s xs r using Suc.IH [OF m(2)] by blast
  show ?case using jval_step_append [OF el me] jelems_step_append [OF va el] jmembers_step_append [OF va me] unfolding m(1) by blast
qed simp

text \<open>No proper prefix of an object is a document.\<close>

lemma jsonParse_torn:
  assumes ok: "jsonOk 10000 (JObj kvs)" and st: "jsonText (JObj kvs) = s @ t" and t: "t \<noteq> []"
  shows "jsonParse s = None"
proof (rule ccontr)
  assume "jsonParse s \<noteq> None"
  then obtain v r where v: "jval (2 * length s + 2) 10000 s = Some (v, r)" by (auto simp: jsonParse_def split: option.splits)
  have "s \<noteq> []" using v by auto
  then obtain q where "s = CHR ''{'' # q" using st by (cases s) auto
  then have "\<nexists>n. v = JNum n" using v by (auto simp: not_ws dquote_def split: list.splits if_splits)
  then have "jval (2 * length (s @ t) + 2) 10000 (s @ t) = Some (v, r @ t)"
    using jval_append [of "2 * length s + 2" "2 * length (s @ t) + 2"] v by simp
  moreover have "jval (2 * length (s @ t) + 2) 10000 (s @ t) = Some (JObj kvs, [])"
    using jval_text [OF ok, of "2 * length (s @ t) + 2" "[]"] st by (simp add: stops_def del: jsonText.simps)
  ultimately show False using t by simp
qed

text \<open>Nor is anything that opens two objects at once.\<close>

lemma jsonParse_glued: "jsonParse (''{{'' @ s) = None"
proof -
  have "jmembers k d (CHR ''{'' # s) = None" for k d by (cases k) (simp_all add: not_ws dquote_def)
  then have "jval k d (''{{'' @ s) = None" for k d by (cases k) (simp_all add: not_ws dquote_def)
  then show ?thesis by (simp add: jsonParse_def)
qed

end
