(* ===== verification/Wal.thy ===== *)
theory Wal
  imports Snapshot JsonTorn
begin

text \<open>
  The write-ahead log of \<open>storage/wal.go\<close> and the JSON form of an atom (\<open>json.Marshal\<close> of the
  struct \<open>CausalAtom\<close> and its \<open>UnmarshalJSON\<close> in \<open>core/types.go\<close>).

  A disk holds the log, its temporary and its backup file.  What the file system answers is an
  argument of the operations.
\<close>

section \<open>Atoms as documents\<close>

text \<open>
  What is attached to a node by interning, and the numbers of a vector: \<open>nodeID\<close> is the ID
  that the intern table gave to a node, \<open>vecJson\<close> the array of a vector (\<open>None\<close> when a
  component has no JSON form) and \<open>f32Ok\<close> says which numbers a float32 can hold.
\<close>

record codec =
  nodeID :: "expr \<Rightarrow> nat"
  vecJson :: "vec \<Rightarrow> json option"
  f32Ok :: "string \<Rightarrow> bool"

definition byteArray :: "string \<Rightarrow> json" where
  "byteArray s = JArr (map (\<lambda>c. JNum (showNat (code_of c))) s)"

definition hashJson :: "hash \<Rightarrow> json" where
  "hashJson h = byteArray (hashBytes h)"

text \<open>The members that the embedded \<open>ExprHeader\<close> contributes; its cached hash has no exported field.\<close>

definition header :: "codec \<Rightarrow> nat \<Rightarrow> expr \<Rightarrow> (string \<times> json) list" where
  "header C ty e =
     [(''Typ'', JNum (showNat ty)), (''ID'', JNum (showNat (nodeID C e))), (''Hash'', JObj []), (''Depth'', JNum ''0'')]"

text \<open>A nil slice is \<open>null\<close>.\<close>

definition hashesJson :: "hash list \<Rightarrow> json" where
  "hashesJson hs = (if hs = [] then JNull else JArr (map hashJson hs))"

fun exprJson :: "codec \<Rightarrow> ext \<Rightarrow> expr \<Rightarrow> json option" where
  "exprJson C E (EConst v) = map_option (\<lambda>j. JObj (header C 0 (EConst v) @ [(''Value'', j)])) (valueJson E v)"
| "exprJson C E (EFieldAccess f e) =
     map_option (\<lambda>j. JObj (header C 1 (EFieldAccess f e) @ [(''Field'', jstr f), (''Source'', j)])) (exprJson C E e)"
| "exprJson C E (EEmbed m v) =
     map_option (\<lambda>j. JObj (header C 2 (EEmbed m v) @ [(''ModelVersion'', JNum (showNat (unat m))), (''Vector'', j)])) (vecJson C v)"
| "exprJson C E (ECompose hs) = Some (JObj (header C 3 (ECompose hs) @ [(''Atoms'', hashesJson hs)]))"
| "exprJson C E (EApply f a) =
     (case (exprJson C E f, exprJson C E a) of
        (Some j, Some k) \<Rightarrow> Some (JObj (header C 4 (EApply f a) @ [(''Func'', j), (''Arg'', k)]))
      | _ \<Rightarrow> None)"
| "exprJson C E (EResonate qs) =
     map_option (\<lambda>js. JObj (header C 5 (EResonate qs) @ [(''Queries'', if qs = [] then JNull else JArr js)]))
       (those (map (vecJson C) qs))"

fun domainNo :: "domain \<Rightarrow> nat" where
  "domainNo DomainUser = 0"
| "domainNo DomainOrder = 1"
| "domainNo DomainProduct = 2"
| "domainNo DomainSession = 3"
| "domainNo DomainConfig = 4"
| "domainNo DomainAnalytics = 5"
| "domainNo DomainSystem = 6"

text \<open>The vector of an atom is always zero.\<close>

definition atomJson :: "codec \<Rightarrow> ext \<Rightarrow> catom \<Rightarrow> json option" where
  "atomJson C E a =
     map_option (\<lambda>e. JObj
       [(''Hash'', hashJson (aHash a)), (''Expr'', e), (''CausalPast'', hashesJson (aCausalPast a)),
        (''CausalDepth'', JNum (showNat (unat (aCausalDepth a)))), (''Vector'', JArr (replicate 256 (JNum ''0''))),
        (''Domain'', JNum (showNat (domainNo (aDomain a)))), (''LogicalClock'', JNum (showNat (unat (aLogicalClock a)))),
        (''PhysicalTime'', JStr (jsonTime E (aPhysicalTime a))),
        (''Nonce'', byteArray (be_bytes 16 (unat (aNonce a)))), (''BranchID'', byteArray (be_bytes 16 (unat (aBranchID a)))),
        (''Path'', jstr (aPath a)), (''ExpiresAt'', JStr (jsonTime E (aExpiresAt a)))])
     (exprJson C E (aExpr a))"

subsection \<open>Reading an atom\<close>

text \<open>An array of \<open>n\<close> bytes: further elements are skipped, missing ones are zero, a null keeps the byte.\<close>

definition bytesVal :: "nat list \<Rightarrow> nat" where
  "bytesVal bs = foldl (\<lambda>x b. 256 * x + b) 0 bs"

definition jByteArray :: "nat \<Rightarrow> json \<Rightarrow> nat \<Rightarrow> nat option" where
  "jByteArray n j v =
     (case j of
        JArr xs \<Rightarrow>
          map_option (\<lambda>bs. bytesVal (bs @ replicate (n - length bs) 0))
            (mapOption (\<lambda>(x, c). jUint 8 x (code_of c)) (zip xs (be_bytes n v)))
      | JNull \<Rightarrow> Some v
      | _ \<Rightarrow> None)"

definition jHash :: "json \<Rightarrow> hash \<Rightarrow> hash option" where
  "jHash j v = map_option of_nat (jByteArray 32 j (unat v))"

definition jVector :: "codec \<Rightarrow> json \<Rightarrow> bool" where
  "jVector C j =
     (case j of
        JArr xs \<Rightarrow> list_all (\<lambda>x. case x of JNum s \<Rightarrow> f32Ok C s | JNull \<Rightarrow> True | _ \<Rightarrow> False) (take 256 xs)
      | JNull \<Rightarrow> True
      | _ \<Rightarrow> False)"

text \<open>A number that names no domain is read as the last one; nothing reads the field.\<close>

definition domainOf :: "nat \<Rightarrow> domain" where
  "domainOf n =
     (let ds = [DomainUser, DomainOrder, DomainProduct, DomainSession, DomainConfig, DomainAnalytics, DomainSystem]
      in if n < length ds then ds ! n else DomainSystem)"

definition blankAtom :: catom where
  "blankAtom = \<lparr>aHash = 0, aExpr = EConst VNil, aCausalPast = [], aCausalDepth = 0, aDomain = DomainUser, aLogicalClock = 0,
     aPhysicalTime = zeroTime, aNonce = 0, aBranchID = 0, aPath = [], aExpiresAt = zeroTime\<rparr>"

text \<open>The fields of an atom, and the bytes of its expression.\<close>

definition atomField ::
    "codec \<Rightarrow> ext \<Rightarrow> string \<Rightarrow> json \<Rightarrow> catom \<times> json option \<Rightarrow> (catom \<times> json option) option" where
  "atomField C E k j = (\<lambda>(a, x).
     if keyIs ''Hash'' k then map_option (\<lambda>h. (a\<lparr>aHash := h\<rparr>, x)) (jHash j (aHash a))
     else if keyIs ''Expr'' k then Some (a, Some j)
     else if keyIs ''CausalPast'' k then map_option (\<lambda>hs. (a\<lparr>aCausalPast := hs\<rparr>, x)) (jSlice (\<lambda>j. jHash j 0) j)
     else if keyIs ''CausalDepth'' k then
       map_option (\<lambda>n. (a\<lparr>aCausalDepth := of_nat n\<rparr>, x)) (jUint 64 j (unat (aCausalDepth a)))
     else if keyIs ''Vector'' k then (if jVector C j then Some (a, x) else None)
     else if keyIs ''Domain'' k then map_option (\<lambda>n. (a\<lparr>aDomain := domainOf n\<rparr>, x)) (jUint 8 j (domainNo (aDomain a)))
     else if keyIs ''LogicalClock'' k then
       map_option (\<lambda>n. (a\<lparr>aLogicalClock := of_nat n\<rparr>, x)) (jUint 64 j (unat (aLogicalClock a)))
     else if keyIs ''PhysicalTime'' k then map_option (\<lambda>t. (a\<lparr>aPhysicalTime := t\<rparr>, x)) (jTime E j (aPhysicalTime a))
     else if keyIs ''Nonce'' k then map_option (\<lambda>n. (a\<lparr>aNonce := of_nat n\<rparr>, x)) (jByteArray 16 j (unat (aNonce a)))
     else if keyIs ''BranchID'' k then map_option (\<lambda>n. (a\<lparr>aBranchID := of_nat n\<rparr>, x)) (jByteArray 16 j (unat (aBranchID a)))
     else if keyIs ''Path'' k then map_option (\<lambda>s. (a\<lparr>aPath := s\<rparr>, x)) (jString j (aPath a))
     else if keyIs ''ExpiresAt'' k then map_option (\<lambda>t. (a\<lparr>aExpiresAt := t\<rparr>, x)) (jTime E j (aExpiresAt a))
     else Some (a, x))"

text \<open>Decoding into an interface value fails only on a number that no float64 can hold.\<close>

fun numbersOk :: "ext \<Rightarrow> json \<Rightarrow> bool" where
  "numbersOk E (JNum s) = (parseFloat E s \<noteq> None)"
| "numbersOk E (JArr xs) = list_all (numbersOk E) xs"
| "numbersOk E (JObj kvs) = list_all (\<lambda>(k, v). numbersOk E v) kvs"
| "numbersOk E _ = True"

definition composeField :: "string \<Rightarrow> json \<Rightarrow> hash list \<Rightarrow> hash list option" where
  "composeField k j hs = (if keyIs ''Atoms'' k then jSlice (\<lambda>j. jHash j 0) j else Some hs)"

definition accessField :: "string \<Rightarrow> json \<Rightarrow> string \<Rightarrow> string option" where
  "accessField k j f = (if keyIs ''Field'' k then jString j f else Some f)"

definition constField :: "ext \<Rightarrow> string \<Rightarrow> json \<Rightarrow> json \<Rightarrow> json option" where
  "constField E k j v = (if keyIs ''Value'' k then (if numbersOk E j then Some j else None) else Some v)"

text \<open>\<open>EConst.UnmarshalJSON\<close> keeps strings; everything else becomes null.\<close>

definition constValue :: "json \<Rightarrow> Value" where
  "constValue j = (case j of JStr b \<Rightarrow> VString (unquoteBody b) | _ \<Rightarrow> VNull)"

definition unmarshalExpr :: "ext \<Rightarrow> json \<Rightarrow> internTable \<Rightarrow> (expr \<times> internTable) option result" where
  "unmarshalExpr E j t =
     (case jStruct composeField j [] of
        Some (h # hs) \<Rightarrow> bind_result (Intern E (ICompose (h # hs)) t) (\<lambda>(c, t'). Ok (Some (ECompose (h # hs), t')))
      | _ \<Rightarrow>
          (case jStruct accessField j [] of
             Some (c # f) \<Rightarrow> bind_result (Intern E (IField (c # f) None) t) (\<lambda>_. Ok None)
           | _ \<Rightarrow>
               (case jStruct (constField E) j JNull of
                  None \<Rightarrow> Ok None
                | Some v \<Rightarrow> bind_result (NewEConst E (constValue v) t) (\<lambda>(w, t'). Ok (Some (EConst w, t'))))))"

text \<open>
  \<open>CausalAtom.UnmarshalJSON\<close>.  The document \<open>null\<close> makes the auxiliary pointer nil, and reading
  its expression panics.
\<close>

definition unmarshalAtom :: "codec \<Rightarrow> ext \<Rightarrow> string \<Rightarrow> internTable \<Rightarrow> (catom \<times> internTable) option result" where
  "unmarshalAtom C E data t =
     (case jsonParse data of
        None \<Rightarrow> Ok None
      | Some JNull \<Rightarrow> Panic
      | Some j \<Rightarrow>
          (case jStruct (atomField C E) j (blankAtom, None) of
             Some (a, Some x) \<Rightarrow>
               bind_result (unmarshalExpr E x t) (\<lambda>r. Ok (map_option (\<lambda>(e, t'). (a\<lparr>aExpr := e\<rparr>, t')) r))
           | _ \<Rightarrow> Ok None))"

section \<open>The log\<close>

definition maxLineSize :: nat where "maxLineSize = 2 ^ 20"

record disk =
  dMain :: "string option"
  dTmp :: "string option"
  dOld :: "string option"

text \<open>The handle of the log file: open, closed by \<open>Close\<close>, or nil after a failed rewrite.\<close>

datatype handle = HOpen | HClosed | HNil

record wal =
  wDisk :: disk
  wHandle :: handle

definition content :: "disk \<Rightarrow> string" where
  "content d = (case dMain d of None \<Rightarrow> [] | Some s \<Rightarrow> s)"

definition NewWAL :: "disk \<Rightarrow> wal" where
  "NewWAL d = \<lparr>wDisk = d\<lparr>dTmp := None, dMain := Some (content d)\<rparr>, wHandle = HOpen\<rparr>"

text \<open>A write succeeds, fails after some bytes, or fails in \<open>Sync\<close> after all of them.\<close>

datatype io = IoOk | WriteFail nat string | SyncFail string

definition writeLog :: "string \<Rightarrow> wal \<Rightarrow> wal" where
  "writeLog s w = w\<lparr>wDisk := (wDisk w)\<lparr>dMain := Some (content (wDisk w) @ s)\<rparr>\<rparr>"

definition walAppend :: "codec \<Rightarrow> ext \<Rightarrow> io \<Rightarrow> catom \<Rightarrow> wal \<Rightarrow> unit result \<times> wal" where
  "walAppend C E io a w =
     (if wHandle w = HNil then (Err ''WAL file is closed'', w)
      else case atomJson C E a of
        None \<Rightarrow> (Err ''json: unsupported value'', w)
      | Some j \<Rightarrow>
          (let data = jsonText j in
           if length data > maxLineSize then
             (Err (''atom too large: '' @ showNat (length data) @ '' bytes > '' @ showNat maxLineSize @ '' limit''), w)
           else if wHandle w = HClosed then (Err ''file already closed'', w)
           else case io of
             IoOk \<Rightarrow> (Ok (), writeLog (data @ [LF]) w)
           | WriteFail n e \<Rightarrow> (Err e, writeLog (take n (data @ [LF])) w)
           | SyncFail e \<Rightarrow> (Err e, writeLog (data @ [LF]) w)))"

definition walClose :: "wal \<Rightarrow> unit result \<times> wal" where
  "walClose w =
     (case wHandle w of
        HNil \<Rightarrow> (Ok (), w)
      | HClosed \<Rightarrow> (Err ''file already closed'', w)
      | HOpen \<Rightarrow> (Ok (), w\<lparr>wHandle := HClosed\<rparr>))"

definition walSize :: "wal \<Rightarrow> nat" where
  "walSize w = (if wHandle w = HOpen then length (content (wDisk w)) else 0)"

text \<open>
  \<open>Rewrite\<close>: the steps on the disk.  The temporary file is written and synced, the log is
  moved to the backup, the temporary file to the log, and the backup is removed.
\<close>

definition renameMainOld :: "disk \<Rightarrow> disk" where
  "renameMainOld d = (case dMain d of None \<Rightarrow> d | Some s \<Rightarrow> d\<lparr>dOld := Some s, dMain := None\<rparr>)"

definition renameTmpMain :: "disk \<Rightarrow> disk" where
  "renameTmpMain d = (case dTmp d of None \<Rightarrow> d | Some s \<Rightarrow> d\<lparr>dMain := Some s, dTmp := None\<rparr>)"

definition renameOldMain :: "disk \<Rightarrow> disk" where
  "renameOldMain d = (case dOld d of None \<Rightarrow> d | Some s \<Rightarrow> d\<lparr>dMain := Some s, dOld := None\<rparr>)"

definition rewriteSteps :: "string \<Rightarrow> (disk \<Rightarrow> disk) list" where
  "rewriteSteps s =
     [\<lambda>d. d\<lparr>dTmp := Some s\<rparr>, \<lambda>d. d\<lparr>dOld := None\<rparr>, renameMainOld, renameTmpMain, \<lambda>d. d\<lparr>dOld := None\<rparr>, \<lambda>d. d\<lparr>dTmp := None\<rparr>]"

definition runSteps :: "(disk \<Rightarrow> disk) list \<Rightarrow> disk \<Rightarrow> disk" where
  "runSteps fs d = fold (\<lambda>f. f) fs d"

text \<open>What the file system answers in a rewrite, as far as the code looks at it; a removal succeeds.\<close>

record faults =
  ftCreate :: "string option"
  ftWrite :: "nat \<Rightarrow> string option"
  ftSync :: "string option"
  ftBackup :: bool
  ftRename :: "string option"
  ftRestore :: bool
  ftReopen :: "string option"

definition noFaults :: faults where
  "noFaults = \<lparr>ftCreate = None, ftWrite = (\<lambda>_. None), ftSync = None, ftBackup = False, ftRename = None, ftRestore = False,
     ftReopen = None\<rparr>"

fun writeTmp :: "codec \<Rightarrow> ext \<Rightarrow> (nat \<Rightarrow> string option) \<Rightarrow> nat \<Rightarrow> catom list \<Rightarrow> string \<Rightarrow> string + string" where
  "writeTmp C E ft i [] s = Inr s"
| "writeTmp C E ft i (a # as) s =
     (case atomJson C E a of
        None \<Rightarrow> Inl ''marshal: json: unsupported value''
      | Some j \<Rightarrow>
          (case ft i of
             Some e \<Rightarrow> Inl (''write tmp: '' @ e)
           | None \<Rightarrow> writeTmp C E ft (i + 1) as (s @ jsonText j @ [LF])))"

text \<open>\<open>reopenFile\<close> creates the log when there is none.\<close>

definition reopenFile :: "string option \<Rightarrow> disk \<Rightarrow> unit result \<times> wal" where
  "reopenFile ft d =
     (case ft of
        Some e \<Rightarrow> (Err e, \<lparr>wDisk = d, wHandle = HNil\<rparr>)
      | None \<Rightarrow> (Ok (), \<lparr>wDisk = d\<lparr>dMain := Some (content d)\<rparr>, wHandle = HOpen\<rparr>))"

definition walRewrite :: "codec \<Rightarrow> ext \<Rightarrow> faults \<Rightarrow> catom list \<Rightarrow> wal \<Rightarrow> unit result \<times> wal" where
  "walRewrite C E ft as w =
     (if wHandle w = HNil then (Err ''WAL file is closed'', w)
      else case ftCreate ft of
        Some e \<Rightarrow> (Err (''create tmp: '' @ e), w)
      | None \<Rightarrow>
          (case writeTmp C E (ftWrite ft) 0 as [] of
             Inr s \<Rightarrow>
               (case ftSync ft of
                  Some e \<Rightarrow> (Err (''sync tmp: '' @ e), w\<lparr>wDisk := (wDisk w)\<lparr>dTmp := None\<rparr>\<rparr>)
                | None \<Rightarrow>
                    (let d1 = (wDisk w)\<lparr>dTmp := Some s, dOld := None\<rparr>;
                         d2 = (if ftBackup ft then d1 else renameMainOld d1)
                     in case ftRename ft of
                       Some e \<Rightarrow>
                         (let d3 = (if ftRestore ft then d2 else renameOldMain d2) in
                          case reopenFile (ftReopen ft) d3 of
                            (Err e', w') \<Rightarrow> (Err (''rename failed: '' @ e @ '', reopen failed: '' @ e'), w')
                          | (_, w') \<Rightarrow> (Err (''rename: '' @ e), w'))
                     | None \<Rightarrow> reopenFile (ftReopen ft) ((renameTmpMain d2)\<lparr>dOld := None, dTmp := None\<rparr>)))
           | Inl e \<Rightarrow> (Err e, w\<lparr>wDisk := (wDisk w)\<lparr>dTmp := None\<rparr>\<rparr>)))"

text \<open>
  \<open>ReadAll\<close>: empty lines, lines that do not parse and atoms without a hash are skipped; the
  error of the scanner is not asked for.
\<close>

fun readLines :: "codec \<Rightarrow> ext \<Rightarrow> string list \<Rightarrow> internTable \<Rightarrow> (catom list \<times> internTable) result" where
  "readLines C E [] t = Ok ([], t)"
| "readLines C E (l # ls) t =
     (if l = [] then readLines C E ls t
      else bind_result (unmarshalAtom C E l t) (\<lambda>r.
        case r of
          None \<Rightarrow> readLines C E ls t
        | Some (a, t') \<Rightarrow>
            if IsZero (aHash a) then readLines C E ls t'
            else bind_result (readLines C E ls t') (\<lambda>(as, t''). Ok (a # as, t''))))"

definition walReadAll :: "codec \<Rightarrow> ext \<Rightarrow> internTable \<Rightarrow> wal \<Rightarrow> (catom list \<times> internTable) result" where
  "walReadAll C E t w =
     (case wHandle w of
        HNil \<Rightarrow> Err ''WAL file is closed''
      | HClosed \<Rightarrow> Err ''file already closed''
      | HOpen \<Rightarrow> readLines C E (scanTokens maxLineSize (content (wDisk w))) t)"

section \<open>Reading back an atom\<close>

subsection \<open>Bytes\<close>

lemma bytesVal_be_bytes: "bytesVal (map code_of (be_bytes k n)) = n mod 256 ^ k"
  using foldl_be_bytes [of 0 k n] by (simp add: bytesVal_def foldl_map)

lemma jByteArray_bytes:
  assumes "length s = n"
  shows "jByteArray n (byteArray s) v = Some (bytesVal (map code_of s))"
proof -
  have "mapOption (\<lambda>(x, c). jUint 8 x (code_of c)) (zip (map (\<lambda>c. JNum (showNat (code_of c))) s) cs) = Some (map code_of s)"
    if "length s = length cs" for cs
    using that by (induction rule: list_induct2) (simp_all add: jUint_def)
  then show ?thesis using assms by (simp add: jByteArray_def byteArray_def)
qed

lemma unat_mod_256: "unat (h :: 256 word) mod 256 ^ 32 = unat h" "unat (w :: 128 word) mod 256 ^ 16 = unat w"
proof -
  have "unat h < 2 ^ 256" "unat w < 2 ^ 128" by (rule less_le_trans [OF unsigned_less], simp)+
  then show "unat h mod 256 ^ 32 = unat h" "unat w mod 256 ^ 16 = unat w" by simp_all
qed

lemma jHash_json [simp]: "jHash (hashJson h) v = Some h"
  by (simp add: jHash_def hashJson_def jByteArray_bytes hashBytes_def bytesVal_be_bytes unat_mod_256 del: power_numeral)

lemma jByteArray_16: "jByteArray 16 (byteArray (be_bytes 16 (unat (w :: 128 word)))) v = Some (unat w)"
  by (simp add: jByteArray_bytes bytesVal_be_bytes unat_mod_256 del: power_numeral)

lemma jHashes_json: "jSlice (\<lambda>j. jHash j 0) (hashesJson hs) = Some hs"
  using mapOption_map [of hs "\<lambda>j. jHash j 0" hashJson id] by (simp add: jSlice_def hashesJson_def)

lemma jsonOk_bytes: "1 < d \<Longrightarrow> jsonOk d (byteArray s)"
  by (auto simp: byteArray_def validNumber_showNat)

lemma jsonOk_hashes: "2 < d \<Longrightarrow> jsonOk d (hashesJson hs)"
  by (auto simp: hashesJson_def hashJson_def intro!: jsonOk_bytes)

lemma domainOf_no [simp]: "domainOf (domainNo d) = d" "domainNo d < 256"
  by (cases d; simp add: domainOf_def)+

subsection \<open>Values\<close>

text \<open>The nesting of a value.\<close>

function nestOk :: "nat \<Rightarrow> Value \<Rightarrow> bool" where
  "nestOk d VNull = (0 < d)"
| "nestOk d (VArray vs) = (0 < d \<and> (\<forall>v \<in> set vs. nestOk (d - 1) v))"
| "nestOk d (VRecord m) = (0 < d \<and> (\<forall>kv \<in> set m. nestOk (d - 1) (snd kv)))"
| "nestOk d VNil = True"
| "nestOk d (VBool b) = True"
| "nestOk d (VInt i) = True"
| "nestOk d (VFloat f) = True"
| "nestOk d (VString s) = True"
| "nestOk d (VBytes s) = True"
  by pat_completeness auto
termination
proof (relation "measure (\<lambda>(d, v). size v)", goal_cases)
  case (2 d vs v)
  then show ?case by (induction vs) auto
next
  case (3 d m kv)
  then show ?case using size_record_elem [of kv m] by simp
qed simp

lemma those_elem: "those xs = Some ys \<Longrightarrow> y \<in> set ys \<Longrightarrow> Some y \<in> set xs"
  by (induction xs arbitrary: ys) (auto split: option.splits)

lemma valueJson_ok:
  assumes "codecLaws E"
  shows "valueJson E v = Some j \<Longrightarrow> nestOk d v \<Longrightarrow> jsonOk d j \<and> numbersOk E j"
proof (induction d v arbitrary: j rule: nestOk.induct)
  case (2 d vs)
  then obtain js where js: "j = JArr js" "those (map (valueJson E) vs) = Some js" by auto
  have "jsonOk (d - 1) x \<and> numbersOk E x" if "x \<in> set js" for x
    using those_elem [OF js(2) that] 2 by auto
  with 2 js show ?case by (simp add: list_all_iff)
next
  case (3 d m)
  let ?f = "\<lambda>kv. map_option (Pair (quoteBody (fst kv))) (valueJson E (snd kv))"
  from 3 obtain js where js: "j = JObj js" "those (map ?f (sort_key fst m)) = Some js" by auto
  have "strOk (fst x) \<and> jsonOk (d - 1) (snd x) \<and> numbersOk E (snd x)" if "x \<in> set js" for x
  proof -
    from those_elem [OF js(2) that] obtain kv where kv: "kv \<in> set m" "Some x = ?f kv"
      unfolding set_map set_sort by blast
    then obtain i where "valueJson E (snd kv) = Some i" "x = (quoteBody (fst kv), i)" by (cases "valueJson E (snd kv)") auto
    with 3 kv(1) show ?thesis by (auto simp: strOk_quoteBody)
  qed
  with 3 js show ?case by (auto simp: list_all_iff)
next
  case (6 d i)
  have "- (2 ^ 63) \<le> sint i" "sint i < 2 ^ 64" using sint_ge [of i] sint_lt [of i] by simp_all
  with 6 assms show ?case by (auto simp: codecLaws_def validNumber_FormatInt)
qed (use assms in \<open>auto simp: codecLaws_def jstr_def strOk_quoteBody\<close>)

subsection \<open>Atoms\<close>

lemma foldName_atom:
  "foldName (unquoteBody ''Hash'') = ''HASH''" "foldName (unquoteBody ''Expr'') = ''EXPR''"
  "foldName (unquoteBody ''CausalPast'') = ''CAUSALPAST''" "foldName (unquoteBody ''CausalDepth'') = ''CAUSALDEPTH''"
  "foldName (unquoteBody ''Vector'') = ''VECTOR''" "foldName (unquoteBody ''Domain'') = ''DOMAIN''"
  "foldName (unquoteBody ''LogicalClock'') = ''LOGICALCLOCK''" "foldName (unquoteBody ''PhysicalTime'') = ''PHYSICALTIME''"
  "foldName (unquoteBody ''Nonce'') = ''NONCE''" "foldName (unquoteBody ''BranchID'') = ''BRANCHID''"
  "foldName (unquoteBody ''Path'') = ''PATH''" "foldName (unquoteBody ''ExpiresAt'') = ''EXPIRESAT''"
  "foldName (unquoteBody ''Typ'') = ''TYP''" "foldName (unquoteBody ''ID'') = ''ID''"
  "foldName (unquoteBody ''Depth'') = ''DEPTH''" "foldName (unquoteBody ''Value'') = ''VALUE''"
  "foldName (unquoteBody ''Atoms'') = ''ATOMS''" "foldName (unquoteBody ''Field'') = ''FIELD''" "foldName ''Hash'' = ''HASH''"
  "foldName ''Expr'' = ''EXPR''" "foldName ''CausalPast'' = ''CAUSALPAST''" "foldName ''CausalDepth'' = ''CAUSALDEPTH''"
  "foldName ''Vector'' = ''VECTOR''" "foldName ''Domain'' = ''DOMAIN''" "foldName ''LogicalClock'' = ''LOGICALCLOCK''"
  "foldName ''PhysicalTime'' = ''PHYSICALTIME''" "foldName ''Nonce'' = ''NONCE''" "foldName ''BranchID'' = ''BRANCHID''"
  "foldName ''Path'' = ''PATH''" "foldName ''ExpiresAt'' = ''EXPIRESAT''" "foldName ''Typ'' = ''TYP''" "foldName ''ID'' = ''ID''"
  "foldName ''Depth'' = ''DEPTH''" "foldName ''Value'' = ''VALUE''" "foldName ''Atoms'' = ''ATOMS''"
  "foldName ''Field'' = ''FIELD''"
  by code_simp+

lemma keyIs_atom:
  "keyIs ''Hash'' ''Hash''" "\<not> keyIs ''Hash'' ''Expr''" "keyIs ''Expr'' ''Expr''" "\<not> keyIs ''Hash'' ''CausalPast''"
  "\<not> keyIs ''Expr'' ''CausalPast''" "keyIs ''CausalPast'' ''CausalPast''" "\<not> keyIs ''Hash'' ''CausalDepth''"
  "\<not> keyIs ''Expr'' ''CausalDepth''" "\<not> keyIs ''CausalPast'' ''CausalDepth''" "keyIs ''CausalDepth'' ''CausalDepth''"
  "\<not> keyIs ''Hash'' ''Vector''" "\<not> keyIs ''Expr'' ''Vector''" "\<not> keyIs ''CausalPast'' ''Vector''"
  "\<not> keyIs ''CausalDepth'' ''Vector''" "keyIs ''Vector'' ''Vector''" "\<not> keyIs ''Hash'' ''Domain''"
  "\<not> keyIs ''Expr'' ''Domain''" "\<not> keyIs ''CausalPast'' ''Domain''" "\<not> keyIs ''CausalDepth'' ''Domain''"
  "\<not> keyIs ''Vector'' ''Domain''" "keyIs ''Domain'' ''Domain''" "\<not> keyIs ''Hash'' ''LogicalClock''"
  "\<not> keyIs ''Expr'' ''LogicalClock''" "\<not> keyIs ''CausalPast'' ''LogicalClock''"
  "\<not> keyIs ''CausalDepth'' ''LogicalClock''" "\<not> keyIs ''Vector'' ''LogicalClock''"
  "\<not> keyIs ''Domain'' ''LogicalClock''" "keyIs ''LogicalClock'' ''LogicalClock''" "\<not> keyIs ''Hash'' ''PhysicalTime''"
  "\<not> keyIs ''Expr'' ''PhysicalTime''" "\<not> keyIs ''CausalPast'' ''PhysicalTime''"
  "\<not> keyIs ''CausalDepth'' ''PhysicalTime''" "\<not> keyIs ''Vector'' ''PhysicalTime''"
  "\<not> keyIs ''Domain'' ''PhysicalTime''" "\<not> keyIs ''LogicalClock'' ''PhysicalTime''"
  "keyIs ''PhysicalTime'' ''PhysicalTime''" "\<not> keyIs ''Hash'' ''Nonce''" "\<not> keyIs ''Expr'' ''Nonce''"
  "\<not> keyIs ''CausalPast'' ''Nonce''" "\<not> keyIs ''CausalDepth'' ''Nonce''" "\<not> keyIs ''Vector'' ''Nonce''"
  "\<not> keyIs ''Domain'' ''Nonce''" "\<not> keyIs ''LogicalClock'' ''Nonce''" "\<not> keyIs ''PhysicalTime'' ''Nonce''"
  "keyIs ''Nonce'' ''Nonce''" "\<not> keyIs ''Hash'' ''BranchID''" "\<not> keyIs ''Expr'' ''BranchID''"
  "\<not> keyIs ''CausalPast'' ''BranchID''" "\<not> keyIs ''CausalDepth'' ''BranchID''" "\<not> keyIs ''Vector'' ''BranchID''"
  "\<not> keyIs ''Domain'' ''BranchID''" "\<not> keyIs ''LogicalClock'' ''BranchID''"
  "\<not> keyIs ''PhysicalTime'' ''BranchID''" "\<not> keyIs ''Nonce'' ''BranchID''" "keyIs ''BranchID'' ''BranchID''"
  "\<not> keyIs ''Hash'' ''Path''" "\<not> keyIs ''Expr'' ''Path''" "\<not> keyIs ''CausalPast'' ''Path''"
  "\<not> keyIs ''CausalDepth'' ''Path''" "\<not> keyIs ''Vector'' ''Path''" "\<not> keyIs ''Domain'' ''Path''"
  "\<not> keyIs ''LogicalClock'' ''Path''" "\<not> keyIs ''PhysicalTime'' ''Path''" "\<not> keyIs ''Nonce'' ''Path''"
  "\<not> keyIs ''BranchID'' ''Path''" "keyIs ''Path'' ''Path''" "\<not> keyIs ''Hash'' ''ExpiresAt''"
  "\<not> keyIs ''Expr'' ''ExpiresAt''" "\<not> keyIs ''CausalPast'' ''ExpiresAt''" "\<not> keyIs ''CausalDepth'' ''ExpiresAt''"
  "\<not> keyIs ''Vector'' ''ExpiresAt''" "\<not> keyIs ''Domain'' ''ExpiresAt''" "\<not> keyIs ''LogicalClock'' ''ExpiresAt''"
  "\<not> keyIs ''PhysicalTime'' ''ExpiresAt''" "\<not> keyIs ''Nonce'' ''ExpiresAt''" "\<not> keyIs ''BranchID'' ''ExpiresAt''"
  "\<not> keyIs ''Path'' ''ExpiresAt''" "keyIs ''ExpiresAt'' ''ExpiresAt''"
  by (simp_all add: keyIs_def foldName_atom del: foldName.simps)

lemma keyIs_expr:
  "\<not> keyIs ''Atoms'' ''Typ''" "\<not> keyIs ''Field'' ''Typ''" "\<not> keyIs ''Value'' ''Typ''"
  "\<not> keyIs ''Atoms'' ''ID''" "\<not> keyIs ''Field'' ''ID''" "\<not> keyIs ''Value'' ''ID''"
  "\<not> keyIs ''Atoms'' ''Hash''" "\<not> keyIs ''Field'' ''Hash''" "\<not> keyIs ''Value'' ''Hash''"
  "\<not> keyIs ''Atoms'' ''Depth''" "\<not> keyIs ''Field'' ''Depth''" "\<not> keyIs ''Value'' ''Depth''"
  "\<not> keyIs ''Atoms'' ''Value''" "\<not> keyIs ''Field'' ''Value''" "keyIs ''Value'' ''Value''" "keyIs ''Atoms'' ''Atoms''"
  "\<not> keyIs ''Field'' ''Atoms''" "\<not> keyIs ''Value'' ''Atoms''"
  by (simp_all add: keyIs_def foldName_atom del: foldName.simps)

lemma strOk_atom:
  "strOk ''Hash''" "strOk ''Expr''" "strOk ''CausalPast''" "strOk ''CausalDepth''" "strOk ''Vector''" "strOk ''Domain''"
  "strOk ''LogicalClock''" "strOk ''PhysicalTime''" "strOk ''Nonce''" "strOk ''BranchID''" "strOk ''Path''" "strOk ''ExpiresAt''"
  "strOk ''Typ''" "strOk ''ID''" "strOk ''Depth''" "strOk ''Value''" "strOk ''Atoms''"
  by (intro rawOk_strOk; code_simp)+


lemma atomField_keys:
  "atomField C E ''Hash'' j (a, x) = map_option (\<lambda>h. (a\<lparr>aHash := h\<rparr>, x)) (jHash j (aHash a))"
  "atomField C E ''Expr'' j (a, x) = Some (a, Some j)"
  "atomField C E ''CausalPast'' j (a, x) = map_option (\<lambda>hs. (a\<lparr>aCausalPast := hs\<rparr>, x)) (jSlice (\<lambda>j. jHash j 0) j)"
  "atomField C E ''CausalDepth'' j (a, x) =
     map_option (\<lambda>n. (a\<lparr>aCausalDepth := of_nat n\<rparr>, x)) (jUint 64 j (unat (aCausalDepth a)))"
  "atomField C E ''Vector'' j (a, x) = (if jVector C j then Some (a, x) else None)"
  "atomField C E ''Domain'' j (a, x) = map_option (\<lambda>n. (a\<lparr>aDomain := domainOf n\<rparr>, x)) (jUint 8 j (domainNo (aDomain a)))"
  "atomField C E ''LogicalClock'' j (a, x) =
     map_option (\<lambda>n. (a\<lparr>aLogicalClock := of_nat n\<rparr>, x)) (jUint 64 j (unat (aLogicalClock a)))"
  "atomField C E ''PhysicalTime'' j (a, x) = map_option (\<lambda>t. (a\<lparr>aPhysicalTime := t\<rparr>, x)) (jTime E j (aPhysicalTime a))"
  "atomField C E ''Nonce'' j (a, x) = map_option (\<lambda>n. (a\<lparr>aNonce := of_nat n\<rparr>, x)) (jByteArray 16 j (unat (aNonce a)))"
  "atomField C E ''BranchID'' j (a, x) = map_option (\<lambda>n. (a\<lparr>aBranchID := of_nat n\<rparr>, x)) (jByteArray 16 j (unat (aBranchID a)))"
  "atomField C E ''Path'' j (a, x) = map_option (\<lambda>s. (a\<lparr>aPath := s\<rparr>, x)) (jString j (aPath a))"
  "atomField C E ''ExpiresAt'' j (a, x) = map_option (\<lambda>t. (a\<lparr>aExpiresAt := t\<rparr>, x)) (jTime E j (aExpiresAt a))"
  by (simp_all add: atomField_def keyIs_atom)

text \<open>What recovery makes of an expression: strings survive, bytes become their base64, everything else is null.\<close>

definition recoveredValue :: "Value \<Rightarrow> Value" where
  "recoveredValue v = (case v of VString s \<Rightarrow> VString s | VBytes s \<Rightarrow> VString (b64Enc s) | _ \<Rightarrow> VNull)"

definition recoveredExpr :: "expr \<Rightarrow> expr" where
  "recoveredExpr e = (case e of EConst v \<Rightarrow> EConst (recoveredValue v) | _ \<Rightarrow> e)"

definition recovered :: "catom \<Rightarrow> catom" where
  "recovered a = a\<lparr>aExpr := recoveredExpr (aExpr a)\<rparr>"

definition exprOk :: "ext \<Rightarrow> expr \<Rightarrow> bool" where
  "exprOk E e =
     (case e of
        EConst v \<Rightarrow> valueJson E v \<noteq> None \<and> nestOk 9998 v \<and> (\<forall>s. v = VString s \<longrightarrow> validUTF8 s \<and> s \<noteq> [char_of (0::nat)])
      | ECompose hs \<Rightarrow> hs \<noteq> []
      | _ \<Rightarrow> False)"

definition loggable :: "codec \<Rightarrow> ext \<Rightarrow> catom \<Rightarrow> bool" where
  "loggable C E a \<longleftrightarrow> aHash a \<noteq> 0 \<and> validUTF8 (aPath a) \<and> jsonRange (aPhysicalTime a) \<and> jsonRange (aExpiresAt a) \<and>
     exprOk E (aExpr a) \<and> f32Ok C ''0''"

lemma validNumber_0: "validNumber ''0''"
  by code_simp

lemma jUint_64 [simp]: "jUint 64 (JNum (showNat (unat (w :: uint64)))) v = Some (unat w)"
proof -
  have "unat w < 2 ^ 64" by (rule less_le_trans [OF unsigned_less], simp)
  then show ?thesis by (simp add: jUint_def)
qed

lemma jUint_domain [simp]: "jUint 8 (JNum (showNat (domainNo d))) v = Some (domainNo d)"
  by (simp add: jUint_def)

lemma jTime_json: "codecLaws E \<Longrightarrow> jsonRange t \<Longrightarrow> jTime E (JStr (jsonTime E t)) v = Some t \<and> strOk (jsonTime E t)"
  by (simp add: codecLaws_def jTime_def rawOk_strOk)

lemma exprJson_ok:
  assumes E: "codecLaws E" and ok: "exprOk E e" and j: "exprJson C E e = Some j"
  shows "jsonOk 9999 j"
proof (cases e)
  case (EConst v)
  with ok j valueJson_ok [OF E, of v _ 9998] show ?thesis by (auto simp: exprOk_def header_def strOk_atom validNumber_showNat validNumber_0)
next
  case (ECompose hs)
  then show ?thesis using j jsonOk_hashes [of 9998 hs] by (auto simp: header_def strOk_atom validNumber_showNat validNumber_0)
qed (use ok in \<open>auto simp: exprOk_def\<close>)

lemma atom_json:
  assumes E: "codecLaws E" and a: "loggable C E a"
  obtains j e where "atomJson C E a = Some j" and "jsonOk 10000 j" and "exprJson C E (aExpr a) = Some e"
    and "jStruct (atomField C E) j (blankAtom, None) = Some (a\<lparr>aExpr := EConst VNil\<rparr>, Some e)" and "\<exists>kvs. j = JObj kvs"
proof -
  obtain e where e: "exprJson C E (aExpr a) = Some e" using a by (auto simp: loggable_def exprOk_def split: expr.splits)
  note ok = exprJson_ok [OF E _ e]
  have t: "jsonRange (aPhysicalTime a)" "jsonRange (aExpiresAt a)" "validUTF8 (aPath a)" "exprOk E (aExpr a)" "f32Ok C ''0''"
    using a by (simp_all add: loggable_def)
  note T = jTime_json [OF E t(1)] jTime_json [OF E t(2)]
  have v: "jVector C (JArr (replicate 256 (JNum ''0'')))" using t(5) by (simp add: jVector_def list_all_iff)
  obtain j where j: "atomJson C E a = Some j" using e by (simp add: atomJson_def)
  have "jsonOk 10000 j" using j e T ok [OF t(4)]
    by (auto simp: atomJson_def strOk_atom validNumber_showNat jsonOk_bytes jsonOk_hashes hashJson_def validNumber_0)
  moreover have "jStruct (atomField C E) j (blankAtom, None) = Some (a\<lparr>aExpr := EConst VNil\<rparr>, Some e)"
    using j e T t(3) v by (auto simp: atomJson_def jStruct_def atomField_keys jHashes_json jByteArray_16 blankAtom_def)
  ultimately show ?thesis using that j e by (auto simp: atomJson_def)
qed

subsection \<open>Interning what is read\<close>

text \<open>The constants of the table are strings and null; the string of one zero byte would pass for null.\<close>

definition plainValue :: "Value \<Rightarrow> bool" where
  "plainValue v = (case v of VString s \<Rightarrow> s \<noteq> [char_of (0::nat)] | VNull \<Rightarrow> True | _ \<Rightarrow> False)"

definition plainTable :: "internTable \<Rightarrow> bool" where
  "plainTable t \<longleftrightarrow> length (itShards t) = 256 \<and> (\<forall>h c v. c \<in> set (bucket h t) \<longrightarrow> snd c = IConst v \<longrightarrow> plainValue v)"

lemma plainTable_new: "plainTable newInternTable"
  by (simp add: plainTable_def newInternTable_def bucket_def)

lemma plainValue_recovered: "exprOk E (EConst v) \<Longrightarrow> plainValue (recoveredValue v)"
proof (cases v)
  case (VBytes s)
  have "b64Enc s \<noteq> [char_of (0::nat)]" by (cases s rule: b64Enc.cases) simp_all
  with VBytes show ?thesis by (simp add: plainValue_def recoveredValue_def)
qed (auto simp: plainValue_def recoveredValue_def exprOk_def)

lemma plainValue_bytes: "plainValue v \<Longrightarrow> plainValue w \<Longrightarrow> Serialize E v = Serialize E w \<Longrightarrow> v = w"
  by (auto simp: plainValue_def split: Value.splits)

lemma Intern_logged:
  assumes t: "plainTable t" and h: "structuralHash E n = Ok h" and n: "\<And>v. n = IConst v \<Longrightarrow> plainValue v"
  shows "\<exists>i m t'. Intern E n t = Ok ((i, m), t') \<and> (m = n \<or> exprEqual E n m \<and> (\<forall>v. m = IConst v \<longrightarrow> plainValue v)) \<and> plainTable t'"
proof (cases "find (\<lambda>c. exprEqual E n (snd c)) (bucket h t)")
  case None
  let ?i = "itNextID t + 1"
  let ?t = "setBucket h (bucket h t @ [(?i, n)]) (t\<lparr>itNextID := ?i\<rparr>)"
  have len: "length (itShards t) = 256" using t by (simp add: plainTable_def)
  have b: "bucket g ?t = (if g = h then bucket h t @ [(?i, n)] else bucket g t)" for g
    using len by (subst bucket_setBucket) simp_all
  have "length (itShards ?t) = 256" using len by (simp add: setBucket_def)
  then have "plainTable ?t" using t n by (auto simp: plainTable_def b split: if_splits)
  with None h show ?thesis by (auto simp: Intern_def Let_def)
next
  case (Some c)
  then have "c \<in> set (bucket h t)" "exprEqual E n (snd c)" by (auto simp: find_Some_iff)
  with Some h t show ?thesis by (cases c) (fastforce simp: Intern_def plainTable_def)
qed

lemma NewEConst_logged:
  assumes "plainTable t" and v: "plainValue v"
  shows "\<exists>t'. NewEConst E v t = Ok (v, t') \<and> plainTable t'"
proof -
  have "v \<noteq> VNil" using v by (auto simp: plainValue_def)
  then obtain h where "structuralHash E (IConst v) = Ok h" by (auto simp: structuralHash_def)
  from Intern_logged [OF assms(1) this] v obtain i m t' where m: "Intern E (IConst v) t = Ok ((i, m), t')" "plainTable t'"
    "m = IConst v \<or> exprEqual E (IConst v) m \<and> (\<forall>w. m = IConst w \<longrightarrow> plainValue w)" by blast
  then obtain w where "m = IConst w" "w = v" using plainValue_bytes [OF v] by (cases m) auto
  with m(1,2) show ?thesis by (simp add: NewEConst_def)
qed

lemma validUTF8_b64: "validUTF8 (b64Enc s)"
  using b64Quads_Enc [of s] by (intro ascii_validUTF8) (simp add: isASCII_def)

lemma constValue_json:
  assumes "valueJson E v = Some j" and "\<forall>s. v = VString s \<longrightarrow> validUTF8 s"
  shows "constValue j = recoveredValue v"
  using assms by (cases v) (auto simp: constValue_def recoveredValue_def jstr_def unquote_quoteBody validUTF8_b64)

lemma unmarshalExpr_json:
  assumes E: "codecLaws E" and e: "exprOk E e" "exprJson C E e = Some j" and t: "plainTable t"
  shows "\<exists>t'. unmarshalExpr E j t = Ok (Some (recoveredExpr e, t')) \<and> plainTable t'"
proof (cases e)
  case (EConst v)
  obtain x where x: "valueJson E v = Some x" "j = JObj (header C 0 (EConst v) @ [(''Value'', x)])" using e(2) EConst by auto
  have v: "nestOk 9998 v" "\<forall>s. v = VString s \<longrightarrow> validUTF8 s" using e(1) EConst by (auto simp: exprOk_def)
  have "numbersOk E x" using valueJson_ok [OF E x(1) v(1)] by simp
  then have s: "jStruct composeField j [] = Some []" "jStruct accessField j [] = Some []" "jStruct (constField E) j JNull = Some x"
    by (simp_all add: x(2) header_def jStruct_def composeField_def accessField_def constField_def keyIs_expr)
  obtain t' where "NewEConst E (constValue x) t = Ok (recoveredValue v, t')" "plainTable t'"
    using NewEConst_logged [OF t] plainValue_recovered e(1) EConst constValue_json [OF x(1) v(2)] by metis
  with s EConst show ?thesis by (simp add: unmarshalExpr_def recoveredExpr_def)
next
  case (ECompose hs)
  then obtain h gs where hs: "hs = h # gs" using e(1) by (cases hs) (auto simp: exprOk_def)
  have j: "j = JObj (header C 3 e @ [(''Atoms'', hashesJson hs)])" using e(2) ECompose by simp
  have s: "jStruct composeField j [] = Some hs"
    by (simp add: j header_def jStruct_def composeField_def keyIs_expr jHashes_json)
  obtain k where "structuralHash E (ICompose hs) = Ok k" by (simp add: structuralHash_def)
  from Intern_logged [OF t this] obtain c t' where "Intern E (ICompose hs) t = Ok (c, t')" "plainTable t'" by blast
  with s ECompose show ?thesis by (simp add: hs unmarshalExpr_def recoveredExpr_def split_def)
qed (use e in \<open>auto simp: exprOk_def\<close>)

lemma unmarshalAtom_json:
  assumes E: "codecLaws E" and a: "loggable C E a" and j: "atomJson C E a = Some j" and t: "plainTable t"
  shows "\<exists>t'. unmarshalAtom C E (jsonText j) t = Ok (Some (recovered a, t')) \<and> plainTable t'"
proof -
  obtain e kvs where e: "jsonOk 10000 j" "exprJson C E (aExpr a) = Some e" "j = JObj kvs"
    "jStruct (atomField C E) j (blankAtom, None) = Some (a\<lparr>aExpr := EConst VNil\<rparr>, Some e)"
    using atom_json [OF E a] j by (metis option.inject)
  have "exprOk E (aExpr a)" using a by (simp add: loggable_def)
  from unmarshalExpr_json [OF E this e(2) t] obtain t' where
    "unmarshalExpr E e t = Ok (Some (recoveredExpr (aExpr a), t'))" "plainTable t'" by blast
  with e(4) jsonParse_text [OF e(1)] show ?thesis unfolding e(3) by (simp add: unmarshalAtom_def recovered_def del: jsonText.simps)
qed

section \<open>Recovery\<close>

definition atomText :: "codec \<Rightarrow> ext \<Rightarrow> catom \<Rightarrow> string" where
  "atomText C E a = (case atomJson C E a of None \<Rightarrow> [] | Some j \<Rightarrow> jsonText j)"

definition fits :: "codec \<Rightarrow> ext \<Rightarrow> catom \<Rightarrow> bool" where
  "fits C E a \<longleftrightarrow> loggable C E a \<and> length (atomText C E a) < maxLineSize"

lemma atomText_facts:
  assumes "codecLaws E" and "loggable C E a"
  obtains j kvs where "atomJson C E a = Some j" and "j = JObj kvs" and "jsonOk 10000 j" and "atomText C E a = jsonText j"
    and "LF \<notin> set (atomText C E a)" and "atomText C E a \<noteq> []" and "last (atomText C E a) = CHR ''}''"
proof -
  obtain j kvs where j: "atomJson C E a = Some j" "jsonOk 10000 j" "j = JObj kvs" using atom_json [OF assms] by metis
  then have "atomText C E a = jsonText j" by (simp add: atomText_def)
  with j jsonText_no_LF [OF j(2)] show ?thesis by (intro that [of j kvs]) simp_all
qed

lemma readLines_atoms:
  assumes E: "codecLaws E" and as: "list_all (loggable C E) as" and t: "plainTable t"
    and rest: "\<And>t. plainTable t \<Longrightarrow> \<exists>t'. readLines C E ls t = Ok (bs, t') \<and> plainTable t'"
  shows "\<exists>t'. readLines C E (map (atomText C E) as @ ls) t = Ok (map recovered as @ bs, t') \<and> plainTable t'"
  using as t
proof (induction as arbitrary: t)
  case (Cons a as)
  then have a: "loggable C E a" by simp
  obtain j kvs where j: "atomJson C E a = Some j" "atomText C E a = jsonText j" "atomText C E a \<noteq> []" using atomText_facts [OF E a] by metis
  obtain t1 where t1: "unmarshalAtom C E (jsonText j) t = Ok (Some (recovered a, t1))" "plainTable t1"
    using unmarshalAtom_json [OF E a j(1) Cons.prems(2)] by blast
  have "\<not> IsZero (aHash (recovered a))" using a by (simp add: loggable_def recovered_def IsZero_def)
  moreover obtain t2 where "readLines C E (map (atomText C E) as @ ls) t1 = Ok (map recovered as @ bs, t2)" "plainTable t2"
    using Cons.IH [OF _ t1(2)] Cons.prems(1) by auto
  ultimately show ?case using j t1(1) by simp
qed (use rest in simp)

text \<open>The tail of a torn append is no document, with or without a carriage return at its end.\<close>

lemma readLines_torn:
  assumes E: "codecLaws E" and b: "loggable C E b" and n: "n < length (atomText C E b)"
  shows "readLines C E (map dropCR (scanLines (take n (atomText C E b)))) t = Ok ([], t)"
proof -
  let ?s = "take n (atomText C E b)"
  obtain j kvs where j: "atomText C E b = jsonText j" "j = JObj kvs" "jsonOk 10000 j" "LF \<notin> set (atomText C E b)"
    using atomText_facts [OF E b] by metis
  have "\<exists>u. u \<noteq> [] \<and> jsonText j = dropCR ?s @ u"
  proof (cases "dropCR ?s = ?s")
    case True
    have "jsonText j = ?s @ drop n (jsonText j)" "drop n (jsonText j) \<noteq> []" using n j(1) by simp_all
    then show ?thesis unfolding True by blast
  next
    case False
    then have "dropCR ?s = butlast ?s" "?s \<noteq> []" by (auto simp: dropCR_def split: if_splits)
    then have "?s = dropCR ?s @ [last ?s]" using append_butlast_last_id [of ?s] by simp
    then have "jsonText j = dropCR ?s @ [last ?s] @ drop n (jsonText j)" using j(1) by (metis append.assoc append_take_drop_id)
    then show ?thesis by blast
  qed
  then have "jsonParse (dropCR ?s) = None" using jsonParse_torn j(2,3) by metis
  moreover have "LF \<notin> set ?s" using j(4) in_set_takeD by fastforce
  ultimately show ?thesis by (simp add: scanLines_last unmarshalAtom_def)
qed

definition logLines :: "codec \<Rightarrow> ext \<Rightarrow> catom list \<Rightarrow> string" where
  "logLines C E as = concat (map (\<lambda>a. atomText C E a @ [LF]) as)"

lemma scan_log:
  assumes E: "codecLaws E" and as: "list_all (fits C E) as" and r: "list_all (\<lambda>l. length l < maxLineSize) (scanLines s)"
  shows "scanTokens maxLineSize (logLines C E as @ s) = map (atomText C E) as @ map dropCR (scanLines s)"
proof -
  have f: "LF \<notin> set (atomText C E a)" "dropCR (atomText C E a) = atomText C E a" "length (atomText C E a) < maxLineSize"
    if "a \<in> set as" for a
  proof -
    have a: "loggable C E a" "length (atomText C E a) < maxLineSize" using as that by (auto simp: fits_def list_all_iff)
    with atomText_facts [OF E a(1)] show "LF \<notin> set (atomText C E a)" "length (atomText C E a) < maxLineSize" by metis+
    have "last (atomText C E a) = CHR ''}''" using atomText_facts [OF E a(1)] by metis
    then show "dropCR (atomText C E a) = atomText C E a" by (simp add: dropCR_def CR_def) (simp add: char_of_def)
  qed
  have l: "scanLines (logLines C E as @ s) = map (atomText C E) as @ scanLines s"
    using scanLines_lines [of "map (atomText C E) as" s] f(1) by (simp add: logLines_def comp_def list_all_iff)
  have t: "takeWhile (\<lambda>raw. length raw < maxLineSize) (map (atomText C E) as @ scanLines s) = map (atomText C E) as @ scanLines s"
    using r f(3) by (auto simp: takeWhile_eq_all_conv list_all_iff)
  show ?thesis unfolding scanTokens_def l t using f(2) by simp
qed


subsection \<open>Appending and crashing\<close>

definition appendAll :: "codec \<Rightarrow> ext \<Rightarrow> catom list \<Rightarrow> wal \<Rightarrow> wal" where
  "appendAll C E as w = fold (\<lambda>a w. snd (walAppend C E IoOk a w)) as w"

definition emptyDisk :: disk where
  "emptyDisk = \<lparr>dMain = None, dTmp = None, dOld = None\<rparr>"

lemma walAppend_fits:
  assumes E: "codecLaws E" and a: "fits C E a" and w: "wHandle w = HOpen"
  shows "walAppend C E IoOk a w = (Ok (), writeLog (atomText C E a @ [LF]) w)"
    and "walAppend C E (WriteFail n e) a w = (Err e, writeLog (take n (atomText C E a @ [LF])) w)"
proof -
  have "loggable C E a" "length (atomText C E a) < maxLineSize" using a by (simp_all add: fits_def)
  moreover obtain j where "atomJson C E a = Some j" "atomText C E a = jsonText j" using atomText_facts [OF E calculation(1)] by metis
  ultimately show "walAppend C E IoOk a w = (Ok (), writeLog (atomText C E a @ [LF]) w)"
    "walAppend C E (WriteFail n e) a w = (Err e, writeLog (take n (atomText C E a @ [LF])) w)"
    using w by (simp_all add: walAppend_def Let_def)
qed

lemma writeLog_facts [simp]:
  "wHandle (writeLog s w) = wHandle w" "content (wDisk (writeLog s w)) = content (wDisk w) @ s"
  by (simp_all add: writeLog_def content_def)

lemma NewWAL_facts [simp]: "wHandle (NewWAL d) = HOpen" "content (wDisk (NewWAL d)) = content d"
  by (simp_all add: NewWAL_def content_def)

lemma content_emptyDisk [simp]: "content emptyDisk = []"
  by (simp add: emptyDisk_def content_def)

lemma appendAll_fits:
  assumes "codecLaws E" and "list_all (fits C E) as" and "wHandle w = HOpen"
  shows "wHandle (appendAll C E as w) = HOpen" and "content (wDisk (appendAll C E as w)) = content (wDisk w) @ logLines C E as"
  using assms(2,3)
  by (induction as arbitrary: w) (simp_all add: appendAll_def logLines_def walAppend_fits [OF assms(1)])

lemma readAll_log:
  assumes E: "codecLaws E" and as: "list_all (fits C E) as" and w: "wHandle w = HOpen" "content (wDisk w) = logLines C E as @ s"
    and s: "list_all (\<lambda>l. length l < maxLineSize) (scanLines s)" and t: "plainTable t"
    and rest: "\<And>t. plainTable t \<Longrightarrow> \<exists>t'. readLines C E (map dropCR (scanLines s)) t = Ok (bs, t') \<and> plainTable t'"
  shows "\<exists>t'. walReadAll C E t w = Ok (map recovered as @ bs, t')"
proof -
  have "list_all (loggable C E) as" using as by (simp add: list_all_iff fits_def)
  from readLines_atoms [OF E this t rest] w(1) show ?thesis
    unfolding walReadAll_def w(2) scan_log [OF E as s] by auto
qed


lemma atomText_obj:
  assumes "codecLaws E" and "fits C E x"
  shows "\<exists>k. atomText C E x = CHR ''{'' # k @ ''}'' \<and> LF \<notin> set (atomText C E x)"
proof -
  have "loggable C E x" using assms(2) by (simp add: fits_def)
  from atomText_facts [OF assms(1) this] obtain j kvs where "j = JObj kvs" "atomText C E x = jsonText j" "LF \<notin> set (atomText C E x)"
    by metis
  then show ?thesis by simp
qed



section \<open>Rewriting the log\<close>

lemma writeTmp_ok: "list_all (\<lambda>a. atomJson C E a \<noteq> None) as \<Longrightarrow> (\<And>i. ft i = None) \<Longrightarrow> writeTmp C E ft i as s = Inr (s @ logLines C E as)"
  by (induction as arbitrary: i s) (auto simp: logLines_def atomText_def)

lemma writeTmp_text: "writeTmp C E ft i as s = Inr s' \<Longrightarrow> s' = s @ logLines C E as"
proof (induction as arbitrary: i s)
  case (Cons a as)
  then obtain j where "atomJson C E a = Some j" "writeTmp C E ft (i + 1) as (s @ jsonText j @ [LF]) = Inr s'"
    by (auto split: option.splits)
  with Cons.IH [OF this(2)] show ?case by (simp add: logLines_def atomText_def)
qed (simp add: logLines_def)

text \<open>The effect of a rewrite on the disk is that of its steps.\<close>

lemma walRewrite_steps:
  assumes "list_all (\<lambda>a. atomJson C E a \<noteq> None) as" and "wHandle w \<noteq> HNil"
  shows "walRewrite C E noFaults as w = (Ok (), \<lparr>wDisk = runSteps (rewriteSteps (logLines C E as)) (wDisk w), wHandle = HOpen\<rparr>)"
  using assms(2) writeTmp_ok [OF assms(1), of "\<lambda>_. None" 0 "[]"]
  by (simp add: walRewrite_def noFaults_def reopenFile_def runSteps_def rewriteSteps_def renameTmpMain_def renameMainOld_def content_def
      Let_def split: option.splits)

text \<open>
  C28: a crash in the middle of a rewrite.  After any number of the steps of \<open>Rewrite\<close>, the log
  that the next start opens is the old one before the log is moved away, and the new one once
  the new file is in its place; but between the two renames there is no log, the start
  deletes the temporary file and does not look at the backup, and every write is lost.
\<close>

theorem rewrite_crash:
  "content (wDisk (NewWAL (runSteps (take n (rewriteSteps s)) d))) = (if n < 3 then content d else if n = 3 then [] else s)"
proof -
  have "n = 0 \<or> n = 1 \<or> n = 2 \<or> n = 3 \<or> n = 4 \<or> n = 5 \<or> 6 \<le> n" by linarith
  then show ?thesis
    by (elim disjE; cases "dMain d")
      (simp_all add: rewriteSteps_def runSteps_def renameMainOld_def renameTmpMain_def content_def NewWAL_def)
qed

text \<open>
  C27: a rewrite that does not crash keeps the log.  With the log open and whatever the file
  system answers: a rewrite that reports success leaves exactly the lines of its atoms and an
  open log, and one that reports an error, but could restore the backup and reopen the file,
  leaves the old content and an open log.
\<close>

theorem walRewrite_faults:
  assumes "walRewrite C E ft as w = (r, w')" and "wHandle w = HOpen" and "dMain (wDisk w) \<noteq> None"
  shows "(r = Ok () \<longrightarrow> content (wDisk w') = logLines C E as \<and> wHandle w' = HOpen) \<and>
    (r \<noteq> Ok () \<and> \<not> ftRestore ft \<and> ftReopen ft = None \<longrightarrow> content (wDisk w') = content (wDisk w) \<and> wHandle w' = HOpen)"
proof (cases "writeTmp C E (ftWrite ft) 0 as []")
  case (Inr s)
  with writeTmp_text [OF this] assms show ?thesis
    by (auto simp: walRewrite_def reopenFile_def renameTmpMain_def renameMainOld_def renameOldMain_def content_def Let_def
        split: option.splits if_splits)
qed (use assms in \<open>auto simp: walRewrite_def content_def split: option.splits\<close>)


section \<open>An example\<close>

definition codec0 :: codec where
  "codec0 = \<lparr>nodeID = (\<lambda>_. 1), vecJson = (\<lambda>_. None), f32Ok = (\<lambda>_. True)\<rparr>"

definition exLogged :: catom where
  "exLogged = \<lparr>aHash = 1, aExpr = EConst (VString ''v''), aCausalPast = [], aCausalDepth = 0, aDomain = DomainUser, aLogicalClock = 1,
     aPhysicalTime = 5, aNonce = 0, aBranchID = 0, aPath = ''k'', aExpiresAt = zeroTime\<rparr>"

lemma length_joinWith: "length (joinWith sep ls) \<le> sum_list (map (\<lambda>l. length sep + length l) ls)"
  by (induction sep ls rule: joinWith.induct) auto

lemma length_byteArray: "length (jsonText (byteArray s)) \<le> 4 * length s + 2"
proof -
  have "length (showNat n) \<le> 1" if "n < 10" for n using that by (subst showNat.simps) simp
  then have "length (showNat n) \<le> 2" if "n < 100" for n
    using that by (subst showNat.simps) (simp add: less_mult_imp_div_less)
  then have "length (showNat n) \<le> 3" if "n < 1000" for n
    using that by (subst showNat.simps) (simp add: less_mult_imp_div_less)
  moreover have "code_of c < (1000 :: nat)" for c :: char by (cases c) simp
  ultimately have l: "length (showNat (code_of c)) \<le> 3" for c :: char by blast
  have "sum_list (map (\<lambda>l. length '','' + length l) (map (\<lambda>c. showNat (code_of c)) s)) \<le> 4 * length s"
  proof (induction s)
    case (Cons c s)
    then show ?case using l [of c] by simp
  qed simp
  then show ?thesis using length_joinWith [of "'',''" "map (\<lambda>c. showNat (code_of c)) s"] by (simp add: byteArray_def comp_def)
qed

lemma exLogged_fits: "fits codec0 ext0 exLogged" "length (atomText codec0 ext0 exLogged) < 2000"
proof -
  have q: "quoteBody ''k'' = ''k''" "quoteBody ''v'' = ''v''" "validUTF8 ''k''" "validUTF8 ''v''" by code_simp+
  have "jsonRange zeroTime" "jsonRange 5" by (simp_all add: jsonRange_def zeroTime_def)
  with q have l: "loggable codec0 ext0 exLogged"
    by (simp add: loggable_def exLogged_def exprOk_def codec0_def) (simp add: char_of_def)
  have t: "length (jsonTime ext0 zeroTime) = 21" "length (jsonTime ext0 5) = 1"
    by (simp_all add: ext0_def FormatInt_def zeroTime_def showNat.simps)
  have n: "length (showNat 0) = 1" "length (showNat 1) = 1" by (simp_all add: showNat.simps)
  have "length (jsonText (hashJson 1)) \<le> 130" "length (jsonText (byteArray (be_bytes 16 0))) \<le> 66"
    using length_byteArray [of "hashBytes 1"] length_byteArray [of "be_bytes 16 0"] by (simp_all add: hashJson_def)
  moreover have "length (joinWith '','' (replicate 256 ''0'')) \<le> 512"
    using length_joinWith [of "'',''" "replicate 256 ''0''"] by (simp add: sum_list_replicate)
  ultimately show "length (atomText codec0 ext0 exLogged) < 2000" using t n q
    by (simp add: atomText_def atomJson_def exLogged_def codec0_def header_def hashesJson_def jstr_def quoted_def jsonText.simps)
  then have "length (atomText codec0 ext0 exLogged) < maxLineSize" by (simp add: maxLineSize_def)
  with l show "fits codec0 ext0 exLogged" by (simp add: fits_def)
qed



theorem walRewrite_faults_witness:
  "content (wDisk (snd (walRewrite codec0 ext0 noFaults [] (NewWAL emptyDisk)))) = []"
proof -
  obtain r w where "walRewrite codec0 ext0 noFaults [] (NewWAL emptyDisk) = (r, w)" by fastforce
  with walRewrite_faults [OF this] walRewrite_steps [of codec0 ext0 "[]" "NewWAL emptyDisk"]
  show ?thesis by (simp add: NewWAL_def logLines_def)
qed

end
