(* ===== verification/Crystal.thy ===== *)
theory Crystal
  imports Wal Combinators Store
begin

text \<open>
  The causal crystal of \<open>storage/crystal.go\<close> with its indexes \<open>frontier.go\<close>, \<open>parent_index.go\<close>
  and \<open>merkle.go\<close>: the store of the development mode, which writes every atom to the
  write-ahead log, indexes it in memory, compacts the log in the background and recovers from it.

  The answers of the file system, the nonces and the clock of the machine are arguments.  The
  steps of \<open>Compact\<close> between which other goroutines can run are separate definitions.
\<close>

section \<open>The Merkle tree\<close>

text \<open>\<open>computeRoot\<close> of no hash calls itself for ever: \<open>None\<close>.\<close>

function computeRoot :: "ext \<Rightarrow> hash list \<Rightarrow> hash option" where
  "computeRoot E [] = None"
| "computeRoot E [h] = Some h"
| "computeRoot E (a # b # hs) = computeRoot E (pairUp E (a # b # hs))"
  by pat_completeness auto
termination
  by (relation "measure (\<lambda>(E, hs). length hs)") (auto simp: length_pairUp)

definition merkleRootOf :: "ext \<Rightarrow> hash list \<Rightarrow> hash" where
  "merkleRootOf E leaves = (if leaves = [] then 0 else case computeRoot E leaves of Some h \<Rightarrow> h | None \<Rightarrow> 0)"

section \<open>The crystal\<close>

definition maxAtomCacheEntries :: int where "maxAtomCacheEntries = 100000"
definition compactionWALSize :: nat where "compactionWALSize = 10 * 1024 * 1024"
definition compactionInterval :: int where "compactionInterval = 30 * 1000000000"

record crystal =
  crWal :: wal
  crFrontier :: "(string, hash) gomap"
  crParents :: "(hash, hash list) gomap"
  crDepth :: "(hash, uint64) gomap"
  crAtoms :: "(hash, catom) gomap"
  crCount :: int
  crLeaves :: "hash list"
  crRoot :: hash
  crClock :: uint64
  crRequest :: bool
  crCompacting :: bool
  crLastCompact :: gotime

definition blankCrystal :: "wal \<Rightarrow> crystal" where
  "blankCrystal w = \<lparr>crWal = w, crFrontier = [], crParents = [], crDepth = [], crAtoms = [], crCount = 0, crLeaves = [],
     crRoot = 0, crClock = 0, crRequest = False, crCompacting = False, crLastCompact = zeroTime\<rparr>"

text \<open>The hot indexes and the Merkle tree, as \<open>Recover\<close> and \<open>AppendAtom\<close> update them.\<close>

definition indexAtom :: "ext \<Rightarrow> catom \<Rightarrow> crystal \<Rightarrow> crystal" where
  "indexAtom E a c =
     c\<lparr>crFrontier := AList.update (aPath a) (aHash a) (crFrontier c),
       crParents := AList.update (aHash a) (aCausalPast a) (crParents c),
       crDepth := AList.update (aHash a) (aCausalDepth a) (crDepth c),
       crAtoms := AList.update (aHash a) a (crAtoms c),
       crCount := crCount c + 1,
       crLeaves := crLeaves c @ [aHash a],
       crRoot := merkleRootOf E (crLeaves c @ [aHash a])\<rparr>"

definition recoverAtom :: "ext \<Rightarrow> catom \<Rightarrow> crystal \<Rightarrow> crystal" where
  "recoverAtom E a c =
     (let c' = indexAtom E a c in if aLogicalClock a > crClock c' then c'\<lparr>crClock := aLogicalClock a\<rparr> else c')"

definition Recover :: "codec \<Rightarrow> ext \<Rightarrow> internTable \<Rightarrow> crystal \<Rightarrow> (crystal \<times> internTable) result" where
  "Recover C E t c =
     bind_result (walReadAll C E t (crWal c)) (\<lambda>(as, t'). Ok (fold (recoverAtom E) as c, t'))"

definition NewCausalCrystal :: "codec \<Rightarrow> ext \<Rightarrow> disk \<Rightarrow> internTable \<Rightarrow> (crystal \<times> internTable) result" where
  "NewCausalCrystal C E d t =
     (case Recover C E t (blankCrystal (NewWAL d)) of Err e \<Rightarrow> Err (''recovery: '' @ e) | r \<Rightarrow> r)"

subsection \<open>Reading\<close>

definition crGetAtom :: "hash \<Rightarrow> crystal \<Rightarrow> catom option" where
  "crGetAtom h c = map_of (crAtoms c) h"

definition crGetCurrentHash :: "string \<Rightarrow> crystal \<Rightarrow> hash option" where
  "crGetCurrentHash p c = map_of (crFrontier c) p"

definition crGetCurrent :: "string \<Rightarrow> crystal \<Rightarrow> catom option" where
  "crGetCurrent p c = (case map_of (crFrontier c) p of None \<Rightarrow> None | Some h \<Rightarrow> crGetAtom h c)"

definition crVerifyVersionVector :: "(string, hash) gomap \<Rightarrow> crystal \<Rightarrow> bool" where
  "crVerifyVersionVector vv c = list_all (\<lambda>(p, h). crGetCurrentHash p c = Some h) vv"

definition crFindChangedPaths :: "(string, hash) gomap \<Rightarrow> crystal \<Rightarrow> string list" where
  "crFindChangedPaths vv c = map fst (filter (\<lambda>(p, h). crGetCurrentHash p c \<noteq> Some h) vv)"

text \<open>The bytes of a hash are compared from the first, as its numbers are.\<close>

definition crMerkleRootForPaths :: "ext \<Rightarrow> string list \<Rightarrow> crystal \<Rightarrow> hash option" where
  "crMerkleRootForPaths E ps c =
     (if ps = [] then Some 0
      else computeRoot E (sort_key unat (map (\<lambda>p. case map_of (crFrontier c) p of Some h \<Rightarrow> h | None \<Rightarrow> 0) ps)))"

definition crCaptureVersionVector :: "string list \<Rightarrow> crystal \<Rightarrow> (string, hash) gomap" where
  "crCaptureVersionVector ps c =
     fold (\<lambda>p res. case map_of (crFrontier c) p of Some h \<Rightarrow> AList.update p h res | None \<Rightarrow> res) ps []"

definition crGetParents :: "hash \<Rightarrow> crystal \<Rightarrow> hash list option" where
  "crGetParents h c = map_of (crParents c) h"

definition crFrontierPaths :: "crystal \<Rightarrow> string list" where
  "crFrontierPaths c = map fst (crFrontier c)"

definition crClose :: "crystal \<Rightarrow> unit result \<times> crystal" where
  "crClose c = (case walClose (crWal c) of (r, w) \<Rightarrow> (r, c\<lparr>crWal := w\<rparr>))"

subsection \<open>Eviction\<close>

definition crEvictOne :: "hash \<Rightarrow> crystal \<Rightarrow> crystal" where
  "crEvictOne h c =
     c\<lparr>crAtoms := AList.delete h (crAtoms c), crCount := crCount c - 1, crParents := AList.delete h (crParents c),
       crDepth := AList.delete h (crDepth c)\<rparr>"

text \<open>\<open>int(float64(n) * 0.1)\<close>; the float64 constant is an eighth of that of 0.8.\<close>

definition f64tenth :: "nat \<Rightarrow> nat" where
  "f64tenth n = round53 (round53 n * f64_080) div 2 ^ 56"

definition evictRange :: "hash list \<Rightarrow> int \<Rightarrow> hash \<times> catom \<Rightarrow> int \<times> crystal \<Rightarrow> int \<times> crystal" where
  "evictRange live target = (\<lambda>(h, a) (n, c).
     if n \<ge> target \<or> h \<in> set live \<or> map_of (crFrontier c) (aPath a) = Some h then (n, c)
     else (n + 1, crEvictOne h c))"

definition evictIfNeeded :: "crystal \<Rightarrow> crystal" where
  "evictIfNeeded c =
     (if crCount c < maxAtomCacheEntries then c
      else snd (fold (evictRange (map snd (crFrontier c)) (int (f64tenth (nat (crCount c))))) (crAtoms c) (0, c)))"

subsection \<open>Writing\<close>

definition inferDomain :: "string \<Rightarrow> domain" where
  "inferDomain path =
     (case path of
        [] \<Rightarrow> DomainSystem
      | d # _ \<Rightarrow>
          if d = CHR ''u'' \<or> d = CHR ''U'' then DomainUser
          else if d = CHR ''o'' \<or> d = CHR ''O'' then DomainOrder
          else if d = CHR ''p'' \<or> d = CHR ''P'' then DomainProduct
          else if d = CHR ''s'' \<or> d = CHR ''S'' then
            (if length path > 3 \<and> (take 3 path = ''ses'' \<or> take 3 path = ''SES'' \<or> take 3 path = ''Ses'')
             then DomainSession else DomainSystem)
          else if d = CHR ''a'' \<or> d = CHR ''A'' then DomainAnalytics
          else if d = CHR ''c'' \<or> d = CHR ''C'' then DomainConfig
          else DomainSystem)"

definition depthOver :: "hash list \<Rightarrow> crystal \<Rightarrow> uint64" where
  "depthOver past c =
     fold (\<lambda>h d. case map_of (crDepth c) h of Some x \<Rightarrow> (if x + 1 > d then x + 1 else d) | None \<Rightarrow> d) past 0"

text \<open>The atom of a write, with the clock already advanced.\<close>

definition crMint :: "ext \<Rightarrow> gotime \<Rightarrow> 128 word \<Rightarrow> expr \<Rightarrow> string \<Rightarrow> hash list \<Rightarrow> gotime \<Rightarrow> crystal \<Rightarrow> catom" where
  "crMint E now nonce e path past expiresAt c =
     (let a = \<lparr>aHash = 0, aExpr = e, aCausalPast = past, aCausalDepth = depthOver past c, aDomain = inferDomain path,
               aLogicalClock = crClock c + 1, aPhysicalTime = now, aNonce = nonce, aBranchID = 0, aPath = path,
               aExpiresAt = expiresAt\<rparr>
      in a\<lparr>aHash := ComputeHash E a\<rparr>)"

definition requestCompaction :: "gotime \<Rightarrow> crystal \<Rightarrow> crystal" where
  "requestCompaction now c =
     (if \<not> crCompacting c \<and> now - crLastCompact c > compactionInterval div 2
         \<and> (crCount c > maxAtomCacheEntries div 2 \<or> walSize (crWal c) > compactionWALSize)
      then c\<lparr>crRequest := True\<rparr> else c)"

definition crAppendAtom ::
    "codec \<Rightarrow> ext \<Rightarrow> io \<Rightarrow> gotime \<Rightarrow> 128 word \<Rightarrow> expr \<Rightarrow> string \<Rightarrow> hash list \<Rightarrow> gotime \<Rightarrow> crystal \<Rightarrow> hash result \<times> crystal" where
  "crAppendAtom C E io now nonce e path past expiresAt c =
     (let a = crMint E now nonce e path past expiresAt c; c1 = c\<lparr>crClock := crClock c + 1\<rparr> in
      case walAppend C E io a (crWal c1) of
        (Ok _, w) \<Rightarrow>
          (let c2 = indexAtom E a (requestCompaction now (c1\<lparr>crWal := w\<rparr>));
               c3 = (if crCount c2 > maxAtomCacheEntries then evictIfNeeded c2 else c2)
           in (Ok (aHash a), c3))
      | (Err err, w) \<Rightarrow> (Err (''wal append: '' @ err), c1\<lparr>crWal := w\<rparr>)
      | (Panic, w) \<Rightarrow> (Panic, c1\<lparr>crWal := w\<rparr>)
      | (Hang, w) \<Rightarrow> (Hang, c1\<lparr>crWal := w\<rparr>))"

text \<open>
  One tick of \<open>sweepExpired\<close>: the expired paths get a tombstone over their atom.  The answers
  of the appends, which the code ignores, are returned with the state.
\<close>

definition expiredAtoms :: "gotime \<Rightarrow> crystal \<Rightarrow> (string \<times> hash) list" where
  "expiredAtoms now c =
     List.map_filter (\<lambda>p. case crGetCurrent p c of
        Some a \<Rightarrow> if aExpiresAt a \<noteq> zeroTime \<and> aExpiresAt a < now then Some (p, aHash a) else None
      | None \<Rightarrow> None) (crFrontierPaths c)"

fun sweepEach ::
    "codec \<Rightarrow> ext \<Rightarrow> (string \<Rightarrow> io) \<Rightarrow> (string \<Rightarrow> gotime \<times> 128 word) \<Rightarrow> (string \<times> hash) list \<Rightarrow> crystal \<Rightarrow> hash result list \<times> crystal" where
  "sweepEach C E io env [] c = ([], c)"
| "sweepEach C E io env ((p, h) # ps) c =
     (let (r, c1) = crAppendAtom C E (io p) (fst (env p)) (snd (env p)) (EConst VNull) p [h] zeroTime c;
          (rs, c2) = sweepEach C E io env ps c1
      in (r # rs, c2))"

definition crSweep ::
    "codec \<Rightarrow> ext \<Rightarrow> (string \<Rightarrow> io) \<Rightarrow> (string \<Rightarrow> gotime \<times> 128 word) \<Rightarrow> gotime \<Rightarrow> crystal \<Rightarrow> hash result list \<times> crystal" where
  "crSweep C E io env now c = sweepEach C E io env (expiredAtoms now c) c"

subsection \<open>Compaction\<close>

definition aliveAtoms :: "crystal \<Rightarrow> catom list" where
  "aliveAtoms c = sort_key (\<lambda>a. unat (aLogicalClock a)) (List.map_filter (\<lambda>(p, h). crGetAtom h c) (crFrontier c))"

definition rebuildMerkle :: "ext \<Rightarrow> catom list \<Rightarrow> crystal \<Rightarrow> crystal" where
  "rebuildMerkle E alive c = c\<lparr>crLeaves := map aHash alive, crRoot := merkleRootOf E (map aHash alive)\<rparr>"

definition evictOrphans :: "crystal \<Rightarrow> crystal" where
  "evictOrphans c = fold (\<lambda>(h, a) c'. if h \<in> set (map snd (crFrontier c)) then c' else crEvictOne h c') (crAtoms c) c"

definition compactDone :: "gotime \<Rightarrow> crystal \<Rightarrow> crystal" where
  "compactDone now c = c\<lparr>crLastCompact := now, crCompacting := False\<rparr>"

definition compactFinish :: "codec \<Rightarrow> ext \<Rightarrow> faults \<Rightarrow> gotime \<Rightarrow> catom list \<Rightarrow> crystal \<Rightarrow> crystal" where
  "compactFinish C E ft now alive c =
     (case walRewrite C E ft alive (crWal c) of
        (Ok _, w) \<Rightarrow> compactDone now (evictOrphans (rebuildMerkle E alive (c\<lparr>crWal := w\<rparr>)))
      | (_, w) \<Rightarrow> compactDone now (c\<lparr>crWal := w\<rparr>))"

definition Compact :: "codec \<Rightarrow> ext \<Rightarrow> faults \<Rightarrow> gotime \<Rightarrow> crystal \<Rightarrow> crystal" where
  "Compact C E ft now c =
     (if crCompacting c then c
      else (let c1 = c\<lparr>crCompacting := True\<rparr> in compactFinish C E ft now (aliveAtoms c1) c1))"

text \<open>The two cases of \<open>compactionLoop\<close>: the ticker, and a request in the channel.\<close>

definition compactionTick :: "codec \<Rightarrow> ext \<Rightarrow> faults \<Rightarrow> gotime \<Rightarrow> crystal \<Rightarrow> crystal" where
  "compactionTick C E ft now c =
     (if crCompacting c then c
      else if walSize (crWal c) > compactionWALSize \<or> crCount c > maxAtomCacheEntries div 2 then Compact C E ft now c
      else c)"

definition compactionRequested :: "codec \<Rightarrow> ext \<Rightarrow> faults \<Rightarrow> gotime \<Rightarrow> crystal \<Rightarrow> crystal" where
  "compactionRequested C E ft now c = (if crRequest c then Compact C E ft now (c\<lparr>crRequest := False\<rparr>) else c)"

section \<open>The crystal as a store\<close>

definition crStore :: "codec \<Rightarrow> ext \<Rightarrow> io \<Rightarrow> 128 word \<Rightarrow> crystal store" where
  "crStore C E io nonce =
     \<lparr>sAppendAtom = \<lambda>now. crAppendAtom C E io now nonce, sGetCurrent = \<lambda>now p c. (crGetCurrent p c, c), sGetParents = crGetParents,
      sGetAtom = \<lambda>now. crGetAtom, sFrontierPaths = \<lambda>now. crFrontierPaths, sClose = crClose,
      sGetCurrentHash = \<lambda>now. crGetCurrentHash, sFindChangedPaths = \<lambda>now. crFindChangedPaths,
      sVerifyVersionVector = \<lambda>now. crVerifyVersionVector\<rparr>"

definition crCur :: "gotime \<Rightarrow> crystal \<Rightarrow> string \<Rightarrow> catom option" where
  "crCur now c p = crGetCurrent p c"

text \<open>Every path names a cached atom of that path, and atoms are cached under their hash.\<close>

definition cr_ok :: "crystal \<Rightarrow> bool" where
  "cr_ok c \<longleftrightarrow> gomap_ok (crFrontier c) \<and> gomap_ok (crAtoms c) \<and>
     (\<forall>p h. map_of (crFrontier c) p = Some h \<longrightarrow> (\<exists>a. map_of (crAtoms c) h = Some a \<and> aPath a = p)) \<and>
     (\<forall>h a. map_of (crAtoms c) h = Some a \<longrightarrow> aHash a = h)"

interpretation crRead: store_reads "crStore C E io nonce" cr_ok crCur for C E io nonce
proof (unfold_locales, goal_cases)
  case (4 c now p)
  then show ?case by (fastforce simp: crStore_def crCur_def crGetCurrentHash_def crGetCurrent_def crGetAtom_def cr_ok_def split: option.splits)
next
  case (5 c now vv)
  have "(crGetCurrentHash p c = Some h) = (map_option aHash (crGetCurrent p c) = Some h)" for p h
    using 5 by (fastforce simp: crGetCurrentHash_def crGetCurrent_def crGetAtom_def cr_ok_def split: option.splits)
  then show ?case by (simp add: crStore_def crVerifyVersionVector_def matches_def crCur_def)
next
  case (6 c now vv)
  have "(crGetCurrentHash p c = Some h) = (map_option aHash (crGetCurrent p c) = Some h)" for p h
    using 6 by (fastforce simp: crGetCurrentHash_def crGetCurrent_def crGetAtom_def cr_ok_def split: option.splits)
  then show ?case by (simp add: crStore_def crFindChangedPaths_def crCur_def)
next
  case (7 c now h a)
  then show ?case by (auto simp: crStore_def crGetAtom_def cr_ok_def)
next
  case (9 c now p a)
  then show ?case by (fastforce simp: crCur_def crGetCurrent_def crGetAtom_def cr_ok_def split: option.splits)
qed (simp_all add: crStore_def crCur_def)

lemma computeRoot_computeMerkle: "hs \<noteq> [] \<Longrightarrow> computeRoot E hs = Some (computeMerkle E hs)"
proof (induction E hs rule: computeRoot.induct)
  case (3 E a b hs)
  then show ?case by simp
qed simp_all

lemma merkleRootOf_computeMerkle: "merkleRootOf E hs = computeMerkle E hs"
  by (simp add: merkleRootOf_def computeRoot_computeMerkle)

section \<open>Replaying a log\<close>

definition frontierOf :: "catom list \<Rightarrow> string \<Rightarrow> hash option" where
  "frontierOf as = fold (\<lambda>a m. m(aPath a \<mapsto> aHash a)) as Map.empty"

definition atomsOf :: "catom list \<Rightarrow> hash \<Rightarrow> catom option" where
  "atomsOf as = fold (\<lambda>a m. m(aHash a \<mapsto> a)) as Map.empty"

lemma frontierOf_snoc [simp]: "frontierOf (as @ [a]) = (frontierOf as)(aPath a \<mapsto> aHash a)"
  by (simp add: frontierOf_def)

lemma atomsOf_snoc [simp]: "atomsOf (as @ [a]) = (atomsOf as)(aHash a \<mapsto> a)"
  by (simp add: atomsOf_def)

lemma replay_Nil [simp]: "frontierOf [] = Map.empty" "atomsOf [] = Map.empty"
  by (simp_all add: frontierOf_def atomsOf_def)

lemma atomsOf_elem: "atomsOf as h = Some a \<Longrightarrow> a \<in> set as \<and> aHash a = h"
  by (induction as rule: rev_induct) (auto split: if_splits)

lemma frontierOf_elem: "frontierOf as p = Some h \<Longrightarrow> \<exists>a. atomsOf as h = Some a"
  by (induction as rule: rev_induct) (auto split: if_splits)

lemma replay_recovered:
  "frontierOf (map recovered as) = frontierOf as" "atomsOf (map recovered as) h = map_option recovered (atomsOf as h)"
  by (induction as rule: rev_induct) (simp_all add: recovered_def)

lemma recoverAtom_facts [simp]:
  "map_of (crFrontier (recoverAtom E a c)) = (map_of (crFrontier c))(aPath a \<mapsto> aHash a)"
  "map_of (crAtoms (recoverAtom E a c)) = (map_of (crAtoms c))(aHash a \<mapsto> a)"
  by (simp_all add: recoverAtom_def indexAtom_def Let_def update_conv')

lemma recover_replay:
  "map_of (crFrontier (fold (recoverAtom E) as (blankCrystal w))) = frontierOf as"
  "map_of (crAtoms (fold (recoverAtom E) as (blankCrystal w))) = atomsOf as"
  by (induction as rule: rev_induct) (simp_all add: blankCrystal_def)

text \<open>The log of a crystal holds what its memory shows: replayed, it gives the frontier and its atoms.\<close>

definition durableAs :: "codec \<Rightarrow> ext \<Rightarrow> catom list \<Rightarrow> crystal \<Rightarrow> bool" where
  "durableAs C E as c \<longleftrightarrow> wHandle (crWal c) = HOpen \<and> content (wDisk (crWal c)) = logLines C E as \<and> list_all (fits C E) as \<and>
     map_of (crFrontier c) = frontierOf as \<and> (\<forall>h \<in> ran (frontierOf as). map_of (crAtoms c) h = atomsOf as h)"

lemma durable_restart:
  assumes E: "codecLaws E" and d: "durableAs C E as c"
  shows "\<exists>c' t. NewCausalCrystal C E (wDisk (crWal c)) newInternTable = Ok (c', t) \<and>
    (\<forall>p. crGetCurrent p c' = map_option recovered (crGetCurrent p c))"
proof -
  let ?w = "NewWAL (wDisk (crWal c))" and ?c = "\<lambda>w. fold (recoverAtom E) (map recovered as) (blankCrystal w)"
  have "list_all (fits C E) as" "content (wDisk ?w) = logLines C E as @ []" using d by (simp_all add: durableAs_def)
  then obtain t where "walReadAll C E newInternTable ?w = Ok (map recovered as, t)"
    using readAll_log [OF E _ _ _ _ plainTable_new, of C as ?w "[]" "[]"] by (auto simp: scanLines_last)
  then have r: "NewCausalCrystal C E (wDisk (crWal c)) newInternTable = Ok (?c ?w, t)"
    by (simp add: NewCausalCrystal_def Recover_def) (simp add: blankCrystal_def)
  have "crGetCurrent p (?c ?w) = map_option recovered (crGetCurrent p c)" for p
    using d unfolding crGetCurrent_def crGetAtom_def recover_replay replay_recovered
    by (auto simp: durableAs_def ran_def split: option.splits)
  with r show ?thesis by blast
qed

section \<open>What the operations keep\<close>

lemma crEvictOne_facts [simp]:
  "crFrontier (crEvictOne h c) = crFrontier c" "crWal (crEvictOne h c) = crWal c"
  "map_of (crAtoms (crEvictOne h c)) = (map_of (crAtoms c))(h := None)"
  by (simp_all add: crEvictOne_def delete_conv')

text \<open>Eviction: the frontier and the log stay, and so do the atoms of the frontier.\<close>

definition evicted :: "crystal \<Rightarrow> crystal \<Rightarrow> bool" where
  "evicted c c' \<longleftrightarrow> crFrontier c' = crFrontier c \<and> crWal c' = crWal c \<and> (gomap_ok (crAtoms c) \<longrightarrow> gomap_ok (crAtoms c')) \<and>
     (\<forall>h. map_of (crAtoms c') h \<in> {None, map_of (crAtoms c) h}) \<and>
     (\<forall>h \<in> snd ` set (crFrontier c). map_of (crAtoms c') h = map_of (crAtoms c) h)"

lemma evicted_refl [simp]: "evicted c c"
  by (simp add: evicted_def)

lemma evicted_one: "evicted c c' \<Longrightarrow> h \<notin> snd ` set (crFrontier c) \<Longrightarrow> evicted c (crEvictOne h c')"
  by (auto simp: evicted_def crEvictOne_def delete_conv' gomap)

lemma evicted_Orphans: "evicted c (evictOrphans c)"
proof -
  have "evicted c (fold (\<lambda>(h, a) c'. if h \<in> snd ` set (crFrontier c) then c' else crEvictOne h c') as c')" if "evicted c c'" for as c'
    using that
  proof (induction as arbitrary: c')
    case (Cons x as)
    obtain h a where x: "x = (h, a)" by fastforce
    show ?case
    proof (cases "h \<in> snd ` set (crFrontier c)")
      case True
      then show ?thesis using Cons by (simp add: x)
    next
      case False
      then show ?thesis using Cons.IH [OF evicted_one [OF Cons.prems]] by (simp add: x)
    qed
  qed simp
  from this [OF evicted_refl] show ?thesis by (simp add: evictOrphans_def)
qed

lemma evicted_IfNeeded: "evicted c (evictIfNeeded c)"
proof -
  have "evicted c (snd (fold (evictRange (map snd (crFrontier c)) m) as (n, c')))" if "evicted c c'" for as n m c'
    using that
  proof (induction as arbitrary: n c')
    case (Cons x as)
    obtain h a where x: "x = (h, a)" by fastforce
    show ?case
    proof (cases "n \<ge> m \<or> h \<in> snd ` set (crFrontier c) \<or> map_of (crFrontier c') (aPath a) = Some h")
      case True
      then have "evictRange (map snd (crFrontier c)) m x (n, c') = (n, c')" by (simp add: evictRange_def x)
      with Cons show ?thesis by (simp only: fold_Cons comp_def)
    next
      case False
      then have "evictRange (map snd (crFrontier c)) m x (n, c') = (n + 1, crEvictOne h c')" by (simp add: evictRange_def x)
      then show ?thesis using Cons.IH [OF evicted_one [OF Cons.prems]] False by (simp only: fold_Cons comp_def) blast
    qed
  qed simp
  then show ?thesis by (simp add: evictIfNeeded_def)
qed

lemma map_of_snd: "map_of m k = Some v \<Longrightarrow> v \<in> snd ` set m"
  by (force dest: map_of_SomeD)

lemma evicted_durable:
  assumes "evicted c c'" and "durableAs C E as c"
  shows "durableAs C E as c'"
proof -
  have f: "map_of (crFrontier c) = frontierOf as" "crFrontier c' = crFrontier c" "crWal c' = crWal c"
    using assms by (simp_all add: evicted_def durableAs_def)
  have "map_of (crAtoms c') h = atomsOf as h" if "h \<in> ran (frontierOf as)" for h
  proof -
    from that obtain p where "map_of (crFrontier c) p = Some h" by (auto simp: ran_def f(1))
    then have "h \<in> snd ` set (crFrontier c)" by (rule map_of_snd)
    then have "map_of (crAtoms c') h = map_of (crAtoms c) h" using assms(1) unfolding evicted_def by blast
    with assms(2) that show ?thesis by (simp add: durableAs_def)
  qed
  with f assms(2) show ?thesis by (simp add: durableAs_def)
qed

lemma evicted_view:
  assumes "evicted c c'"
  shows "crGetCurrent p c' = crGetCurrent p c"
proof (cases "map_of (crFrontier c) p")
  case (Some h)
  then have "map_of (crAtoms c') h = map_of (crAtoms c) h" using map_of_snd [OF Some] assms unfolding evicted_def by blast
  with Some assms show ?thesis by (simp add: evicted_def crGetCurrent_def crGetAtom_def)
qed (use assms in \<open>simp add: evicted_def crGetCurrent_def\<close>)

lemma crGetCurrent_fields [simp]:
  "crGetCurrent p (c\<lparr>crWal := w\<rparr>) = crGetCurrent p c" "crGetCurrent p (c\<lparr>crCompacting := b\<rparr>) = crGetCurrent p c"
  by (simp_all add: crGetCurrent_def crGetAtom_def split: option.splits)

lemma evicted_ok:
  assumes e: "evicted c c'" and ok: "cr_ok c"
  shows "cr_ok c'"
proof -
  have f: "crFrontier c' = crFrontier c" "gomap_ok (crAtoms c')" using assms by (simp_all add: evicted_def cr_ok_def)
  have "\<exists>a. map_of (crAtoms c') h = Some a \<and> aPath a = p" if "map_of (crFrontier c) p = Some h" for p h
  proof -
    have "h \<in> snd ` set (crFrontier c)" using that by (rule map_of_snd)
    then have "map_of (crAtoms c') h = map_of (crAtoms c) h" using e unfolding evicted_def by blast
    with that ok show ?thesis by (simp add: cr_ok_def)
  qed
  moreover have "aHash a = h" if "map_of (crAtoms c') h = Some a" for h a
  proof -
    have "map_of (crAtoms c') h \<in> {None, map_of (crAtoms c) h}" using e unfolding evicted_def by blast
    with that ok show ?thesis by (simp add: cr_ok_def)
  qed
  ultimately show ?thesis using f ok by (simp add: cr_ok_def)
qed

section \<open>Writing\<close>

lemma requestCompaction_facts [simp]:
  "crFrontier (requestCompaction now c) = crFrontier c" "crAtoms (requestCompaction now c) = crAtoms c"
  "crWal (requestCompaction now c) = crWal c" "crCompacting (requestCompaction now c) = crCompacting c"
  "crDepth (requestCompaction now c) = crDepth c" "crClock (requestCompaction now c) = crClock c"
  by (simp_all add: requestCompaction_def)

lemma indexAtom_facts [simp]:
  "map_of (crFrontier (indexAtom E a c)) = (map_of (crFrontier c))(aPath a \<mapsto> aHash a)"
  "map_of (crAtoms (indexAtom E a c)) = (map_of (crAtoms c))(aHash a \<mapsto> a)"
  "crWal (indexAtom E a c) = crWal c"
  by (simp_all add: indexAtom_def update_conv')

lemma crMint_facts [simp]:
  "aPath (crMint E now nonce e p ps x c) = p" "aExpr (crMint E now nonce e p ps x c) = e"
  "aExpiresAt (crMint E now nonce e p ps x c) = x" "aLogicalClock (crMint E now nonce e p ps x c) = crClock c + 1"
  by (simp_all add: crMint_def Let_def)

text \<open>A write that is acknowledged: its line is in the log, its atom is indexed, and something may be evicted.\<close>

lemma append_Ok:
  assumes "crAppendAtom C E io now nonce e p ps x c = (Ok h, c')"
  defines "a \<equiv> crMint E now nonce e p ps x c"
  shows "h = aHash a" and "\<exists>w c1. walAppend C E io a (crWal c) = (Ok (), w) \<and> evicted (indexAtom E a c1) c' \<and> crWal c1 = w \<and>
    crFrontier c1 = crFrontier c \<and> crAtoms c1 = crAtoms c"
proof -
  obtain r w where w: "walAppend C E io a (crWal c) = (r, w)" by fastforce
  let ?c1 = "requestCompaction now (c\<lparr>crClock := crClock c + 1, crWal := w\<rparr>)"
  have r: "r = Ok ()" "h = aHash a" using assms(1) w by (auto simp: crAppendAtom_def a_def [symmetric] Let_def split: result.splits)
  have "c' = (if crCount (indexAtom E a ?c1) > maxAtomCacheEntries then evictIfNeeded (indexAtom E a ?c1) else indexAtom E a ?c1)"
    using assms(1) w r by (simp add: crAppendAtom_def a_def [symmetric] Let_def split: if_splits)
  then have "evicted (indexAtom E a ?c1) c'" using evicted_IfNeeded by simp
  with w r show "h = aHash a" "\<exists>w c1. walAppend C E io a (crWal c) = (Ok (), w) \<and> evicted (indexAtom E a c1) c' \<and> crWal c1 = w \<and>
    crFrontier c1 = crFrontier c \<and> crAtoms c1 = crAtoms c" by (auto intro!: exI [of _ ?c1])
qed

lemma append_view:
  assumes "crAppendAtom C E io now nonce e p ps x c = (Ok h, c')"
  defines "a \<equiv> crMint E now nonce e p ps x c"
  shows "map_of (crFrontier c') = (map_of (crFrontier c))(p \<mapsto> aHash a)"
    and "crGetCurrent p c' = Some a"
    and "\<And>q g. map_of (crFrontier c') q = Some g \<Longrightarrow> map_of (crAtoms c') g = (if g = aHash a then Some a else map_of (crAtoms c) g)"
proof -
  obtain c1 where c1: "evicted (indexAtom E a c1) c'" "crFrontier c1 = crFrontier c" "crAtoms c1 = crAtoms c"
    using append_Ok(2) [OF assms(1)] unfolding a_def by blast
  have fr: "crFrontier c' = crFrontier (indexAtom E a c1)" using c1(1) by (simp add: evicted_def)
  then show f: "map_of (crFrontier c') = (map_of (crFrontier c))(p \<mapsto> aHash a)" using c1(2) by (simp add: a_def)
  show m: "map_of (crAtoms c') g = (if g = aHash a then Some a else map_of (crAtoms c) g)" if "map_of (crFrontier c') q = Some g" for q g
  proof -
    have "g \<in> snd ` set (crFrontier (indexAtom E a c1))"
      using that unfolding fr by (rule map_of_snd)
    then have "map_of (crAtoms c') g = map_of (crAtoms (indexAtom E a c1)) g" using c1(1) unfolding evicted_def by blast
    then show ?thesis using c1(3) by simp
  qed
  show "crGetCurrent p c' = Some a" using f m [of p "aHash a"] by (simp add: crGetCurrent_def crGetAtom_def)
qed


lemma durable_index:
  assumes "durableAs C E as c" and "fits C E a" and "crFrontier c1 = crFrontier c" and "crAtoms c1 = crAtoms c"
    and "crWal c1 = writeLog (atomText C E a @ [LF]) (crWal c)"
  shows "durableAs C E (as @ [a]) (indexAtom E a c1)"
proof -
  have "map_of (crAtoms c) h = atomsOf as h" if "h \<in> ran (frontierOf as)" for h using assms(1) that by (simp add: durableAs_def)
  moreover have "ran ((frontierOf as)(aPath a \<mapsto> aHash a)) \<subseteq> insert (aHash a) (ran (frontierOf as))" by (auto simp: ran_def split: if_splits)
  ultimately show ?thesis using assms by (auto simp: durableAs_def logLines_def)
qed

lemma append_durable:
  assumes E: "codecLaws E" and d: "durableAs C E as c" and a: "a = crMint E now nonce e p ps x c" "fits C E a"
  shows "\<exists>h c'. crAppendAtom C E IoOk now nonce e p ps x c = (Ok h, c') \<and> durableAs C E (as @ [a]) c'"
proof -
  have "wHandle (crWal c) = HOpen" using d by (simp add: durableAs_def)
  note w = walAppend_fits(1) [OF E a(2) this]
  then obtain h c' where r: "crAppendAtom C E IoOk now nonce e p ps x c = (Ok h, c')"
    by (simp add: crAppendAtom_def a(1) [symmetric] Let_def)
  with append_Ok(2) [OF r] w obtain c1 where c1: "evicted (indexAtom E a c1) c'" "crWal c1 = writeLog (atomText C E a @ [LF]) (crWal c)"
    "crFrontier c1 = crFrontier c" "crAtoms c1 = crAtoms c" by (auto simp: a(1) [symmetric])
  from evicted_durable [OF c1(1) durable_index [OF d a(2) c1(3,4,2)]] r show ?thesis by blast
qed

lemma append_keeps:
  assumes ok: "cr_ok c" and r: "crAppendAtom C E io now nonce e p ps x c = (Ok h, c')" and new: "h \<notin> snd ` set (crFrontier c)"
  shows "cr_ok c'"
proof -
  let ?a = "crMint E now nonce e p ps x c"
  obtain c1 where c1: "evicted (indexAtom E ?a c1) c'" "crFrontier c1 = crFrontier c" "crAtoms c1 = crAtoms c"
    using append_Ok(2) [OF r] by blast
  have h: "h = aHash ?a" by (rule append_Ok(1) [OF r])
  have n: "map_of (crFrontier c) q \<noteq> Some (aHash ?a)" for q using new map_of_snd [of "crFrontier c" q] h by blast
  have "gomap_ok (crFrontier (indexAtom E ?a c1))" "gomap_ok (crAtoms (indexAtom E ?a c1))"
    using ok c1 by (simp_all add: indexAtom_def cr_ok_def gomap)
  then have "cr_ok (indexAtom E ?a c1)"
    using ok n c1(2,3) unfolding cr_ok_def by (auto split: if_splits)
  then show ?thesis by (rule evicted_ok [OF c1(1)])
qed

section \<open>Compaction\<close>

lemma map_filter_Some: "\<forall>x \<in> set xs. f x = Some (g x) \<Longrightarrow> List.map_filter f xs = map g xs"
  by (induction xs) (simp_all add: map_filter_simps)

text \<open>The atoms that compaction keeps: one for every path, in the order of their clocks.\<close>

lemma alive_set:
  assumes "cr_ok c"
  shows "a \<in> set (aliveAtoms c) \<longleftrightarrow> (\<exists>p h. map_of (crFrontier c) p = Some h \<and> map_of (crAtoms c) h = Some a)"
proof -
  have "a \<in> set (List.map_filter f xs) \<longleftrightarrow> (\<exists>x \<in> set xs. f x = Some a)" for f :: "string \<times> hash \<Rightarrow> catom option" and xs
    by (induction xs) (auto simp: map_filter_simps split: option.splits)
  then have "a \<in> set (aliveAtoms c) \<longleftrightarrow> (\<exists>x \<in> set (crFrontier c). map_of (crAtoms c) (snd x) = Some a)"
    by (simp add: aliveAtoms_def crGetAtom_def split_def)
  also have "\<dots> \<longleftrightarrow> (\<exists>p h. (p, h) \<in> set (crFrontier c) \<and> map_of (crAtoms c) h = Some a)" by force
  finally show ?thesis using assms by (simp add: cr_ok_def gomap_in_set)
qed

lemma replay_determined:
  "inj_on aPath (set as) \<Longrightarrow> inj_on aHash (set as) \<Longrightarrow> a \<in> set as \<Longrightarrow>
     frontierOf as (aPath a) = Some (aHash a) \<and> atomsOf as (aHash a) = Some a"
proof (induction as rule: rev_induct)
  case (snoc b as)
  have s: "set as \<subseteq> set (as @ [b])" "b \<in> set (as @ [b])" by auto
  show ?case
  proof (cases "a = b")
    case False
    then have "aHash a \<noteq> aHash b" "aPath a \<noteq> aPath b"
      using inj_onD [OF snoc.prems(1) _ snoc.prems(3) s(2)] inj_onD [OF snoc.prems(2) _ snoc.prems(3) s(2)] by blast+
    moreover have "a \<in> set as" using False snoc.prems(3) by simp
    ultimately show ?thesis
      using snoc.IH [OF inj_on_subset [OF snoc.prems(1) s(1)] inj_on_subset [OF snoc.prems(2) s(1)]] by simp
  qed simp
qed simp

lemma replay_other: "p \<notin> aPath ` set as \<Longrightarrow> frontierOf as p = None"
  by (induction as rule: rev_induct) auto

lemma alive_replay:
  assumes ok: "cr_ok c"
  shows "frontierOf (aliveAtoms c) = map_of (crFrontier c)"
    and "h \<in> ran (map_of (crFrontier c)) \<Longrightarrow> atomsOf (aliveAtoms c) h = map_of (crAtoms c) h"
proof -
  note al = alive_set [OF ok]
  have f: "\<exists>a. map_of (crAtoms c) h = Some a \<and> aPath a = p \<and> aHash a = h" if "map_of (crFrontier c) p = Some h" for p h
    using ok that unfolding cr_ok_def by blast
  have 1: "map_of (crFrontier c) (aPath a) = Some (aHash a) \<and> map_of (crAtoms c) (aHash a) = Some a" if "a \<in> set (aliveAtoms c)" for a
    using that f unfolding al by fastforce
  then have "inj_on aPath (set (aliveAtoms c))" "inj_on aHash (set (aliveAtoms c))"
    by (intro inj_onI; metis option.inject)+
  note r = replay_determined [OF this]
  show "frontierOf (aliveAtoms c) = map_of (crFrontier c)"
  proof
    fix p
    show "frontierOf (aliveAtoms c) p = map_of (crFrontier c) p"
    proof (cases "map_of (crFrontier c) p")
      case None
      then have "p \<notin> aPath ` set (aliveAtoms c)" using 1 by force
      with replay_other None show ?thesis by simp
    next
      case (Some h)
      with f obtain a where a: "map_of (crAtoms c) h = Some a" "aPath a = p" "aHash a = h" by blast
      then have "a \<in> set (aliveAtoms c)" unfolding al using Some by blast
      with r a Some show ?thesis by fastforce
    qed
  qed
  show "atomsOf (aliveAtoms c) h = map_of (crAtoms c) h" if h: "h \<in> ran (map_of (crFrontier c))"
  proof -
    from h obtain p where p: "map_of (crFrontier c) p = Some h" by (auto simp: ran_def)
    with f obtain a where a: "map_of (crAtoms c) h = Some a" "aHash a = h" by blast
    then have "a \<in> set (aliveAtoms c)" unfolding al using p by blast
    with r a show ?thesis by fastforce
  qed
qed

lemma alive_fits:
  assumes "cr_ok c" and "durableAs C E as c"
  shows "list_all (fits C E) (aliveAtoms c)"
proof -
  have "fits C E a" if "a \<in> set (aliveAtoms c)" for a
  proof -
    from that obtain p h where h: "map_of (crFrontier c) p = Some h" "map_of (crAtoms c) h = Some a"
      using alive_set [OF assms(1)] by blast
    then have "h \<in> ran (frontierOf as)" using assms(2) by (auto simp: durableAs_def ran_def)
    then have "a \<in> set as" using h(2) assms(2) atomsOf_elem by (force simp: durableAs_def)
    then show ?thesis using assms(2) by (simp add: durableAs_def list_all_iff)
  qed
  then show ?thesis by (simp add: list_all_iff)
qed

lemma rewrite_log:
  assumes E: "codecLaws E" and as: "list_all (fits C E) as" and w: "wHandle w = HOpen"
  shows "\<exists>w'. walRewrite C E noFaults as w = (Ok (), w') \<and> wHandle w' = HOpen \<and> content (wDisk w') = logLines C E as"
proof -
  have "atomJson C E a \<noteq> None" if "a \<in> set as" for a
  proof -
    have "loggable C E a" using as that by (simp add: list_all_iff fits_def)
    then obtain j where "atomJson C E a = Some j" using atomText_facts [OF E] by metis
    then show ?thesis by simp
  qed
  then have "list_all (\<lambda>a. atomJson C E a \<noteq> None) as" by (simp add: list_all_iff)
  moreover have "content (runSteps (rewriteSteps s) d) = s" for s d
    by (cases "dMain d") (simp_all add: rewriteSteps_def runSteps_def renameMainOld_def renameTmpMain_def content_def)
  ultimately show ?thesis using walRewrite_steps w by simp
qed


lemma compactFinish_durable:
  assumes E: "codecLaws E" and as: "list_all (fits C E) as" and w: "wHandle (crWal c) = HOpen"
  shows "\<exists>w'. wHandle w' = HOpen \<and> content (wDisk w') = logLines C E as \<and> crWal (compactFinish C E noFaults now as c) = w' \<and>
    evicted (c\<lparr>crWal := w'\<rparr>) (compactFinish C E noFaults now as c)"
proof -
  obtain w' where w': "walRewrite C E noFaults as (crWal c) = (Ok (), w')" "wHandle w' = HOpen" "content (wDisk w') = logLines C E as"
    using rewrite_log [OF E as w] by blast
  let ?c = "rebuildMerkle E as (c\<lparr>crWal := w'\<rparr>)"
  have c: "compactFinish C E noFaults now as c = compactDone now (evictOrphans ?c)" using w'(1) by (simp add: compactFinish_def)
  have "evicted ?c (evictOrphans ?c)" by (rule evicted_Orphans)
  then have "evicted (c\<lparr>crWal := w'\<rparr>) (compactDone now (evictOrphans ?c))" "crWal (compactDone now (evictOrphans ?c)) = w'"
    by (simp_all add: evicted_def compactDone_def rebuildMerkle_def)
  with w' c show ?thesis by auto
qed

lemma Compact_durable:
  fixes now :: gotime
  assumes E: "codecLaws E" and ok: "cr_ok c" and d: "durableAs C E as c"
  defines "c' \<equiv> Compact C E noFaults now c"
  shows "(\<exists>as'. durableAs C E as' c') \<and> cr_ok c' \<and> (\<forall>p. crGetCurrent p c' = crGetCurrent p c)"
proof (cases "crCompacting c")
  case False
  let ?c = "c\<lparr>crCompacting := True\<rparr>"
  have ok': "cr_ok ?c" and d': "durableAs C E as ?c" using ok d by (simp_all add: cr_ok_def durableAs_def)
  have w: "wHandle (crWal ?c) = HOpen" using d by (simp add: durableAs_def)
  note fits = alive_fits [OF ok' d']
  obtain w' where w': "wHandle w' = HOpen" "content (wDisk w') = logLines C E (aliveAtoms ?c)" "evicted (?c\<lparr>crWal := w'\<rparr>) c'"
    using compactFinish_durable [OF E fits w, of now] False by (auto simp: c'_def Compact_def Let_def)
  have "durableAs C E (aliveAtoms ?c) (?c\<lparr>crWal := w'\<rparr>)"
    using w'(1,2) fits alive_replay [OF ok'] by (simp add: durableAs_def)
  moreover have "cr_ok (?c\<lparr>crWal := w'\<rparr>)" using ok by (simp add: cr_ok_def)
  moreover have "crGetCurrent p c' = crGetCurrent p c" for p using evicted_view [OF w'(3)] by simp
  ultimately show ?thesis using evicted_durable [OF w'(3)] evicted_ok [OF w'(3)] by blast
qed (use assms in \<open>auto simp: Compact_def\<close>)

section \<open>Runs\<close>

text \<open>
  The states of one life of the process: it starts with an empty disk, writes atoms that the
  log takes and whose hashes are new, and compacts the log from time to time.
\<close>

inductive crReach :: "codec \<Rightarrow> ext \<Rightarrow> crystal \<Rightarrow> bool" for C :: codec and E :: ext where
  start: "crReach C E (blankCrystal (NewWAL emptyDisk))"
| append: "crReach C E c \<Longrightarrow> fits C E (crMint E now nonce e p ps x c) \<Longrightarrow>
    aHash (crMint E now nonce e p ps x c) \<notin> snd ` set (crFrontier c) \<Longrightarrow>
    crReach C E (snd (crAppendAtom C E IoOk now nonce e p ps x c))"
| compact: "crReach C E c \<Longrightarrow> crReach C E (Compact C E noFaults now c)"

lemma reach_durable:
  assumes E: "codecLaws E"
  shows "crReach C E c \<Longrightarrow> cr_ok c \<and> (\<exists>as. durableAs C E as c)"
proof (induction rule: crReach.induct)
  case start
  show ?case by (auto simp: cr_ok_def durableAs_def blankCrystal_def logLines_def gomap intro!: exI [of _ "[]"])
next
  case (append c now nonce e p ps x)
  then obtain as where d: "durableAs C E as c" by blast
  obtain h c' where r: "crAppendAtom C E IoOk now nonce e p ps x c = (Ok h, c')"
    and d': "durableAs C E (as @ [crMint E now nonce e p ps x c]) c'"
    using append_durable [OF E d refl append(2)] by blast
  have "cr_ok c" using append by blast
  from append_keeps [OF this r] append(3) append_Ok(1) [OF r] have "cr_ok c'" by simp
  with r d' show ?case by auto
next
  case (compact c now)
  then show ?case using Compact_durable [OF E] by blast
qed



text \<open>
  C29: a write in the middle of a compaction is lost at the next restart.  \<open>Compact\<close> collects
  the live atoms, and rewrites the log later without any lock that \<open>AppendAtom\<close> takes.  An
  atom that is appended in between is acknowledged, and it is served as long as the process
  lives; but the rewritten log does not have it, and after a restart the path has its old atom.
\<close>

theorem compaction_loses_write:
  assumes E: "codecLaws E" and c: "crReach C E c" and a: "a = crMint E now nonce e p ps x c" "fits C E a"
    and ap: "crAppendAtom C E IoOk now nonce e p ps x (c\<lparr>crCompacting := True\<rparr>) = (r, c1)"
    and c2: "c2 = compactFinish C E noFaults now' (aliveAtoms c) c1"
  shows "r = Ok (aHash a) \<and> crGetCurrent p c2 = Some a \<and>
    (\<exists>c3 t. NewCausalCrystal C E (wDisk (crWal c2)) newInternTable = Ok (c3, t) \<and>
       crGetCurrent p c3 = map_option recovered (crGetCurrent p c))"
proof -
  let ?c = "c\<lparr>crCompacting := True\<rparr>"
  obtain as where ok: "cr_ok c" and d: "durableAs C E as c" using reach_durable [OF E c] by blast
  have d': "durableAs C E as ?c" using d by (simp add: durableAs_def)
  have m: "crMint E now nonce e p ps x ?c = a" by (simp add: a(1) crMint_def depthOver_def)
  obtain h where h: "r = Ok h" and d1: "durableAs C E (as @ [a]) c1"
    using append_durable [OF E d' m [symmetric] a(2)] ap by auto
  note ap' = ap [unfolded h]
  have v: "h = aHash a" "crGetCurrent p c1 = Some a" using append_Ok(1) [OF ap'] append_view(2) [OF ap'] m by simp_all
  note fits = alive_fits [OF ok d]
  have w1: "wHandle (crWal c1) = HOpen" using d1 by (simp add: durableAs_def)
  obtain w' where w': "wHandle w' = HOpen" "content (wDisk w') = logLines C E (aliveAtoms c)" "crWal c2 = w'"
    "evicted (c1\<lparr>crWal := w'\<rparr>) c2" using compactFinish_durable [OF E fits w1, of now'] unfolding c2 by blast
  have "crGetCurrent p c2 = Some a" using evicted_view [OF w'(4)] v(2) by simp
  moreover have "durableAs C E (aliveAtoms c) (c\<lparr>crWal := w'\<rparr>)"
    using w'(1,2) fits alive_replay [OF ok] by (simp add: durableAs_def)
  then obtain c3 t where "NewCausalCrystal C E (wDisk w') newInternTable = Ok (c3, t)" "crGetCurrent p c3 = map_option recovered (crGetCurrent p c)"
    using durable_restart [OF E, of C "aliveAtoms c" "c\<lparr>crWal := w'\<rparr>"] by auto
  ultimately show ?thesis using h v(1) w'(3) by auto
qed


section \<open>Sweeping\<close>

definition tombstone :: "catom \<Rightarrow> bool" where
  "tombstone a \<longleftrightarrow> aExpr a = EConst VNull \<and> aExpiresAt a = zeroTime"

lemma append_current:
  assumes r: "crAppendAtom C E io now nonce e p ps x c = (Ok h, c')" and a: "a = crMint E now nonce e p ps x c"
  shows "crGetCurrent p c' = Some a" and "crGetCurrent q c \<noteq> None \<Longrightarrow> crGetCurrent q c' \<in> {Some a, crGetCurrent q c}"
    and "q \<noteq> p \<Longrightarrow> crGetCurrent q c' \<in> {Some a, crGetCurrent q c}"
proof -
  note v = append_view [OF r, folded a]
  show "crGetCurrent p c' = Some a" by (rule v(2))
  show q: "crGetCurrent q c' \<in> {Some a, crGetCurrent q c}" if "q \<noteq> p" for q
  proof (cases "map_of (crFrontier c) q")
    case (Some g)
    then have "map_of (crFrontier c') q = Some g" using that v(1) by simp
    from v(3) [OF this] Some \<open>map_of (crFrontier c') q = Some g\<close> show ?thesis by (simp add: crGetCurrent_def crGetAtom_def)
  qed (use that v(1) in \<open>simp add: crGetCurrent_def\<close>)
  show "crGetCurrent q c' \<in> {Some a, crGetCurrent q c}" if "crGetCurrent q c \<noteq> None"
    using q v(2) by (cases "q = p") auto
qed

lemma sweepEach_facts:
  "sweepEach C E io env ps c = (rs, c') \<Longrightarrow> list_all (\<lambda>r. \<exists>h. r = Ok h) rs \<Longrightarrow>
     (\<exists>a. crGetCurrent q c' = Some a \<and> tombstone a) \<or> q \<notin> fst ` set ps \<and> crGetCurrent q c' = crGetCurrent q c"
proof (induction ps arbitrary: rs c)
  case (Cons x ps)
  obtain p g where x: "x = (p, g)" by fastforce
  let ?ap = "crAppendAtom C E (io p) (fst (env p)) (snd (env p)) (EConst VNull) p [g] zeroTime c"
  obtain r c1 rs' where r: "?ap = (r, c1)" "sweepEach C E io env ps c1 = (rs', c')" "rs = r # rs'"
    using Cons.prems(1) x by (auto simp: Let_def split: prod.splits)
  then obtain h where h: "?ap = (Ok h, c1)" using Cons.prems(2) by auto
  let ?a = "crMint E (fst (env p)) (snd (env p)) (EConst VNull) p [g] zeroTime c"
  have t: "tombstone ?a" by (simp add: tombstone_def)
  note cur = append_current [OF h refl]
  from Cons.IH [OF r(2)] Cons.prems(2) r(3)
  consider "\<exists>a. crGetCurrent q c' = Some a \<and> tombstone a" | "q \<notin> fst ` set ps" "crGetCurrent q c' = crGetCurrent q c1" by auto
  then show ?case
  proof cases
    case 2
    then show ?thesis using cur(1) cur(3) [of q] t by (cases "q = p") (auto simp: x)
  qed simp
qed simp



section \<open>An example\<close>

definition exCr0 :: crystal where
  "exCr0 = blankCrystal (NewWAL emptyDisk)"

definition exCr1 :: crystal where
  "exCr1 = snd (crAppendAtom codec0 ext0 IoOk 1 0 (EConst (VString ''v'')) ''k'' [] 3 exCr0)"

definition exMint :: catom where
  "exMint = crMint ext0 1 0 (EConst (VString ''v'')) ''k'' [] 3 exCr0"

lemma exMint_fields:
  "aExpr exMint = EConst (VString ''v'')" "aPath exMint = ''k''" "aCausalPast exMint = []" "aCausalDepth exMint = 0"
  "aDomain exMint = DomainSystem" "aLogicalClock exMint = 1" "aPhysicalTime exMint = 1" "aNonce exMint = 0" "aBranchID exMint = 0"
  "aExpiresAt exMint = 3"
  by (simp_all add: exMint_def crMint_def exCr0_def blankCrystal_def depthOver_def inferDomain_def Let_def)

lemma exMint_hash: "aHash exMint \<noteq> 0"
  by (simp add: exMint_def crMint_def exCr0_def blankCrystal_def depthOver_def Let_def ComputeHash_def atomPreimage_def eval_digest be64_def UnixNano_def be32_def)

text \<open>A bound on the line of a small atom, whatever its hash.\<close>

lemma small_text:
  assumes "aExpr a = EConst v" "v = VString ''v'' \<or> v = VNull" "aPath a = ''k''" "aCausalPast a = [] \<or> (\<exists>h. aCausalPast a = [h])"
    "aCausalDepth a = 0 \<or> aCausalDepth a = 1" "aLogicalClock a = 1 \<or> aLogicalClock a = 2" "aPhysicalTime a \<in> {1, 5}" "aNonce a = 0" "aBranchID a = 0"
    "aExpiresAt a = zeroTime \<or> aExpiresAt a = 3" "aDomain a = DomainSystem"
  shows "length (atomText codec0 ext0 a) < 2000"
proof -
  have q: "quoteBody ''k'' = ''k''" "quoteBody ''v'' = ''v''" by code_simp+
  have t: "length (jsonTime ext0 zeroTime) = 21" "length (jsonTime ext0 1) = 1" "length (jsonTime ext0 3) = 1" "length (jsonTime ext0 5) = 1"
    by (simp_all add: ext0_def FormatInt_def zeroTime_def showNat.simps)
  have n: "length (showNat 0) = 1" "length (showNat 1) = 1" "length (showNat 2) = 1" "length (showNat 6) = 1" by (simp_all add: showNat.simps)
  have h: "length (jsonText (hashJson h)) \<le> 130" for h using length_byteArray [of "hashBytes h"] by (simp add: hashJson_def)
  have b: "length (jsonText (byteArray (be_bytes 16 0))) \<le> 66" using length_byteArray [of "be_bytes 16 0"] by simp
  have z: "length (joinWith '','' (replicate 256 ''0'')) \<le> 512"
    using length_joinWith [of "'',''" "replicate 256 ''0''"] by (simp add: sum_list_replicate)
  obtain j where j: "exprJson codec0 ext0 (aExpr a) = Some j" "length (jsonText j) \<le> 100"
    using assms(1,2) n q by (elim disjE) (simp_all add: header_def codec0_def jstr_def quoted_def)
  have p: "length (jsonText (hashesJson (aCausalPast a))) \<le> 140" using assms(4) le_trans [OF h, of 138] by (elim disjE exE) (simp_all add: hashesJson_def)
  have s: "length (jsonTime ext0 (aPhysicalTime a)) \<le> 21" "length (jsonTime ext0 (aExpiresAt a)) \<le> 21"
    "length (showNat (unat (aCausalDepth a))) = 1" "length (showNat (unat (aLogicalClock a))) = 1"
    using assms t n by auto
  show ?thesis using j p s b z h [of "aHash a"] q n assms(3,8,9,11)
    by (simp add: atomText_def atomJson_def jstr_def quoted_def)
qed


lemma exMint_fits: "fits codec0 ext0 exMint"
proof -
  have "length (atomText codec0 ext0 exMint) < 2000" by (rule small_text [of _ "VString ''v''"]) (simp_all add: exMint_fields)
  moreover have "validUTF8 ''k''" "validUTF8 ''v''" by code_simp+
  then have "loggable codec0 ext0 exMint"
    by (simp add: loggable_def exMint_fields exMint_hash exprOk_def codec0_def jsonRange_def zeroTime_def) (simp add: char_of_def)
  ultimately show ?thesis by (simp add: fits_def maxLineSize_def)
qed

lemma exCr1_reach: "crReach codec0 ext0 exCr0" "crReach codec0 ext0 exCr1" "crGetCurrent ''k'' exCr1 = Some exMint"
proof -
  show 0: "crReach codec0 ext0 exCr0" unfolding exCr0_def by (rule crReach.start)
  show "crReach codec0 ext0 exCr1" unfolding exCr1_def
    by (rule crReach.append [OF 0]) (simp_all add: exMint_def [symmetric] exMint_fits, simp add: exCr0_def blankCrystal_def)
  obtain as where "durableAs codec0 ext0 as exCr0" using reach_durable [OF codecLaws_ext0 0] by blast
  from append_durable [OF codecLaws_ext0 this exMint_def exMint_fits] obtain h
    where "crAppendAtom codec0 ext0 IoOk 1 0 (EConst (VString ''v'')) ''k'' [] 3 exCr0 = (Ok h, exCr1)" by (auto simp: exCr1_def)
  from append_view(2) [OF this] show "crGetCurrent ''k'' exCr1 = Some exMint" by (simp add: exMint_def)
qed

lemma recovered_exMint: "recovered exMint = exMint"
  by (simp add: recovered_def recoveredExpr_def recoveredValue_def exMint_fields)



theorem compaction_loses_write_witness:
  "\<exists>c1 c2 c3 t. crAppendAtom codec0 ext0 IoOk 1 0 (EConst (VString ''v'')) ''k'' [] 3 (exCr0\<lparr>crCompacting := True\<rparr>) = (Ok (aHash exMint), c1) \<and>
     c2 = compactFinish codec0 ext0 noFaults 2 (aliveAtoms exCr0) c1 \<and> crGetCurrent ''k'' c2 = Some exMint \<and>
     NewCausalCrystal codec0 ext0 (wDisk (crWal c2)) newInternTable = Ok (c3, t) \<and> crGetCurrent ''k'' c3 = None"
proof -
  obtain r c1 where r: "crAppendAtom codec0 ext0 IoOk 1 0 (EConst (VString ''v'')) ''k'' [] 3 (exCr0\<lparr>crCompacting := True\<rparr>) = (r, c1)"
    by fastforce
  have "crGetCurrent ''k'' exCr0 = None" by (simp add: exCr0_def blankCrystal_def crGetCurrent_def)
  with compaction_loses_write [OF codecLaws_ext0 exCr1_reach(1) exMint_def exMint_fits r refl, of 2] r show ?thesis by auto
qed


end
