(* ===== verification/Spec2Isabelle.thy ===== *)
theory Spec2Isabelle
  imports Freshness Crystal
begin

text \<open>
  A verification development of Wavicle, a causal cache in front of a database.
\<close>

end
